(* ===== verification/GoPrelude.thy ===== *)
theory GoPrelude
  imports Main "HOL-Library.Word"
begin

unbundle bit_operations_syntax

text \<open>
  Shared vocabulary of the development: the Go types the components use (bytes, byte slices,
  fixed-width unsigned integers), the result of a Go call, slice expressions with their bounds
  check, and big-endian numbers (package \<open>math/big\<close> and \<open>encoding/binary\<close> of the Go standard
  library).
\<close>

named_theorems outcome_simps \<open>case analysis of Go results\<close>

section \<open>Go types\<close>

type_synonym byte = "8 word"
type_synonym bytes = "byte list"
type_synonym u16 = "16 word"
type_synonym u32 = "32 word"
type_synonym u64 = "64 word"

section \<open>Results of Go calls\<close>

text \<open>
  A call returns its value (\<open>Ok\<close>), returns a non-nil error (\<open>Err\<close>; the value returned next to
  it is dropped where every caller drops it), or panics.
\<close>

datatype ('e, 'a) outcome = Ok 'a | Err 'e | Panic

primrec obind :: "('e, 'a) outcome \<Rightarrow> ('a \<Rightarrow> ('e, 'b) outcome) \<Rightarrow> ('e, 'b) outcome" where
  "obind (Ok a) f = f a"
| "obind (Err e) f = Err e"
| "obind Panic f = Panic"

primrec omap_err :: "('e \<Rightarrow> 'f) \<Rightarrow> ('e, 'a) outcome \<Rightarrow> ('f, 'a) outcome" where
  "omap_err g (Ok a) = Ok a"
| "omap_err g (Err e) = Err (g e)"
| "omap_err g Panic = Panic"

lemma obind_cong [fundef_cong]:
  "m = m' \<Longrightarrow> (\<And>a. m' = Ok a \<Longrightarrow> f a = g a) \<Longrightarrow> obind m f = obind m' g"
  by (cases m') simp_all

lemma obind_Ok_iff [outcome_simps]: "obind m f = Ok b \<longleftrightarrow> (\<exists>a. m = Ok a \<and> f a = Ok b)"
  by (cases m) auto

lemma obind_Panic_iff [outcome_simps]:
  "obind m f = Panic \<longleftrightarrow> m = Panic \<or> (\<exists>a. m = Ok a \<and> f a = Panic)"
  by (cases m) auto

lemma obind_Err_iff [outcome_simps]:
  "obind m f = Err e \<longleftrightarrow> m = Err e \<or> (\<exists>a. m = Ok a \<and> f a = Err e)"
  by (cases m) auto

lemma omap_err_Ok_iff [outcome_simps]: "omap_err g m = Ok a \<longleftrightarrow> m = Ok a"
  by (cases m) auto

lemma omap_err_Err_iff [outcome_simps]: "omap_err g m = Err e \<longleftrightarrow> (\<exists>d. m = Err d \<and> g d = e)"
  by (cases m) auto

lemma omap_err_Panic_iff [outcome_simps]: "omap_err g m = Panic \<longleftrightarrow> m = Panic"
  by (cases m) auto

section \<open>Functions that may not return\<close>

text \<open>\<open>None\<close> is a call that does not return.\<close>

type_synonym ('e, 'a) run = "('e, 'a) outcome option"

definition rbind :: "('e, 'a) run \<Rightarrow> ('a \<Rightarrow> ('e, 'b) run) \<Rightarrow> ('e, 'b) run" where
  "rbind m f = Option.bind m (\<lambda>r. case r of Ok a \<Rightarrow> f a | Err e \<Rightarrow> Some (Err e) | Panic \<Rightarrow> Some Panic)"

lemma rbind_simps [simp]:
  "rbind None f = None" "rbind (Some (Ok a)) f = f a" "rbind (Some (Err e)) f = Some (Err e)"
  "rbind (Some Panic) f = Some Panic"
  by (simp_all add: rbind_def)

lemma rbind_mono [partial_function_mono]:
  assumes "mono_option B" "\<And>y. mono_option (C y)"
  shows "mono_option (\<lambda>f. rbind (B f) (\<lambda>y. C y f))"
  unfolding rbind_def
proof (rule bind_mono [OF assms(1)])
  fix r :: "('c, 'd) outcome"
  show "mono_option (\<lambda>f. case r of Ok a \<Rightarrow> C a f | Err e \<Rightarrow> Some (Err e) | Panic \<Rightarrow> Some Panic)"
    using assms(2) by (cases r) (auto intro: option.const_mono)
qed

section \<open>Slices\<close>

text \<open>The slice expression \<open>xs[lo:hi]\<close>, which panics when its bounds are out of order or range
  (for the slices of this program the length is the capacity that matters).\<close>

definition slice :: "'a list \<Rightarrow> nat \<Rightarrow> nat \<Rightarrow> ('e, 'a list) outcome" where
  "slice xs lo hi =
     (if lo \<le> hi \<and> hi \<le> length xs then Ok (take (hi - lo) (drop lo xs)) else Panic)"

lemma slice_append [simp]:
  "slice (xs @ ys @ zs) (length xs) (length xs + length ys) = Ok ys"
  by (simp add: slice_def)

lemma slice_Ok_iff:
  "slice xs lo hi = Ok ys \<longleftrightarrow> lo \<le> hi \<and> hi \<le> length xs \<and> ys = take (hi - lo) (drop lo xs)"
  by (auto simp: slice_def)

text \<open>Reading one element: out of range panics.\<close>

definition index :: "'a list \<Rightarrow> nat \<Rightarrow> ('e, 'a) outcome" where
  "index xs i = (if i < length xs then Ok (xs ! i) else Panic)"

lemma index_Ok_iff: "index xs i = Ok x \<longleftrightarrow> i < length xs \<and> x = xs ! i"
  by (auto simp: index_def)

section \<open>Words\<close>

lemma unat_drop_bit_div: "unat (drop_bit n (w :: 'a::len word)) = unat w div 2 ^ n"
  by (subst unat_drop_bit_eq) (simp only: drop_bit_eq_div)

lemma byte_drop_bit: "(ucast (drop_bit n (w :: 'a::len word)) :: byte) = word_of_nat (unat w div 2 ^ n)"
  by (simp only: unat_drop_bit_div [symmetric] of_nat_unat)

section \<open>Big-endian numbers\<close>

primrec nat_of_be :: "bytes \<Rightarrow> nat" where
  "nat_of_be [] = 0"
| "nat_of_be (b # bs) = unat b * 256 ^ length bs + nat_of_be bs"

primrec be_fixed :: "nat \<Rightarrow> nat \<Rightarrow> bytes" where
  "be_fixed 0 x = []"
| "be_fixed (Suc n) x = be_fixed n (x div 256) @ [word_of_nat x]"

lemma be_fixed_numeral:
  "be_fixed (numeral k) x = be_fixed (pred_numeral k) (x div 256) @ [word_of_nat x]"
  by (subst numeral_eq_Suc) (rule be_fixed.simps(2))

text \<open>\<open>big.Int.Bytes\<close>: the absolute value, big endian, with no leading zero byte.\<close>

fun big_Bytes :: "nat \<Rightarrow> bytes" where
  "big_Bytes x = (if x = 0 then [] else big_Bytes (x div 256) @ [word_of_nat x])"

declare big_Bytes.simps [simp del]

lemma big_Bytes_0 [simp]: "big_Bytes 0 = []"
  by (simp add: big_Bytes.simps)

lemma unat_byte_of_nat: "unat (word_of_nat x :: byte) = x mod 256"
  by (simp add: unat_of_nat)

lemma unat_byte_less: "unat (b :: byte) < 256"
proof -
  have "unat b < 2 ^ LENGTH(8)" by (rule unsigned_less)
  then show ?thesis by simp
qed

lemma byte_of_nat_unat: "(word_of_nat (k * 256 + unat b) :: byte) = b"
proof -
  have "unat (word_of_nat (k * 256 + unat b) :: byte) = (k * 256 + unat b) mod 256"
    by (rule unat_byte_of_nat)
  also have "\<dots> = unat b" using unat_byte_less [of b] by simp
  finally show ?thesis by (rule word_unat_eq_iff [THEN iffD2])
qed

lemma nat_of_be_append: "nat_of_be (xs @ ys) = nat_of_be xs * 256 ^ length ys + nat_of_be ys"
  by (induction xs) (simp_all add: power_add algebra_simps)

lemma nat_of_be_snoc: "nat_of_be (xs @ [b]) = nat_of_be xs * 256 + unat b"
  by (simp add: nat_of_be_append)

lemma nat_of_be_less: "nat_of_be bs < 256 ^ length bs"
proof (induction bs)
  case (Cons b bs)
  have "unat b * 256 ^ length bs + nat_of_be bs < (unat b + 1) * 256 ^ length bs"
    using Cons by simp
  also have "\<dots> \<le> 256 * 256 ^ length bs"
    using unat_byte_less [of b] by (intro mult_right_mono) auto
  finally show ?case by simp
qed simp

lemma length_be_fixed [simp]: "length (be_fixed n x) = n"
  by (induction n arbitrary: x) simp_all

lemma nat_of_be_fixed: "nat_of_be (be_fixed n x) = x mod 256 ^ n"
proof (induction n arbitrary: x)
  case (Suc n)
  have "nat_of_be (be_fixed (Suc n) x) = (x div 256 mod 256 ^ n) * 256 + x mod 256"
    by (simp add: nat_of_be_snoc Suc unat_byte_of_nat)
  also have "\<dots> = x mod (256 * 256 ^ n)"
    by (simp add: mod_mult2_eq)
  finally show ?case by simp
qed simp

lemma be_fixed_nat_of_be: "be_fixed (length bs) (nat_of_be bs) = bs"
proof (induction bs rule: rev_induct)
  case (snoc b bs)
  have "(nat_of_be bs * 256 + unat b) div 256 = nat_of_be bs"
    using unat_byte_less [of b] by simp
  then show ?case
    using snoc byte_of_nat_unat [of "nat_of_be bs" b]
    by (simp add: nat_of_be_snoc)
qed simp

lemma nat_of_be_inject:
  "length xs = length ys \<Longrightarrow> nat_of_be xs = nat_of_be ys \<Longrightarrow> xs = ys"
  by (metis be_fixed_nat_of_be)

lemma nat_of_big_Bytes [simp]: "nat_of_be (big_Bytes x) = x"
proof (induction x rule: big_Bytes.induct)
  case (1 x)
  then show ?case
    by (subst big_Bytes.simps) (simp add: nat_of_be_snoc unat_byte_of_nat)
qed

lemma big_Bytes_eq_Nil_iff [simp]: "big_Bytes x = [] \<longleftrightarrow> x = 0"
  by (subst big_Bytes.simps) simp

lemma hd_big_Bytes: "x \<noteq> 0 \<Longrightarrow> hd (big_Bytes x) \<noteq> 0"
proof (induction x rule: big_Bytes.induct)
  case (1 x)
  show ?case
  proof (cases "x div 256 = 0")
    case True
    with 1 have "unat (word_of_nat x :: byte) \<noteq> 0"
      by (simp add: unat_byte_of_nat)
    then have "(word_of_nat x :: byte) \<noteq> 0" by (simp add: unat_eq_zero)
    with True 1 show ?thesis by (subst big_Bytes.simps) simp
  next
    case False
    with 1 show ?thesis
      by (subst big_Bytes.simps) (simp add: hd_append)
  qed
qed

lemma big_Bytes_nat_of_be:
  assumes "bs = [] \<or> hd bs \<noteq> 0"
  shows "big_Bytes (nat_of_be bs) = bs"
  using assms
proof (induction bs rule: rev_induct)
  case (snoc b bs)
  have div: "nat_of_be (bs @ [b]) div 256 = nat_of_be bs"
    using unat_byte_less [of b] by (simp add: nat_of_be_snoc)
  have last: "(word_of_nat (nat_of_be (bs @ [b])) :: byte) = b"
    using byte_of_nat_unat [of "nat_of_be bs" b] by (simp add: nat_of_be_snoc)
  have "bs = [] \<or> hd bs \<noteq> 0" using snoc.prems by (cases bs) auto
  then have IH: "big_Bytes (nat_of_be bs) = bs" by (rule snoc.IH)
  have "nat_of_be (bs @ [b]) \<noteq> 0"
  proof (cases "bs = []")
    case True
    with snoc.prems show ?thesis by (simp add: unat_eq_zero)
  next
    case False
    with IH have "nat_of_be bs \<noteq> 0" by (metis big_Bytes_0)
    then show ?thesis by (simp add: nat_of_be_snoc)
  qed
  then show ?case by (subst big_Bytes.simps) (simp add: div last IH)
qed simp

lemma length_big_Bytes_le: "x < 256 ^ n \<Longrightarrow> length (big_Bytes x) \<le> n"
proof (induction n arbitrary: x)
  case (Suc n)
  then have "x div 256 < 256 ^ n" by (simp add: less_mult_imp_div_less)
  then have "length (big_Bytes (x div 256)) \<le> n" by (rule Suc.IH)
  then show ?case by (subst big_Bytes.simps) simp
qed simp

lemma big_Bytes_fixed:
  assumes "256 ^ n \<le> x" "x < 256 ^ Suc n"
  shows "big_Bytes x = be_fixed (Suc n) x"
  using assms
proof (induction n arbitrary: x)
  case 0
  then have "x \<noteq> 0" "x div 256 = 0" by auto
  then show ?case by (subst big_Bytes.simps) simp
next
  case (Suc n)
  then have "x \<noteq> 0" by (metis not_numeral_le_zero power_not_zero le_zero_eq zero_neq_numeral)
  have "256 ^ n \<le> x div 256"
  proof -
    have "256 * 256 ^ n \<le> x" using Suc.prems(1) by simp
    then have "(256 * 256 ^ n) div 256 \<le> x div 256" by (rule div_le_mono)
    then show ?thesis by simp
  qed
  moreover have "x div 256 < 256 ^ Suc n" using Suc.prems(2) by (simp add: less_mult_imp_div_less)
  ultimately have "big_Bytes (x div 256) = be_fixed (Suc n) (x div 256)" by (rule Suc.IH)
  with \<open>x \<noteq> 0\<close> show ?case by (subst big_Bytes.simps) simp
qed

end
