(* ===== verification/RlpRaw.thy ===== *)
theory RlpRaw
  imports GoPrelude
begin

text \<open>
  Package \<open>rlp\<close>, the parts that work on byte slices without reflection: \<open>raw.go\<close> (\<open>Split\<close>,
  \<open>SplitString\<close>, \<open>SplitList\<close>, \<open>CountValues\<close>, \<open>readKind\<close>, \<open>readSize\<close>) and the header writers of
  \<open>encode.go\<close> (\<open>putint\<close>, \<open>intsize\<close>, \<open>headsize\<close>, \<open>puthead\<close>). Sizes are kept as 64-bit words, as the
  code has them. The specification is the canonical header of a content (\<open>rlp_head\<close>); the main
  facts are that \<open>Split\<close> accepts exactly the canonical encodings and never slices out of range.
\<close>

section \<open>Kinds and errors\<close>

datatype Kind = KByte | KString | KList

text \<open>The sentinel errors of the package and of \<open>io\<close>; \<open>DecodeError\<close> is the struct \<open>decodeError\<close>
  with its message and its context. \<open>Diverges\<close> is not an error of the source: it is the result of a run
  that does not end.\<close>

datatype rlp_error =
    ErrUnexpectedEOF | ErrEOF | EOL
  | ErrExpectedString | ErrExpectedList | ErrCanonInt | ErrCanonSize
  | ErrElemTooLarge | ErrValueTooLarge | ErrMoreThanOneValue
  | ErrNotInList | ErrNotAtEOL | ErrUintOverflow
  | ErrNegativeBigInt | ErrBool | ErrNotSerializable | ErrBadTag | ErrUnaddressable
  | DecodeError string "string list" | Diverges

section \<open>Integers and headers\<close>

function intsize_loop :: "u64 \<Rightarrow> nat \<Rightarrow> nat" where
  "intsize_loop i sz =
     (if drop_bit 8 i = 0 then sz else intsize_loop (drop_bit 8 i) (sz + 1))"
  by pat_completeness auto

termination
proof (relation "measure (\<lambda>(i, sz). unat i)")
  fix i :: u64 and sz :: nat
  assume "drop_bit 8 i \<noteq> 0"
  then have "unat (drop_bit 8 i) \<noteq> 0" by (simp add: unat_eq_zero)
  then have "unat i div 256 < unat i" by (simp add: unat_drop_bit_div)
  then show "((drop_bit 8 i, sz + 1), (i, sz)) \<in> measure (\<lambda>(i, sz). unat i)"
    by (simp add: unat_drop_bit_div)
qed simp

declare intsize_loop.simps [simp del]

definition intsize :: "u64 \<Rightarrow> nat" where
  "intsize i = intsize_loop i 1"

definition headsize :: "u64 \<Rightarrow> nat" where
  "headsize sz = (if sz < 56 then 1 else 1 + intsize sz)"

text \<open>\<open>putint\<close> writes to the front of a buffer and returns how many bytes it wrote; the model
  returns the bytes written.\<close>

definition putint :: "u64 \<Rightarrow> bytes" where
  "putint i =
    (if i < 2 ^ 8 then [ucast i]
     else if i < 2 ^ 16 then [ucast (drop_bit 8 i), ucast i]
     else if i < 2 ^ 24 then [ucast (drop_bit 16 i), ucast (drop_bit 8 i), ucast i]
     else if i < 2 ^ 32 then
       [ucast (drop_bit 24 i), ucast (drop_bit 16 i), ucast (drop_bit 8 i), ucast i]
     else if i < 2 ^ 40 then
       [ucast (drop_bit 32 i), ucast (drop_bit 24 i), ucast (drop_bit 16 i),
        ucast (drop_bit 8 i), ucast i]
     else if i < 2 ^ 48 then
       [ucast (drop_bit 40 i), ucast (drop_bit 32 i), ucast (drop_bit 24 i),
        ucast (drop_bit 16 i), ucast (drop_bit 8 i), ucast i]
     else if i < 2 ^ 56 then
       [ucast (drop_bit 48 i), ucast (drop_bit 40 i), ucast (drop_bit 32 i),
        ucast (drop_bit 24 i), ucast (drop_bit 16 i), ucast (drop_bit 8 i), ucast i]
     else
       [ucast (drop_bit 56 i), ucast (drop_bit 48 i), ucast (drop_bit 40 i),
        ucast (drop_bit 32 i), ucast (drop_bit 24 i), ucast (drop_bit 16 i),
        ucast (drop_bit 8 i), ucast i])"

definition puthead :: "byte \<Rightarrow> byte \<Rightarrow> u64 \<Rightarrow> bytes" where
  "puthead smalltag largetag sz =
    (if sz < 56 then [smalltag + ucast sz]
     else let sizebytes = putint sz
          in (largetag + word_of_nat (length sizebytes)) # sizebytes)"

definition ListSize :: "u64 \<Rightarrow> u64" where
  "ListSize contentSize = word_of_nat (headsize contentSize) + contentSize"

section \<open>Reading headers\<close>

definition readSize :: "bytes \<Rightarrow> byte \<Rightarrow> (rlp_error, u64) outcome" where
  "readSize b slen =
    (if unat slen > length b then Err ErrUnexpectedEOF
     else let s = (
            if slen = 1 then ucast (b ! 0)
            else if slen = 2 then push_bit 8 (ucast (b ! 0)) OR ucast (b ! 1)
            else if slen = 3 then
              push_bit 16 (ucast (b ! 0)) OR push_bit 8 (ucast (b ! 1)) OR ucast (b ! 2)
            else if slen = 4 then
              push_bit 24 (ucast (b ! 0)) OR push_bit 16 (ucast (b ! 1)) OR
              push_bit 8 (ucast (b ! 2)) OR ucast (b ! 3)
            else if slen = 5 then
              push_bit 32 (ucast (b ! 0)) OR push_bit 24 (ucast (b ! 1)) OR
              push_bit 16 (ucast (b ! 2)) OR push_bit 8 (ucast (b ! 3)) OR ucast (b ! 4)
            else if slen = 6 then
              push_bit 40 (ucast (b ! 0)) OR push_bit 32 (ucast (b ! 1)) OR
              push_bit 24 (ucast (b ! 2)) OR push_bit 16 (ucast (b ! 3)) OR
              push_bit 8 (ucast (b ! 4)) OR ucast (b ! 5)
            else if slen = 7 then
              push_bit 48 (ucast (b ! 0)) OR push_bit 40 (ucast (b ! 1)) OR
              push_bit 32 (ucast (b ! 2)) OR push_bit 24 (ucast (b ! 3)) OR
              push_bit 16 (ucast (b ! 4)) OR push_bit 8 (ucast (b ! 5)) OR ucast (b ! 6)
            else if slen = 8 then
              push_bit 56 (ucast (b ! 0)) OR push_bit 48 (ucast (b ! 1)) OR
              push_bit 40 (ucast (b ! 2)) OR push_bit 32 (ucast (b ! 3)) OR
              push_bit 24 (ucast (b ! 4)) OR push_bit 16 (ucast (b ! 5)) OR
              push_bit 8 (ucast (b ! 6)) OR ucast (b ! 7)
            else (0 :: u64))
          in if s < 56 \<or> b ! 0 = 0 then Err ErrCanonSize else Ok s)"

text \<open>The guard \<open>contentsize > uint64(len(buf)) - tagsize\<close>; the subtraction wraps.\<close>

definition exceeds :: "nat \<Rightarrow> u64 \<Rightarrow> u64 \<Rightarrow> bool" where
  "exceeds buflen tagsize contentsize \<longleftrightarrow> contentsize > word_of_nat buflen - tagsize"

definition readKind :: "bytes \<Rightarrow> (rlp_error, Kind \<times> u64 \<times> u64) outcome" where
  "readKind buf =
    (case buf of
       [] \<Rightarrow> Err ErrUnexpectedEOF
     | b # more \<Rightarrow>
         obind
           (if b < 0x80 then Ok (KByte, 0, 1)
            else if b < 0xB8 then
              (let contentsize = ucast (b - 0x80) in
               if contentsize = 1 \<and> length buf > 1 \<and> buf ! 1 < 128 then Err ErrCanonSize
               else Ok (KString, 1, contentsize))
            else if b < 0xC0 then
              obind (readSize more (b - 0xB7))
                (\<lambda>contentsize. Ok (KString, ucast (b - 0xB7) + 1, contentsize))
            else if b < 0xF8 then Ok (KList, 1, ucast (b - 0xC0))
            else
              obind (readSize more (b - 0xF7))
                (\<lambda>contentsize. Ok (KList, ucast (b - 0xF7) + 1, contentsize)))
           (\<lambda>(k, tagsize, contentsize).
              if exceeds (length buf) tagsize contentsize then Err ErrValueTooLarge
              else Ok (k, tagsize, contentsize)))"

definition Split :: "bytes \<Rightarrow> (rlp_error, Kind \<times> bytes \<times> bytes) outcome" where
  "Split b =
    obind (readKind b) (\<lambda>(k, ts, cs).
    obind (slice b (unat ts) (unat (ts + cs))) (\<lambda>content.
    obind (slice b (unat (ts + cs)) (length b)) (\<lambda>rest.
      Ok (k, content, rest))))"

definition SplitString :: "bytes \<Rightarrow> (rlp_error, bytes \<times> bytes) outcome" where
  "SplitString b =
    obind (Split b) (\<lambda>(k, content, rest).
      if k = KList then Err ErrExpectedString else Ok (content, rest))"

definition SplitList :: "bytes \<Rightarrow> (rlp_error, bytes \<times> bytes) outcome" where
  "SplitList b =
    obind (Split b) (\<lambda>(k, content, rest).
      if k \<noteq> KList then Err ErrExpectedList else Ok (content, rest))"

lemma unat_ucast_byte_Suc: "unat (ucast (x :: byte) + 1 :: u64) = Suc (unat x)"
  using unat_byte_less [of x]
  by (simp add: unat_word_ariths unsigned_ucast_eq take_bit_eq_mod)

lemma readKind_tagsize:
  "readKind b = Ok (k, ts, cs) \<Longrightarrow> k = KByte \<and> ts = 0 \<and> cs = 1 \<or> k \<noteq> KByte \<and> 0 < unat ts"
  by (auto simp: readKind_def Let_def obind_Ok_iff unat_ucast_byte_Suc
      split: list.splits if_splits)

text \<open>The loop of \<open>CountValues\<close>. The new start \<open>tagsize+size\<close> is a sum of naturals here: \<open>readKind\<close>
  has bounded it by the length of the slice, so the 64-bit sum cannot wrap.\<close>

function CountValues_loop :: "bytes \<Rightarrow> nat \<Rightarrow> (rlp_error, nat) outcome" where
  "CountValues_loop b i =
    (if length b > 0 then
       obind (readKind b) (\<lambda>(k, tagsize, sz).
       obind (slice b (unat tagsize + unat sz) (length b)) (\<lambda>b'. CountValues_loop b' (i + 1)))
     else Ok i)"
  by pat_completeness auto
termination
  by (relation "measure (\<lambda>(b, i). length b)") (auto simp: slice_Ok_iff dest!: readKind_tagsize)

declare CountValues_loop.simps [simp del]

definition CountValues :: "bytes \<Rightarrow> (rlp_error, nat) outcome" where
  "CountValues b = CountValues_loop b 0"

section \<open>Header bytes as numbers\<close>

lemma eq_ifI: "(c \<Longrightarrow> z = x) \<Longrightarrow> (\<not> c \<Longrightarrow> z = y) \<Longrightarrow> z = (if c then x else y)"
  by simp

lemma big_Bytes_cases:
  assumes "0 < x" "x < 256 ^ 8"
  shows "big_Bytes x =
    (if x < 256 ^ 1 then be_fixed 1 x else if x < 256 ^ 2 then be_fixed 2 x
     else if x < 256 ^ 3 then be_fixed 3 x else if x < 256 ^ 4 then be_fixed 4 x
     else if x < 256 ^ 5 then be_fixed 5 x else if x < 256 ^ 6 then be_fixed 6 x
     else if x < 256 ^ 7 then be_fixed 7 x else be_fixed 8 x)"
proof -
  have step: "big_Bytes x = be_fixed (Suc n) x" if "\<not> x < 256 ^ n" "x < 256 ^ Suc n" for n
    using that by (simp only: not_less big_Bytes_fixed)
  have "\<not> x < 256 ^ 0" using assms by simp
  note s = step [OF this] step [of 1] step [of 2] step [of 3] step [of 4] step [of 5] step [of 6]
    step [of 7]
  note s' = s [unfolded One_nat_def [symmetric] Suc_1 Suc_numeral add_num_simps]
  show ?thesis
    by (intro eq_ifI s' assms(2)) assumption+
qed

lemma unat_u64_less: "unat (i :: u64) < 256 ^ 8"
proof -
  have "unat i < 2 ^ LENGTH(64)" by (rule unsigned_less)
  then show ?thesis by simp
qed

lemma putint_big_Bytes:
  assumes "i \<noteq> 0"
  shows "putint i = big_Bytes (unat i)"
proof -
  have "0 < unat i" using assms by (simp add: unat_gt_0)
  moreover note unat_u64_less [of i]
  ultimately show ?thesis
    unfolding putint_def word_less_nat_alt
    by (simp add: big_Bytes_cases be_fixed_numeral byte_drop_bit div_mult2_eq [symmetric])
qed

lemma intsize_loop_big_Bytes:
  "i \<noteq> 0 \<Longrightarrow> intsize_loop i n = n + length (big_Bytes (unat i)) - 1"
proof (induction i n rule: intsize_loop.induct)
  case (1 i n)
  have unfold: "big_Bytes (unat i) = big_Bytes (unat i div 256) @ [word_of_nat (unat i)]"
    using "1.prems" by (subst big_Bytes.simps) (simp add: unat_eq_zero)
  show ?case
  proof (cases "drop_bit 8 i = 0")
    case True
    then have "unat i div 256 = 0" using unat_drop_bit_div [of 8 i] by simp
    with True show ?thesis by (subst intsize_loop.simps) (simp add: unfold)
  next
    case False
    then have "intsize_loop (drop_bit 8 i) (n + 1) = n + 1 + length (big_Bytes (unat i div 256)) - 1"
      using "1.IH" by (simp add: unat_drop_bit_div)
    with False show ?thesis by (subst intsize_loop.simps) (simp add: unfold)
  qed
qed

lemma intsize_big_Bytes: "i \<noteq> 0 \<Longrightarrow> intsize i = length (big_Bytes (unat i))"
  by (simp add: intsize_def intsize_loop_big_Bytes)

lemma length_big_Bytes_u64: "length (big_Bytes (unat (i :: u64))) \<le> 8"
  using length_big_Bytes_le unat_u64_less by blast

text \<open>The canonical header of a content of \<open>n\<close> bytes.\<close>

definition rlp_head :: "byte \<Rightarrow> byte \<Rightarrow> nat \<Rightarrow> bytes" where
  "rlp_head smalltag largetag n =
    (if n < 56 then [smalltag + word_of_nat n]
     else (largetag + word_of_nat (length (big_Bytes n))) # big_Bytes n)"

lemma puthead_rlp_head: "puthead s l sz = rlp_head s l (unat sz)"
proof (cases "sz < 56")
  case True
  then show ?thesis by (simp add: puthead_def rlp_head_def word_less_nat_alt)
next
  case False
  then have "sz \<noteq> 0" by auto
  with False show ?thesis
    by (simp add: puthead_def rlp_head_def word_less_nat_alt putint_big_Bytes Let_def)
qed

lemma headsize_rlp_head: "headsize sz = length (rlp_head s l (unat sz))"
proof (cases "sz < 56")
  case True
  then show ?thesis by (simp add: headsize_def rlp_head_def word_less_nat_alt)
next
  case False
  then have "sz \<noteq> 0" by auto
  with False show ?thesis
    by (simp add: headsize_def rlp_head_def word_less_nat_alt intsize_big_Bytes)
qed

lemma push_bit_8_or: "push_bit 8 w OR (ucast (b :: byte) :: u64) = w * 256 + ucast b"
proof -
  have "push_bit 8 w AND (ucast b :: u64) = 0"
    by (rule bit_word_eqI) (auto simp: bit_simps dest: bit_imp_le_length)
  then have "push_bit 8 w OR (ucast b :: u64) = push_bit 8 w + ucast b"
    by (simp add: disjunctive_add_eq_or)
  then show ?thesis by (simp add: push_bit_eq_mult mult.commute)
qed

definition be_word :: "bytes \<Rightarrow> u64" where
  "be_word bs = foldl (\<lambda>w b. push_bit 8 w OR ucast b) 0 bs"

lemma be_word_nat_of_be: "be_word bs = word_of_nat (nat_of_be bs)"
  unfolding be_word_def
  by (induction bs rule: rev_induct) (simp_all add: push_bit_8_or nat_of_be_snoc)

lemma upt_small:
  "[0..<2] = [0, 1]" "[0..<3] = [0, 1, 2]" "[0..<4] = [0, 1, 2, 3]" "[0..<5] = [0, 1, 2, 3, 4]"
  "[0..<6] = [0, 1, 2, 3, 4, 5]" "[0..<7] = [0, 1, 2, 3, 4, 5, 6]"
  "[0..<8] = [0, 1, 2, 3, 4, 5, 6, 7]"
  by (simp_all add: upt_rec)

lemma readSize_eq:
  assumes "1 \<le> unat slen" "unat slen \<le> 8"
  shows "readSize b slen =
    (if length b < unat slen then Err ErrUnexpectedEOF
     else if be_word (take (unat slen) b) < 56 \<or> b ! 0 = 0 then Err ErrCanonSize
     else Ok (be_word (take (unat slen) b)))"
proof (cases "length b < unat slen")
  case True
  then show ?thesis by (simp add: readSize_def)
next
  case False
  have nth: "take n b = map (\<lambda>i. b ! i) [0..<n]" if "n \<le> length b" for n
    using that by (simp add: list_eq_iff_nth_eq)
  have "slen \<in> {1, 2, 3, 4, 5, 6, 7, 8}"
  proof -
    have "unat slen \<in> {1, 2, 3, 4, 5, 6, 7, 8}" using assms by auto
    then have "slen \<in> word_of_nat ` {1, 2, 3, 4, 5, 6, 7, 8}"
      by (metis image_eqI of_nat_unat ucast_id)
    then show ?thesis by simp
  qed
  with False show ?thesis
    by (elim insertE emptyE; hypsubst)
      (auto simp: readSize_def nth be_word_def upt_small Let_def push_bit_or or.assoc Suc_le_eq)
qed

section \<open>Canonical encodings\<close>

text \<open>Which contents have an encoding of a given kind, and that encoding.\<close>

definition canonical :: "Kind \<Rightarrow> bytes \<Rightarrow> bool" where
  "canonical k content =
    (case k of
       KByte \<Rightarrow> length content = 1 \<and> hd content < 128
     | KString \<Rightarrow> \<not> (length content = 1 \<and> hd content < 128)
     | KList \<Rightarrow> True)"

definition rlp_frame_head :: "Kind \<Rightarrow> bytes \<Rightarrow> bytes" where
  "rlp_frame_head k content =
    (case k of
       KByte \<Rightarrow> []
     | KString \<Rightarrow> rlp_head 0x80 0xB7 (length content)
     | KList \<Rightarrow> rlp_head 0xC0 0xF7 (length content))"

definition rlp_frame :: "Kind \<Rightarrow> bytes \<Rightarrow> bytes" where
  "rlp_frame k content = rlp_frame_head k content @ content"

lemma unat_byte_plus: "unat (a :: byte) + n < 256 \<Longrightarrow> unat (a + word_of_nat n) = unat a + n"
  by (simp add: unat_word_ariths unat_of_nat)

lemma big_Bytes_length_u64:
  assumes "n < 2 ^ 64"
  shows "length (big_Bytes n) \<le> 8"
  using length_big_Bytes_le [of n 8] assms by simp

lemma readSize_big_Bytes:
  assumes "56 \<le> n" "n < 2 ^ 64"
  shows "readSize (big_Bytes n @ r) (word_of_nat (length (big_Bytes n))) = Ok (word_of_nat n)"
proof -
  let ?l = "length (big_Bytes n)"
  have l: "1 \<le> ?l" "?l \<le> 8" using assms big_Bytes_length_u64 [of n] by (auto simp: Suc_le_eq)
  then have ul: "unat (word_of_nat ?l :: byte) = ?l" by (simp add: unat_of_nat)
  have w: "be_word (big_Bytes n) = word_of_nat n" by (simp add: be_word_nat_of_be)
  have "\<not> (word_of_nat n :: u64) < 56"
    using assms by (simp add: word_less_nat_alt unat_of_nat)
  moreover have "(big_Bytes n @ r) ! 0 \<noteq> 0"
    using hd_big_Bytes [of n] assms l by (simp add: nth_append hd_conv_nth)
  ultimately show ?thesis using l by (simp add: readSize_eq ul w)
qed

lemma exceeds_iff:
  assumes "L < 2 ^ 64" "unat h \<le> L"
  shows "exceeds L h n \<longleftrightarrow> L < unat h + unat n"
proof -
  have "unat (word_of_nat L - h) = L - unat h"
    using assms by (subst unat_sub) (simp_all add: word_le_nat_alt unat_of_nat)
  then show ?thesis using assms(2) by (auto simp: exceeds_def word_less_nat_alt)
qed

lemma u64_of_byte: "n < 256 \<Longrightarrow> (ucast (word_of_nat n :: byte) :: u64) = word_of_nat n"
  by (rule word_unat_eq_iff [THEN iffD2]) (simp add: unat_of_nat unsigned_ucast_eq take_bit_eq_mod)

lemma readKind_byte:
  "b < 0x80 \<Longrightarrow> readKind (b # more) =
    (if exceeds (Suc (length more)) 0 1 then Err ErrValueTooLarge else Ok (KByte, 0, 1))"
  by (simp add: readKind_def)

lemma readKind_short_string:
  assumes "n < 56"
  shows "readKind ((0x80 + word_of_nat n) # more) =
    (if n = 1 \<and> more \<noteq> [] \<and> hd more < 128 then Err ErrCanonSize
     else if exceeds (Suc (length more)) 1 (word_of_nat n) then Err ErrValueTooLarge
     else Ok (KString, 1, word_of_nat n))"
proof -
  have "\<not> 0x80 + (word_of_nat n :: byte) < 0x80" "0x80 + (word_of_nat n :: byte) < 0xB8"
    using assms by (simp_all add: word_less_nat_alt unat_byte_plus)
  moreover have "(word_of_nat n :: u64) = 1 \<longleftrightarrow> n = 1"
    using assms by (simp add: word_unat_eq_iff unat_of_nat)
  ultimately show ?thesis
    using assms by (cases more) (simp_all add: readKind_def u64_of_byte Let_def)
qed

lemma readKind_long_string:
  assumes "1 \<le> l" "l \<le> 8"
  shows "readKind ((0xB7 + word_of_nat l) # more) =
    obind (readSize more (word_of_nat l)) (\<lambda>cs.
      if exceeds (Suc (length more)) (word_of_nat l + 1) cs then Err ErrValueTooLarge
      else Ok (KString, word_of_nat l + 1, cs))"
proof -
  have "\<not> 0xB7 + (word_of_nat l :: byte) < 0x80" "\<not> 0xB7 + (word_of_nat l :: byte) < 0xB8"
    "0xB7 + (word_of_nat l :: byte) < 0xC0"
    using assms by (simp_all add: word_less_nat_alt unat_byte_plus)
  then show ?thesis
    using assms by (cases "readSize more (word_of_nat l)") (simp_all add: readKind_def u64_of_byte)
qed

lemma readKind_short_list:
  assumes "n < 56"
  shows "readKind ((0xC0 + word_of_nat n) # more) =
    (if exceeds (Suc (length more)) 1 (word_of_nat n) then Err ErrValueTooLarge
     else Ok (KList, 1, word_of_nat n))"
proof -
  have "\<not> 0xC0 + (word_of_nat n :: byte) < 0x80" "\<not> 0xC0 + (word_of_nat n :: byte) < 0xB8"
    "\<not> 0xC0 + (word_of_nat n :: byte) < 0xC0" "0xC0 + (word_of_nat n :: byte) < 0xF8"
    using assms by (simp_all add: word_less_nat_alt unat_byte_plus)
  then show ?thesis using assms by (simp add: readKind_def u64_of_byte)
qed

lemma readKind_long_list:
  assumes "1 \<le> l" "l \<le> 8"
  shows "readKind ((0xF7 + word_of_nat l) # more) =
    obind (readSize more (word_of_nat l)) (\<lambda>cs.
      if exceeds (Suc (length more)) (word_of_nat l + 1) cs then Err ErrValueTooLarge
      else Ok (KList, word_of_nat l + 1, cs))"
proof -
  have "\<not> 0xF7 + (word_of_nat l :: byte) < 0x80" "\<not> 0xF7 + (word_of_nat l :: byte) < 0xB8"
    "\<not> 0xF7 + (word_of_nat l :: byte) < 0xC0" "\<not> 0xF7 + (word_of_nat l :: byte) < 0xF8"
    using assms by (simp_all add: word_less_nat_alt unat_byte_plus)
  then show ?thesis
    using assms by (cases "readSize more (word_of_nat l)") (simp_all add: readKind_def u64_of_byte)
qed

lemmas readKind_simps =
  readKind_byte readKind_short_string readKind_long_string readKind_short_list readKind_long_list

lemma tag_cases:
  obtains (byte) "b < (0x80 :: byte)"
  | (short_string) n where "n < 56" "b = 0x80 + word_of_nat n"
  | (long_string) l where "1 \<le> l" "l \<le> 8" "b = 0xB7 + word_of_nat l"
  | (short_list) n where "n < 56" "b = 0xC0 + word_of_nat n"
  | (long_list) l where "1 \<le> l" "l \<le> 8" "b = 0xF7 + word_of_nat l"
proof -
  have shift: "b = a + word_of_nat (unat b - unat a)" if "unat a \<le> unat b" for a
    using that unat_byte_less [of b] by (simp add: word_unat_eq_iff unat_byte_plus)
  consider "unat b < 0x80" | "0x80 \<le> unat b" "unat b < 0xB8" | "0xB8 \<le> unat b" "unat b < 0xC0"
    | "0xC0 \<le> unat b" "unat b < 0xF8" | "0xF8 \<le> unat b"
    by linarith
  then show thesis
  proof cases
    case 1
    then show thesis by (intro byte) (simp add: word_less_nat_alt)
  next
    case 2
    then show thesis using shift [of "0x80"] by (intro short_string [where n = "unat b - 0x80"]) auto
  next
    case 3
    then show thesis using shift [of "0xB7"] by (intro long_string [where l = "unat b - 0xB7"]) auto
  next
    case 4
    then show thesis using shift [of "0xC0"] by (intro short_list [where n = "unat b - 0xC0"]) auto
  next
    case 5
    then show thesis using shift [of "0xF7"] unat_byte_less [of b]
      by (intro long_list [where l = "unat b - 0xF7"]) auto
  qed
qed

lemma readKind_frame:
  assumes "canonical k content" "length (rlp_frame k content @ rest) < 2 ^ 64"
  shows "readKind (rlp_frame k content @ rest) =
    Ok (k, word_of_nat (length (rlp_frame_head k content)), word_of_nat (length content))"
proof -
  let ?n = "length content"
  have n: "?n < 2 ^ 64" using assms(2) by (simp add: rlp_frame_def)
  have un: "unat (word_of_nat ?n :: u64) = ?n" using n by (simp add: unat_of_nat)
  have long: "\<not> exceeds (Suc (length (big_Bytes ?n @ content @ rest)))
      (word_of_nat (length (big_Bytes ?n)) + 1) (word_of_nat ?n)"
    if "Suc (length (big_Bytes ?n @ content @ rest)) < 2 ^ 64"
  proof -
    have "unat (word_of_nat (length (big_Bytes ?n)) + 1 :: u64) = length (big_Bytes ?n) + 1"
      using that by (simp add: unat_word_ariths unat_of_nat)
    with that show ?thesis by (simp add: exceeds_iff un)
  qed
  have l: "1 \<le> length (big_Bytes ?n)" "length (big_Bytes ?n) \<le> 8" if "56 \<le> ?n"
    using that n big_Bytes_length_u64 [of ?n] by (auto simp: Suc_le_eq)
  show ?thesis
  proof (cases k)
    case KByte
    with assms show ?thesis
      by (cases content) (auto simp: readKind_simps canonical_def rlp_frame_def
        rlp_frame_head_def exceeds_iff)
  next
    case KString
    show ?thesis
    proof (cases "?n < 56")
      case True
      have "\<not> (?n = 1 \<and> content @ rest \<noteq> [] \<and> hd (content @ rest) < 128)"
        using KString assms(1) by (cases content) (auto simp: canonical_def)
      with True KString assms show ?thesis
        by (simp add: readKind_simps rlp_frame_def rlp_frame_head_def rlp_head_def exceeds_iff un)
    next
      case False
      with KString assms n l long show ?thesis
        by (simp add: readKind_simps rlp_frame_def rlp_frame_head_def rlp_head_def
          readSize_big_Bytes)
    qed
  next
    case KList
    show ?thesis
    proof (cases "?n < 56")
      case True
      with KList assms show ?thesis
        by (simp add: readKind_simps rlp_frame_def rlp_frame_head_def rlp_head_def
          exceeds_iff un)
    next
      case False
      with KList assms n l long show ?thesis
        by (simp add: readKind_simps rlp_frame_def rlp_frame_head_def rlp_head_def
          readSize_big_Bytes)
    qed
  qed
qed

lemma readSize_Ok:
  assumes "readSize more (word_of_nat l) = Ok cs" "1 \<le> l" "l \<le> 8"
  shows "l \<le> length more \<and> take l more = big_Bytes (unat cs) \<and> 56 \<le> unat cs"
proof -
  have ul: "unat (word_of_nat l :: byte) = l" using assms by (simp add: unat_of_nat)
  with assms have *: "l \<le> length more" "cs = be_word (take l more)" "\<not> cs < 56" "more ! 0 \<noteq> 0"
    by (auto simp: readSize_eq split: if_splits)
  have "nat_of_be (take l more) < 256 ^ l" using nat_of_be_less [of "take l more"] * by simp
  also have "\<dots> \<le> 256 ^ 8" using assms by (intro power_increasing) auto
  finally have "unat cs = nat_of_be (take l more)"
    using * by (simp add: be_word_nat_of_be unat_of_nat)
  moreover have "hd (take l more) \<noteq> 0"
    using * assms by (cases more) (auto simp: take_Cons')
  ultimately show ?thesis
    using * big_Bytes_nat_of_be [of "take l more"] by (auto simp: word_less_nat_alt)
qed

lemma readSize_split:
  assumes "readSize more (word_of_nat l) = Ok cs" "1 \<le> l" "l \<le> 8" "l + unat cs \<le> length more"
  obtains content rest where "more = big_Bytes (unat cs) @ content @ rest"
    "length content = unat cs" "l = length (big_Bytes (unat cs))" "56 \<le> unat cs"
proof -
  note sz = readSize_Ok [OF assms(1-3)]
  let ?content = "take (unat cs) (drop l more)" and ?rest = "drop (unat cs) (drop l more)"
  have "more = take l more @ ?content @ ?rest" by (simp del: drop_drop)
  moreover have "length (take l more) = l" "length ?content = unat cs" using assms(4) by simp_all
  ultimately show thesis using sz that [of ?content ?rest] by metis
qed

lemma readKind_long_Ok:
  fixes ts :: u64
  assumes "readSize more (word_of_nat l) = Ok cs" "1 \<le> l" "l \<le> 8"
    and "\<not> exceeds (Suc (length more)) (word_of_nat l + 1) cs" "length (tag # more) < 2 ^ 64"
    and "tag = largetag + word_of_nat l" "ts = word_of_nat l + 1"
  obtains content rest where "56 \<le> length content"
    "tag # more = rlp_head smalltag largetag (length content) @ content @ rest"
    "unat ts = length (rlp_head smalltag largetag (length content))" "unat cs = length content"
proof -
  have ul: "unat (word_of_nat l + 1 :: u64) = l + 1"
    using assms(3) by (simp add: unat_word_ariths unat_of_nat)
  have "l \<le> length more" using readSize_Ok [OF assms(1-3)] by simp
  with assms(4,5) have "l + unat cs \<le> length more" by (simp add: exceeds_iff ul)
  with assms(1-3) obtain content rest where
    "more = big_Bytes (unat cs) @ content @ rest" "length content = unat cs"
    "l = length (big_Bytes (unat cs))" "56 \<le> unat cs" by (blast elim: readSize_split)
  with assms(6,7) ul show thesis
    by (intro that [of content rest]) (simp_all add: rlp_head_def)
qed

lemma readKind_Ok:
  assumes "readKind b = Ok (k, ts, cs)" "length b < 2 ^ 64"
  shows "\<exists>content rest. canonical k content \<and> b = rlp_frame k content @ rest \<and>
    unat ts = length (rlp_frame_head k content) \<and> unat cs = length content"
proof -
  obtain tag more where b: "b = tag # more"
    using assms(1) by (cases b) (auto simp: readKind_def)
  show ?thesis
  proof (cases tag rule: tag_cases)
    case byte
    with assms show ?thesis
      by (intro exI [of _ "[tag]"] exI [of _ more])
        (auto simp: b readKind_simps canonical_def rlp_frame_def rlp_frame_head_def split: if_splits)
  next
    case (short_string n)
    then have un: "unat (word_of_nat n :: u64) = n" by (simp add: unat_of_nat)
    from short_string assms un have *: "k = KString" "ts = 1" "unat cs = n" "n \<le> length more"
      "\<not> (n = 1 \<and> more \<noteq> [] \<and> hd more < 128)"
      by (auto simp: b readKind_simps exceeds_iff split: if_splits)
    then have "canonical KString (take n more)"
      by (cases more) (auto simp: canonical_def)
    with * short_string show ?thesis
      by (intro exI [of _ "take n more"] exI [of _ "drop n more"])
        (simp add: b rlp_frame_def rlp_frame_head_def rlp_head_def min_absorb2)
  next
    case (short_list n)
    then have un: "unat (word_of_nat n :: u64) = n" by (simp add: unat_of_nat)
    from short_list assms un have *: "k = KList" "ts = 1" "unat cs = n" "n \<le> length more"
      by (auto simp: b readKind_simps exceeds_iff split: if_splits)
    with short_list show ?thesis
      by (intro exI [of _ "take n more"] exI [of _ "drop n more"])
        (simp add: b rlp_frame_def rlp_frame_head_def rlp_head_def canonical_def min_absorb2)
  next
    case (long_string l)
    with assms have *: "readSize more (word_of_nat l) = Ok cs" "k = KString"
      "ts = word_of_nat l + 1" "\<not> exceeds (Suc (length more)) (word_of_nat l + 1) cs"
      by (auto simp: b readKind_simps obind_Ok_iff split: if_splits)
    from readKind_long_Ok [OF *(1) long_string(1,2) *(4) assms(2) [unfolded b] long_string(3) *(3)]
    obtain content rest where
      "56 \<le> length content" "tag # more = rlp_head 0x80 0xB7 (length content) @ content @ rest"
      "unat ts = length (rlp_head 0x80 0xB7 (length content))" "unat cs = length content"
      by blast
    with * have "canonical k content \<and> b = rlp_frame k content @ rest \<and>
        unat ts = length (rlp_frame_head k content) \<and> unat cs = length content"
      by (simp add: b rlp_frame_def rlp_frame_head_def canonical_def)
    then show ?thesis by blast
  next
    case (long_list l)
    with assms have *: "readSize more (word_of_nat l) = Ok cs" "k = KList"
      "ts = word_of_nat l + 1" "\<not> exceeds (Suc (length more)) (word_of_nat l + 1) cs"
      by (auto simp: b readKind_simps obind_Ok_iff split: if_splits)
    from readKind_long_Ok [OF *(1) long_list(1,2) *(4) assms(2) [unfolded b] long_list(3) *(3)]
    obtain content rest where
      "56 \<le> length content" "tag # more = rlp_head 0xC0 0xF7 (length content) @ content @ rest"
      "unat ts = length (rlp_head 0xC0 0xF7 (length content))" "unat cs = length content"
      by blast
    with * have "canonical k content \<and> b = rlp_frame k content @ rest \<and>
        unat ts = length (rlp_frame_head k content) \<and> unat cs = length content"
      by (simp add: b rlp_frame_def rlp_frame_head_def canonical_def)
    then show ?thesis by blast
  qed
qed

lemma Split_frame:
  assumes "canonical k content" "length (rlp_frame k content @ rest) < 2 ^ 64"
  shows "Split (rlp_frame k content @ rest) = Ok (k, content, rest)"
proof -
  let ?h = "rlp_frame_head k content"
  have "unat (word_of_nat (length ?h) :: u64) = length ?h"
    "unat (word_of_nat (length ?h) + word_of_nat (length content) :: u64) = length ?h + length content"
    using assms(2) by (simp_all add: rlp_frame_def unat_word_ariths unat_of_nat)
  then show ?thesis
    using readKind_frame [OF assms] by (simp add: Split_def rlp_frame_def slice_def)
qed

text \<open>C10. on inputs shorter than \<open>2\<^sup>6\<^sup>4\<close> bytes (every Go slice is), \<open>Split\<close> accepts exactly the
  canonical encodings: it returns kind, content and rest if and only if the input is the canonical
  frame of that content followed by the rest. So every content has one accepted encoding, and
  splitting inverts framing.\<close>

theorem Split_iff:
  assumes "length b < 2 ^ 64"
  shows "Split b = Ok (k, content, rest) \<longleftrightarrow> canonical k content \<and> b = rlp_frame k content @ rest"
proof
  assume "Split b = Ok (k, content, rest)"
  then obtain ts cs where rk: "readKind b = Ok (k, ts, cs)"
    by (auto simp: Split_def obind_Ok_iff)
  from readKind_Ok [OF this assms] obtain c r where c: "canonical k c" "b = rlp_frame k c @ r"
    by blast
  with assms have "Split b = Ok (k, c, r)" by (simp add: Split_frame)
  with \<open>Split b = Ok (k, content, rest)\<close> c show "canonical k content \<and> b = rlp_frame k content @ rest"
    by simp
next
  assume "canonical k content \<and> b = rlp_frame k content @ rest"
  with assms show "Split b = Ok (k, content, rest)" by (simp add: Split_frame)
qed

theorem Split_iff_witness:
  "Split [0x82, 0x80, 0x01, 0x05] = Ok (KString, [0x80, 0x01], [0x05])"
  using Split_iff [of "[0x82, 0x80, 0x01, 0x05]" KString "[0x80, 0x01]" "[0x05]"]
  by (simp add: canonical_def rlp_frame_def rlp_frame_head_def rlp_head_def)

lemma readSize_no_Panic: "readSize b slen \<noteq> Panic"
  unfolding readSize_def Let_def by simp

lemma readKind_no_Panic: "readKind b \<noteq> Panic"
  by (auto simp: readKind_def readSize_no_Panic Let_def obind_Panic_iff split: list.splits if_splits)

lemma Split_no_Panic:
  assumes "length b < 2 ^ 64"
  shows "Split b \<noteq> Panic"
proof (cases "readKind b")
  case (Ok r)
  then obtain k ts cs where "readKind b = Ok (k, ts, cs)" by (cases r) auto
  from readKind_Ok [OF this assms] obtain c r' where "canonical k c" "b = rlp_frame k c @ r'"
    by blast
  with assms show ?thesis by (simp add: Split_frame)
qed (auto simp: Split_def readKind_no_Panic)

lemma CountValues_loop_frame:
  assumes "canonical k c" "length (rlp_frame k c @ r) < 2 ^ 64"
  shows "CountValues_loop (rlp_frame k c @ r) i = CountValues_loop r (i + 1)"
proof -
  have ne: "0 < length (rlp_frame k c @ r)"
    using assms(1) by (cases k) (auto simp: canonical_def rlp_frame_def rlp_frame_head_def rlp_head_def)
  have "unat (word_of_nat (length (rlp_frame_head k c)) :: u64) = length (rlp_frame_head k c)"
    "unat (word_of_nat (length c) :: u64) = length c"
    using assms(2) by (simp_all add: rlp_frame_def unat_of_nat)
  then have "slice (rlp_frame k c @ r) (unat (word_of_nat (length (rlp_frame_head k c)) :: u64) +
      unat (word_of_nat (length c) :: u64)) (length (rlp_frame k c @ r)) =
      (Ok r :: (rlp_error, bytes) outcome)"
    by (simp add: slice_def rlp_frame_def)
  with ne readKind_frame [OF assms] show ?thesis
    by (subst CountValues_loop.simps) (simp del: append_assoc length_append)
qed

lemma CountValues_loop_Ok:
  assumes "CountValues_loop b i = Ok n" "length b < 2 ^ 64"
  shows "\<exists>fs. i + length fs = n \<and> (\<forall>(k, c) \<in> set fs. canonical k c) \<and>
    b = concat (map (\<lambda>(k, c). rlp_frame k c) fs)"
  using assms
proof (induction b i rule: CountValues_loop.induct)
  case (1 b i)
  show ?case
  proof (cases "b = []")
    case True
    with 1 show ?thesis by (intro exI [of _ "[]"]) (simp add: CountValues_loop.simps)
  next
    case False
    with "1.prems"(1) obtain k ts cs b' where rk: "readKind b = Ok (k, ts, cs)"
      and sl: "slice b (unat ts + unat cs) (length b) = (Ok b' :: (rlp_error, bytes) outcome)"
      and rec: "CountValues_loop b' (i + 1) = Ok n"
      by (subst (asm) CountValues_loop.simps) (auto simp: obind_Ok_iff)
    from readKind_Ok [OF rk "1.prems"(2)] obtain c r where
      c: "canonical k c" "b = rlp_frame k c @ r" "b' = r"
      using sl by (auto simp: slice_Ok_iff rlp_frame_def)
    have "length b' < 2 ^ 64" using c "1.prems"(2) by simp
    from "1.IH" [OF _ rk refl refl sl rec this] False obtain fs where
      "i + 1 + length fs = n" "\<forall>(k, c) \<in> set fs. canonical k c"
      "b' = concat (map (\<lambda>(k, c). rlp_frame k c) fs)" by auto
    with c show ?thesis by (intro exI [of _ "(k, c) # fs"]) simp
  qed
qed

lemma CountValues_loop_frames:
  assumes "\<forall>(k, c) \<in> set fs. canonical k c"
    "length (concat (map (\<lambda>(k, c). rlp_frame k c) fs)) < 2 ^ 64"
  shows "CountValues_loop (concat (map (\<lambda>(k, c). rlp_frame k c) fs)) i = Ok (i + length fs)"
  using assms
proof (induction fs arbitrary: i)
  case Nil
  then show ?case by (simp add: CountValues_loop.simps)
next
  case (Cons f fs)
  then show ?case by (cases f) (simp add: CountValues_loop_frame)
qed

text \<open>C11. \<open>CountValues\<close> returns \<open>n\<close> exactly on the concatenations of \<open>n\<close> canonical encodings.\<close>

theorem CountValues_iff:
  assumes "length b < 2 ^ 64"
  shows "CountValues b = Ok n \<longleftrightarrow>
    (\<exists>fs. length fs = n \<and> (\<forall>(k, c) \<in> set fs. canonical k c) \<and>
      b = concat (map (\<lambda>(k, c). rlp_frame k c) fs))"
  unfolding CountValues_def
  using CountValues_loop_Ok [of b 0 n] CountValues_loop_frames [of _ 0] assms by auto

theorem CountValues_iff_witness: "CountValues [0x05, 0x80, 0xC1, 0x07] = Ok 3"
proof -
  have "\<exists>fs. length fs = 3 \<and> (\<forall>(k, c) \<in> set fs. canonical k c) \<and>
      [0x05, 0x80, 0xC1, 0x07] = concat (map (\<lambda>(k, c). rlp_frame k c) fs)"
    by (intro exI [of _ "[(KByte, [0x05]), (KString, []), (KList, [0x07])]"])
      (simp add: canonical_def rlp_frame_def rlp_frame_head_def rlp_head_def)
  with CountValues_iff [of "[0x05, 0x80, 0xC1, 0x07]" 3] show ?thesis by simp
qed

end
