(* ===== verification/RlpEncode.thy ===== *)
theory RlpEncode
  imports RlpRaw
begin

text \<open>
  The RLP encoder, \<open>rlp/encode.go\<close>, with the type information of \<open>rlp/typecache.go\<close>. Values reach the
  encoder through Go's reflection, so types and values are data here (\<open>rtype\<close>, \<open>rval\<close>). The encoder
  collects string data and list headers in an \<open>encbuf\<close> and merges them at the end; the specification
  (\<open>rlp_of\<close>) puts every list header in front of the content it belongs to. The main fact is that both
  agree, through \<open>toBytes\<close>, \<open>toWriter\<close> and the incremental \<open>encReader\<close>.
\<close>

section \<open>Types and values seen by reflection\<close>

text \<open>
  \<open>TUint n\<close> is the unsigned type of \<open>n\<close> bits; \<open>TSlice (TUint 8)\<close> is \<open>[]byte\<close>, whose values are
  \<open>VBytes\<close>, as are the values of strings, of byte arrays and of \<open>RawValue\<close>. \<open>TEnc ptr t\<close> is a type
  with an \<open>EncodeRLP\<close> method that passes a value of type \<open>t\<close> on to \<open>Encode\<close>, which is what every
  implementation in the program does; \<open>ptr\<close> says that the method needs a pointer the value at hand is
  not. \<open>TIface m\<close> is an interface type, with methods if \<open>m\<close>. The fields of a struct have their name, its visibility and the text of their \<open>rlp\<close> tag.
\<close>

datatype rtype =
    TRaw | TUint nat | TBool | TString | TBigPtr | TBig | TIface bool | TOther
  | TSlice rtype | TArray nat rtype | TPtr rtype | TEnc bool rtype
  | TStruct "rfield list"
and rfield = Field (fname: string) (fexported: bool) (ftag: string) (ftype: rtype)

datatype rval =
    VBytes bytes | VUint u64 | VBool bool | VBig int | VNil
  | VPtr rval | VIface rtype rval | VEnc rval | VList "rval list" | VStruct "rval list"

record tags =
  nilOK :: bool
  tail :: bool
  ignored :: bool

definition no_tags :: tags where
  "no_tags = \<lparr>nilOK = False, tail = False, ignored = False\<rparr>"

definition isByte :: "rtype \<Rightarrow> bool" where
  "isByte typ \<longleftrightarrow> typ = TUint 8"

definition isSliceType :: "rtype \<Rightarrow> bool" where
  "isSliceType typ \<longleftrightarrow> (case typ of TSlice _ \<Rightarrow> True | TRaw \<Rightarrow> True | _ \<Rightarrow> False)"

definition isStructOrArray :: "rtype \<Rightarrow> bool" where
  "isStructOrArray typ \<longleftrightarrow> (case typ of TStruct _ \<Rightarrow> True | TArray _ _ \<Rightarrow> True | TBig \<Rightarrow> True | _ \<Rightarrow> False)"

section \<open>Struct tags\<close>

fun split_comma :: "string \<Rightarrow> string \<Rightarrow> string list" where
  "split_comma acc [] = [rev acc]"
| "split_comma acc (c # cs) =
     (if c = CHR '','' then rev acc # split_comma [] cs else split_comma (c # acc) cs)"

text \<open>\<open>strings.TrimSpace\<close>: the white space of Unicode, each in its UTF-8 encoding.\<close>

definition spaces :: "string list" where
  "spaces = map (\<lambda>c. [c]) [CHR 0x09, CHR 0x0A, CHR 0x0B, CHR 0x0C, CHR 0x0D, CHR 0x20] @
    [[CHR 0xC2, CHR 0x85], [CHR 0xC2, CHR 0xA0], [CHR 0xE1, CHR 0x9A, CHR 0x80]] @
    map (\<lambda>c. [CHR 0xE2, CHR 0x80, c])
      [CHR 0x80, CHR 0x81, CHR 0x82, CHR 0x83, CHR 0x84, CHR 0x85, CHR 0x86, CHR 0x87, CHR 0x88, CHR 0x89, CHR 0x8A,
       CHR 0xA8, CHR 0xA9, CHR 0xAF] @
    [[CHR 0xE2, CHR 0x81, CHR 0x9F], [CHR 0xE3, CHR 0x80, CHR 0x80]]"

function trim_left :: "string list \<Rightarrow> string \<Rightarrow> string" where
  "trim_left ps s =
    (case find (\<lambda>p. p \<noteq> [] \<and> take (length p) s = p) ps of
       None \<Rightarrow> s
     | Some p \<Rightarrow> trim_left ps (drop (length p) s))"
  by pat_completeness auto
termination
proof (relation "measure (\<lambda>(ps, s). length s)")
  fix ps s p assume "find (\<lambda>p. p \<noteq> [] \<and> take (length p) s = p) ps = Some p"
  then have "p \<noteq> []" "take (length p) s = p" by (auto simp: find_Some_iff)
  then have "s \<noteq> []" "0 < length p" by auto
  then show "((ps, drop (length p) s), (ps, s)) \<in> measure (\<lambda>(ps, s). length s)" by simp
qed simp

declare trim_left.simps [simp del]

definition TrimSpace :: "string \<Rightarrow> string" where
  "TrimSpace s = rev (trim_left (map rev spaces) (rev (trim_left spaces s)))"

lemma TrimSpace_tags: "TrimSpace [] = []" "TrimSpace ''-'' = ''-''" "TrimSpace ''nil'' = ''nil''" "TrimSpace ''tail'' = ''tail''"
  by (simp_all add: TrimSpace_def trim_left.simps spaces_def)

fun parseStructTag_loop :: "string list \<Rightarrow> bool \<Rightarrow> rtype \<Rightarrow> tags \<Rightarrow> (rlp_error, tags) outcome" where
  "parseStructTag_loop [] lastf typ ts = Ok ts"
| "parseStructTag_loop (t # rest) lastf typ ts =
     (let t = TrimSpace t in
      if t = '''' then parseStructTag_loop rest lastf typ ts
      else if t = ''-'' then parseStructTag_loop rest lastf typ (ts\<lparr>ignored := True\<rparr>)
      else if t = ''nil'' then parseStructTag_loop rest lastf typ (ts\<lparr>nilOK := True\<rparr>)
      else if t = ''tail'' then
        if \<not> lastf then Err ErrBadTag
        else if \<not> isSliceType typ then Err ErrBadTag
        else parseStructTag_loop rest lastf typ (ts\<lparr>tail := True\<rparr>)
      else Err ErrBadTag)"

text \<open>\<open>lastf\<close>: the field is the last one of its struct.\<close>

definition parseStructTag :: "rfield \<Rightarrow> bool \<Rightarrow> (rlp_error, tags) outcome" where
  "parseStructTag f lastf = parseStructTag_loop (split_comma [] (ftag f)) lastf (ftype f) no_tags"

fun structFields_loop :: "nat \<Rightarrow> rfield list \<Rightarrow> (rlp_error, (nat \<times> tags \<times> rtype) list) outcome" where
  "structFields_loop i [] = Ok []"
| "structFields_loop i (f # fs) =
     (if fexported f then
        obind (parseStructTag f (fs = [])) (\<lambda>ts.
          if ignored ts then structFields_loop (i + 1) fs
          else obind (structFields_loop (i + 1) fs) (\<lambda>rest. Ok ((i, ts, ftype f) # rest)))
      else structFields_loop (i + 1) fs)"

definition structFields :: "rfield list \<Rightarrow> (rlp_error, (nat \<times> tags \<times> rtype) list) outcome" where
  "structFields fs = structFields_loop 0 fs"

section \<open>The encode buffer\<close>

text \<open>
  A list head is named by its index in \<open>lheads\<close>, where the source has a pointer to it. Between
  \<open>list\<close> and \<open>listEnd\<close> the field \<open>lsize\<close> holds the value of \<open>lhsize\<close> at the call of \<open>list\<close>. The
  scratch array \<open>sizebuf\<close> is written before each read and is not part of the state.
\<close>

record listhead =
  offset :: nat
  lsize :: nat

record encbuf =
  str :: bytes
  lheads :: "listhead list"
  lhsize :: nat

definition encbuf_reset :: encbuf where
  "encbuf_reset = \<lparr>str = [], lheads = [], lhsize = 0\<rparr>"

definition encbuf_size :: "encbuf \<Rightarrow> nat" where
  "encbuf_size w = length (str w) + lhsize w"

definition encbuf_write :: "bytes \<Rightarrow> encbuf \<Rightarrow> encbuf" where
  "encbuf_write b w = w\<lparr>str := str w @ b\<rparr>"

definition encodeStringHeader :: "nat \<Rightarrow> encbuf \<Rightarrow> encbuf" where
  "encodeStringHeader sz w =
    (if sz < 56 then encbuf_write [0x80 + word_of_nat sz] w
     else let sizebytes = putint (word_of_nat sz)
          in encbuf_write ((0xB7 + word_of_nat (length sizebytes)) # sizebytes) w)"

definition encodeString :: "bytes \<Rightarrow> encbuf \<Rightarrow> encbuf" where
  "encodeString b w =
    (if length b = 1 \<and> b ! 0 \<le> 0x7F then encbuf_write [b ! 0] w
     else encbuf_write b (encodeStringHeader (length b) w))"

definition encbuf_list :: "encbuf \<Rightarrow> nat \<times> encbuf" where
  "encbuf_list w =
    (length (lheads w), w\<lparr>lheads := lheads w @ [\<lparr>offset = length (str w), lsize = lhsize w\<rparr>]\<rparr>)"

definition encbuf_listEnd :: "nat \<Rightarrow> encbuf \<Rightarrow> encbuf" where
  "encbuf_listEnd lh w =
    (let h = lheads w ! lh;
         sz = encbuf_size w - offset h - lsize h
     in w\<lparr>lheads := (lheads w)[lh := h\<lparr>lsize := sz\<rparr>],
          lhsize := lhsize w + (if sz < 56 then 1 else 1 + intsize (word_of_nat sz))\<rparr>)"

definition listhead_encode :: "listhead \<Rightarrow> bytes" where
  "listhead_encode head = puthead 0xC0 0xF7 (word_of_nat (lsize head))"

text \<open>\<open>copy(out[pos:], src)\<close>: the new array and the number of bytes copied.\<close>

definition copy_at :: "bytes \<Rightarrow> nat \<Rightarrow> bytes \<Rightarrow> ('e, bytes \<times> nat) outcome" where
  "copy_at out pos src =
    (if pos \<le> length out then
       let n = min (length out - pos) (length src)
       in Ok (take pos out @ take n src @ drop (pos + n) out, n)
     else Panic)"

text \<open>\<open>head.encode(out[pos:])\<close> writes the header in place, and panics when it does not fit.\<close>

definition encode_at :: "bytes \<Rightarrow> nat \<Rightarrow> listhead \<Rightarrow> ('e, bytes \<times> nat) outcome" where
  "encode_at out pos head =
    (let enc = listhead_encode head
     in if pos + length enc \<le> length out
        then Ok (take pos out @ enc @ drop (pos + length enc) out, length enc) else Panic)"

fun toBytes_loop :: "bytes \<Rightarrow> listhead list \<Rightarrow> bytes \<Rightarrow> nat \<Rightarrow> nat \<Rightarrow> ('e, bytes) outcome" where
  "toBytes_loop s [] out pos strpos =
     obind (slice s strpos (length s)) (\<lambda>p.
     obind (copy_at out pos p) (\<lambda>(out, n). Ok out))"
| "toBytes_loop s (head # heads) out pos strpos =
     obind (slice s strpos (offset head)) (\<lambda>p.
     obind (copy_at out pos p) (\<lambda>(out, n).
     obind (encode_at out (pos + n) head) (\<lambda>(out, m).
       toBytes_loop s heads out (pos + n + m) (strpos + n))))"

definition toBytes :: "encbuf \<Rightarrow> ('e, bytes) outcome" where
  "toBytes w = toBytes_loop (str w) (lheads w) (replicate (encbuf_size w) 0) 0 0"

text \<open>
  \<open>toWriter\<close> for a writer given by its \<open>Write\<close> method: the new state of the writer, the number of
  bytes it took and its error.
\<close>

type_synonym 's Write = "'s \<Rightarrow> bytes \<Rightarrow> 's \<times> nat \<times> rlp_error option"

fun toWriter_loop :: "'s Write \<Rightarrow> bytes \<Rightarrow> listhead list \<Rightarrow> nat \<Rightarrow> 's \<Rightarrow> 's \<times> (rlp_error, unit) outcome" where
  "toWriter_loop wr s [] strpos out =
     (if strpos < length s then
        case wr out (drop strpos s) of
          (out, _, None) \<Rightarrow> (out, Ok ())
        | (out, _, Some err) \<Rightarrow> (out, Err err)
      else (out, Ok ()))"
| "toWriter_loop wr s (head # heads) strpos out =
     (let before =
        (if offset head > strpos then
           case (slice s strpos (offset head) :: (rlp_error, bytes) outcome) of
             Ok p \<Rightarrow> (case wr out p of
                 (out, n, None) \<Rightarrow> (out, Ok (strpos + n))
               | (out, n, Some err) \<Rightarrow> (out, Err err))
           | _ \<Rightarrow> (out, Panic)
         else (out, Ok strpos))
      in case before of
           (out, Ok strpos) \<Rightarrow>
             (case wr out (listhead_encode head) of
                (out, _, None) \<Rightarrow> toWriter_loop wr s heads strpos out
              | (out, _, Some err) \<Rightarrow> (out, Err err))
         | (out, Err err) \<Rightarrow> (out, Err err)
         | (out, Panic) \<Rightarrow> (out, Panic))"

definition toWriter :: "'s Write \<Rightarrow> encbuf \<Rightarrow> 's \<Rightarrow> 's \<times> (rlp_error, unit) outcome" where
  "toWriter wr w out = toWriter_loop wr (str w) (lheads w) 0 out"

section \<open>The incremental reader\<close>

text \<open>\<open>rbuf\<close> and \<open>piece\<close> are \<open>None\<close> where the source has nil.\<close>

record encReader =
  rbuf :: "encbuf option"
  lhpos :: nat
  rstrpos :: nat
  piece :: "bytes option"

definition encReader_next :: "encReader \<Rightarrow> (rlp_error, bytes option \<times> encReader) outcome" where
  "encReader_next r =
    (case rbuf r of
       None \<Rightarrow> Ok (None, r)
     | Some buf \<Rightarrow>
         (case piece r of
            Some p \<Rightarrow> Ok (Some p, r)
          | None \<Rightarrow>
              if lhpos r < length (lheads buf) then
                let head = lheads buf ! lhpos r
                in if offset head > rstrpos r then
                     obind (slice (str buf) (rstrpos r) (offset head)) (\<lambda>p.
                       Ok (Some p, r\<lparr>rstrpos := offset head\<rparr>))
                   else Ok (Some (listhead_encode head), r\<lparr>lhpos := lhpos r + 1\<rparr>)
              else if rstrpos r < length (str buf) then
                Ok (Some (drop (rstrpos r) (str buf)), r\<lparr>rstrpos := length (str buf)\<rparr>)
              else Ok (None, r)))"

text \<open>How many more pieces there can be.\<close>

definition encReader_left :: "encReader \<Rightarrow> nat" where
  "encReader_left r =
    (case rbuf r of
       None \<Rightarrow> 0
     | Some buf \<Rightarrow> (if piece r = None then 0 else 1) + (length (lheads buf) - lhpos r)
         + (length (str buf) - rstrpos r))"

lemma encReader_next_left:
  "encReader_next r = Ok (Some p, r') \<Longrightarrow> encReader_left (r'\<lparr>piece := None\<rparr>) < encReader_left r"
  by (auto simp: encReader_next_def encReader_left_def Let_def slice_Ok_iff obind_Ok_iff
      split: option.splits if_splits)

text \<open>\<open>Read(b)\<close>, by the length of \<open>b\<close>: the bytes stored in it, whether \<open>io.EOF\<close> is returned, and
  the new state.\<close>

function encReader_Read_loop ::
    "nat \<Rightarrow> bytes \<Rightarrow> encReader \<Rightarrow> (rlp_error, bytes \<times> bool \<times> encReader) outcome" where
  "encReader_Read_loop blen acc r =
    obind (encReader_next r) (\<lambda>(pc, r').
      case pc of
        None \<Rightarrow> Ok (acc, True, r'\<lparr>piece := None, rbuf := None\<rparr>)
      | Some p \<Rightarrow>
          let nn = min (blen - length acc) (length p)
          in if nn < length p
             then Ok (acc @ take nn p, False, r'\<lparr>piece := Some (drop nn p)\<rparr>)
             else encReader_Read_loop blen (acc @ p) (r'\<lparr>piece := None\<rparr>))"
  by pat_completeness auto
termination
  by (relation "measure (\<lambda>(blen, acc, r). encReader_left r)") (auto dest: encReader_next_left)

declare encReader_Read_loop.simps [simp del]

definition encReader_Read :: "nat \<Rightarrow> encReader \<Rightarrow> (rlp_error, bytes \<times> bool \<times> encReader) outcome" where
  "encReader_Read blen r = encReader_Read_loop blen [] r"

section \<open>Writers\<close>

definition writeRawValue :: "bytes \<Rightarrow> encbuf \<Rightarrow> encbuf" where
  "writeRawValue val w = encbuf_write val w"

definition writeUint :: "u64 \<Rightarrow> encbuf \<Rightarrow> encbuf" where
  "writeUint i w =
    (if i = 0 then encbuf_write [0x80] w
     else if i < 128 then encbuf_write [ucast i] w
     else let s = putint i in encbuf_write ((0x80 + word_of_nat (length s)) # s) w)"

definition writeBool :: "bool \<Rightarrow> encbuf \<Rightarrow> encbuf" where
  "writeBool val w = encbuf_write [if val then 0x01 else 0x80] w"

definition writeBigInt :: "int \<Rightarrow> encbuf \<Rightarrow> (rlp_error, encbuf) outcome" where
  "writeBigInt i w =
    (if i < 0 then Err ErrNegativeBigInt
     else if i = 0 then Ok (encbuf_write [0x80] w)
     else Ok (encodeString (big_Bytes (nat i)) w))"

definition writeString :: "bytes \<Rightarrow> encbuf \<Rightarrow> encbuf" where
  "writeString s w =
    (if length s = 1 \<and> s ! 0 \<le> 0x7f then encbuf_write [s ! 0] w
     else encbuf_write s (encodeStringHeader (length s) w))"

text \<open>
  \<open>cachedTypeInfo\<close> builds the writers of a type before any value is looked at, and fails for a type
  that has none, also inside a slice without elements.
\<close>

fun genTypeInfo :: "rtype \<Rightarrow> (rlp_error, unit) outcome"
  and genFieldInfos :: "rfield list \<Rightarrow> (rlp_error, unit) outcome" where
  "genTypeInfo typ =
    (case typ of
       TOther \<Rightarrow> Err ErrNotSerializable
     | TSlice t \<Rightarrow> if isByte t then Ok () else genTypeInfo t
     | TArray n t \<Rightarrow> if isByte t then Ok () else genTypeInfo t
     | TPtr t \<Rightarrow> genTypeInfo t
     | TStruct fs \<Rightarrow> genFieldInfos fs
     | _ \<Rightarrow> Ok ())"
| "genFieldInfos [] = Ok ()"
| "genFieldInfos (Field nm exported tag t # fs) =
     (if exported then
        obind (parseStructTag (Field nm exported tag t) (fs = [])) (\<lambda>ts.
          if ignored ts then genFieldInfos fs
          else obind (genTypeInfo t) (\<lambda>_. genFieldInfos fs))
      else genFieldInfos fs)"

declare genTypeInfo.simps [simp del]

text \<open>\<open>reflect.Zero\<close>: the zero value of a type.\<close>

fun zero_value :: "rtype \<Rightarrow> rval"
  and zero_fields :: "rfield list \<Rightarrow> rval list" where
  "zero_value (TUint _) = VUint 0"
| "zero_value TBool = VBool False"
| "zero_value TString = VBytes []"
| "zero_value TRaw = VBytes []"
| "zero_value (TSlice t) = (if isByte t then VBytes [] else VList [])"
| "zero_value TBig = VBig 0"
| "zero_value (TArray n t) =
     (if isByte t then VBytes (replicate n 0) else VList (replicate n (zero_value t)))"
| "zero_value (TStruct fs) = VStruct (zero_fields fs)"
| "zero_value _ = VNil"
| "zero_fields [] = []"
| "zero_fields (Field nm exported tag t # fs) = zero_value t # zero_fields fs"

fun vsize :: "rval \<Rightarrow> nat" where
  "vsize (VPtr v) = Suc (vsize v)"
| "vsize (VIface t v) = Suc (vsize v)"
| "vsize (VEnc v) = Suc (vsize v)"
| "vsize (VList vs) = sum_list (map (\<lambda>v. Suc (vsize v)) vs)"
| "vsize (VStruct vs) = Suc (sum_list (map (\<lambda>v. Suc (vsize v)) vs))"
| "vsize _ = 0"

lemma vsize_zero_value [simp]: "\<not> isStructOrArray t \<Longrightarrow> vsize (zero_value t) = 0"
  by (cases t) (simp_all add: isStructOrArray_def)

lemma vsize_nth: "i < length vs \<Longrightarrow> vsize (vs ! i) < sum_list (map (\<lambda>v. Suc (vsize v)) vs)"
  by (rule less_le_trans [of _ "Suc (vsize (vs ! i))"])
    (auto intro: member_le_sum_list)

text \<open>
  \<open>encode\<close> and the writers that \<open>makeWriter\<close> chooses by type. \<open>addr\<close> is the addressability of the
  value: an element of a pointer or slice is addressable, a field or an array element is if the whole
  is, the content of an interface is not. A value that does not have its type is a panic of package
  \<open>reflect\<close>.
\<close>

function (sequential) encbuf_encode :: "rtype \<Rightarrow> rval \<Rightarrow> encbuf \<Rightarrow> (rlp_error, encbuf) outcome"
  and makeWriter :: "rtype \<Rightarrow> tags \<Rightarrow> bool \<Rightarrow> rval \<Rightarrow> encbuf \<Rightarrow> (rlp_error, encbuf) outcome"
  and write_elems :: "rtype \<Rightarrow> bool \<Rightarrow> rval list \<Rightarrow> encbuf \<Rightarrow> (rlp_error, encbuf) outcome"
  and write_fields :: "(nat \<times> tags \<times> rtype) list \<Rightarrow> bool \<Rightarrow> rval list \<Rightarrow> encbuf \<Rightarrow> (rlp_error, encbuf) outcome"
where
  "encbuf_encode typ val w =
     obind (genTypeInfo typ) (\<lambda>_. makeWriter typ no_tags False val w)"
| "makeWriter typ ts addr val w =
    (case typ of
       TRaw \<Rightarrow> (case val of VBytes b \<Rightarrow> Ok (writeRawValue b w) | _ \<Rightarrow> Panic)
     | TEnc ptr t \<Rightarrow>
         if ptr \<and> \<not> addr then Err ErrUnaddressable
         else (case val of VEnc v \<Rightarrow> encbuf_encode t v w | _ \<Rightarrow> Panic)
     | TIface methods \<Rightarrow>
         (case val of
            VNil \<Rightarrow> Ok (encbuf_write [0xC0] w)
          | VIface t v \<Rightarrow> encbuf_encode t v w
          | _ \<Rightarrow> Panic)
     | TBigPtr \<Rightarrow>
         (case val of
            VNil \<Rightarrow> Ok (encbuf_write [0x80] w)
          | VBig i \<Rightarrow> writeBigInt i w
          | _ \<Rightarrow> Panic)
     | TBig \<Rightarrow> (case val of VBig i \<Rightarrow> writeBigInt i w | _ \<Rightarrow> Panic)
     | TUint _ \<Rightarrow> (case val of VUint i \<Rightarrow> Ok (writeUint i w) | _ \<Rightarrow> Panic)
     | TBool \<Rightarrow> (case val of VBool b \<Rightarrow> Ok (writeBool b w) | _ \<Rightarrow> Panic)
     | TString \<Rightarrow> (case val of VBytes b \<Rightarrow> Ok (writeString b w) | _ \<Rightarrow> Panic)
     | TSlice t \<Rightarrow>
         if isByte t then (case val of VBytes b \<Rightarrow> Ok (encodeString b w) | _ \<Rightarrow> Panic)
         else (case val of
            VList vs \<Rightarrow>
              if tail ts then write_elems t True vs w
              else (case encbuf_list w of
                 (lh, w) \<Rightarrow> obind (write_elems t True vs w) (\<lambda>w. Ok (encbuf_listEnd lh w)))
          | _ \<Rightarrow> Panic)
     | TArray n t \<Rightarrow>
         if isByte t then (case val of VBytes b \<Rightarrow> Ok (encodeString b w) | _ \<Rightarrow> Panic)
         else (case val of
            VList vs \<Rightarrow>
              if tail ts then write_elems t addr vs w
              else (case encbuf_list w of
                 (lh, w) \<Rightarrow> obind (write_elems t addr vs w) (\<lambda>w. Ok (encbuf_listEnd lh w)))
          | _ \<Rightarrow> Panic)
     | TStruct fs \<Rightarrow>
         obind (structFields fs) (\<lambda>flds.
           case val of
             VStruct vs \<Rightarrow>
               (case encbuf_list w of
                  (lh, w) \<Rightarrow> obind (write_fields flds addr vs w) (\<lambda>w. Ok (encbuf_listEnd lh w)))
           | _ \<Rightarrow> Panic)
     | TPtr t \<Rightarrow>
         (case val of
            VNil \<Rightarrow>
              if (case t of TArray _ e \<Rightarrow> isByte e | _ \<Rightarrow> False) then Ok (encbuf_write [0x80] w)
              else if isStructOrArray t then
                (case encbuf_list w of (lh, w) \<Rightarrow> Ok (encbuf_listEnd lh w))
              else makeWriter t no_tags False (zero_value t) w
          | VPtr v \<Rightarrow> makeWriter t no_tags True v w
          | _ \<Rightarrow> Panic)
     | TOther \<Rightarrow> Err ErrNotSerializable)"
| "write_elems t addr [] w = Ok w"
| "write_elems t addr (v # vs) w =
     obind (makeWriter t no_tags addr v w) (\<lambda>w. write_elems t addr vs w)"
| "write_fields [] addr vs w = Ok w"
| "write_fields ((i, ts, t) # flds) addr vs w =
     (if i < length vs then
        obind (makeWriter t ts addr (vs ! i) w) (\<lambda>w. write_fields flds addr vs w)
      else Panic)"
  by pat_completeness auto
termination
  by (relation "inv_image (less_than <*lex*> less_than <*lex*> less_than) (case_sum
     (case_sum (\<lambda>(t, v, w). (vsize v, Suc (size t), 1)) (\<lambda>(t, ts, a, v, w). (vsize v, Suc (size t), 0)))
     (case_sum (\<lambda>(t, a, vs, w). (sum_list (map (\<lambda>v. Suc (vsize v)) vs), 0, 0))
               (\<lambda>(fs, a, vs, w). (sum_list (map (\<lambda>v. Suc (vsize v)) vs), length fs, 0))))")
    (auto dest: vsize_nth)

declare encbuf_encode.simps [simp del] makeWriter.simps [simp del]

definition EncodeToBytes :: "rtype \<Rightarrow> rval \<Rightarrow> (rlp_error, bytes) outcome" where
  "EncodeToBytes typ val = obind (encbuf_encode typ val encbuf_reset) toBytes"

definition Encode :: "'s Write \<Rightarrow> 's \<Rightarrow> rtype \<Rightarrow> rval \<Rightarrow> 's \<times> (rlp_error, unit) outcome" where
  "Encode wr out typ val =
    (case encbuf_encode typ val encbuf_reset of
       Ok eb \<Rightarrow> toWriter wr eb out
     | Err e \<Rightarrow> (out, Err e)
     | Panic \<Rightarrow> (out, Panic))"

definition EncodeToReader :: "rtype \<Rightarrow> rval \<Rightarrow> (rlp_error, nat \<times> encReader) outcome" where
  "EncodeToReader typ val =
    obind (encbuf_encode typ val encbuf_reset) (\<lambda>eb.
      Ok (encbuf_size eb, \<lparr>rbuf = Some eb, lhpos = 0, rstrpos = 0, piece = None\<rparr>))"

end
