(* ===== verification/RlpDecode.thy ===== *)
theory RlpDecode
  imports RlpEncode
begin

text \<open>
  The RLP decoder, \<open>rlp/decode.go\<close>: the \<open>Stream\<close> with its one value of lookahead and its stack of open
  lists, and the decoders chosen by type. An operation returns its result and the stream as it is
  afterwards, also when it fails, because the end of a list is reported as the error \<open>EOL\<close> and the
  decoding goes on. Values are decoded into fresh variables, as every call in the program does.
\<close>

section \<open>The stream\<close>

text \<open>
  \<open>inp\<close> is what the underlying reader has left. \<open>skind = None\<close> is the source's \<open>kind = -1\<close>. The
  innermost open list is the first element of \<open>stack\<close>, a pair of its position and size. The buffer
  \<open>uintbuf\<close> is overwritten before each use.
\<close>

record Stream =
  inp :: bytes
  remaining :: u64
  limited :: bool
  skind :: "Kind option"
  ssize :: u64
  byteval :: byte
  kinderr :: "rlp_error option"
  stack :: "(u64 \<times> u64) list"

type_synonym 'a reading = "Stream \<Rightarrow> (rlp_error, 'a) outcome \<times> Stream"

definition sbind :: "'a reading \<Rightarrow> ('a \<Rightarrow> 'b reading) \<Rightarrow> 'b reading" where
  "sbind m f s =
    (case m s of
       (Ok a, s) \<Rightarrow> f a s
     | (Err e, s) \<Rightarrow> (Err e, s)
     | (Panic, s) \<Rightarrow> (Panic, s))"

definition sreturn :: "'a \<Rightarrow> 'a reading" where
  "sreturn a s = (Ok a, s)"

definition sfail :: "rlp_error \<Rightarrow> 'a reading" where
  "sfail e s = (Err e, s)"

text \<open>\<open>Reset\<close> for a reader over a byte slice, where an \<open>inputLimit\<close> of zero means the length of the
  slice, and for a reader of unknown length.\<close>

definition Stream_Reset :: "bytes \<Rightarrow> u64 \<Rightarrow> bool \<Rightarrow> Stream" where
  "Stream_Reset r inputLimit bytesReader =
    \<lparr>inp = r,
     remaining = (if inputLimit > 0 then inputLimit else if bytesReader then word_of_nat (length r) else 0),
     limited = (inputLimit > 0 \<or> bytesReader),
     skind = None, ssize = 0, byteval = 0, kinderr = None, stack = []\<rparr>"

definition NewStream :: "bytes \<Rightarrow> u64 \<Rightarrow> bool \<Rightarrow> Stream" where
  "NewStream r inputLimit bytesReader = Stream_Reset r inputLimit bytesReader"

definition NewListStream :: "bytes \<Rightarrow> u64 \<Rightarrow> bool \<Rightarrow> Stream" where
  "NewListStream r len bytesReader =
    (Stream_Reset r len bytesReader)\<lparr>skind := Some KList, ssize := len\<rparr>"

definition willRead_limit :: "u64 \<Rightarrow> unit reading" where
  "willRead_limit n s =
    (if limited s then
       if n > remaining s then (Err ErrValueTooLarge, s)
       else (Ok (), s\<lparr>remaining := remaining s - n\<rparr>)
     else (Ok (), s))"

definition willRead :: "u64 \<Rightarrow> unit reading" where
  "willRead n s =
    (let s = s\<lparr>skind := None\<rparr>
     in case stack s of
          [] \<Rightarrow> willRead_limit n s
        | (pos, sz) # st \<Rightarrow>
            if n > sz - pos then (Err ErrElemTooLarge, s)
            else willRead_limit n (s\<lparr>stack := (pos + n, sz) # st\<rparr>))"

definition readByte :: "byte reading" where
  "readByte =
    sbind (willRead 1) (\<lambda>_ s.
      case inp s of
        [] \<Rightarrow> (Err ErrUnexpectedEOF, s)
      | b # r \<Rightarrow> (Ok b, s\<lparr>inp := r\<rparr>))"

text \<open>\<open>readFull\<close> of a slice of \<open>n\<close> bytes; when the reader ends early, its bytes are gone.\<close>

definition readFull :: "u64 \<Rightarrow> bytes reading" where
  "readFull n =
    sbind (willRead n) (\<lambda>_ s.
      if unat n \<le> length (inp s)
      then (Ok (take (unat n) (inp s)), s\<lparr>inp := drop (unat n) (inp s)\<rparr>)
      else (Err ErrUnexpectedEOF, s\<lparr>inp := []\<rparr>))"

definition readUint :: "byte \<Rightarrow> u64 reading" where
  "readUint sz =
    (if sz = 0 then (\<lambda>s. (Ok 0, s\<lparr>skind := None\<rparr>))
     else if sz = 1 then sbind readByte (\<lambda>b. sreturn (ucast b))
     else sbind (readFull (ucast sz)) (\<lambda>b.
       let start = 8 - unat sz;
           uintbuf = replicate start 0 @ b
       in if uintbuf ! start = 0 then sfail ErrCanonSize else sreturn (be_word uintbuf)))"

text \<open>\<open>readKind\<close> returns a kind and a size next to its error, and \<open>Kind\<close> stores them. (Reading bytes does
  not panic, so the branches for \<open>Panic\<close> are not taken.)\<close>

definition readKind_long :: "Kind \<Rightarrow> byte \<Rightarrow> Stream \<Rightarrow> (Kind \<times> u64 \<times> rlp_error option) \<times> Stream" where
  "readKind_long k sizesize s =
    (case readUint sizesize s of
       (Ok sz, s) \<Rightarrow> ((k, sz, if sz < 56 then Some ErrCanonSize else None), s)
     | (Err e, s) \<Rightarrow> ((k, 0, Some e), s)
     | (Panic, s) \<Rightarrow> ((k, 0, Some ErrUnexpectedEOF), s))"

definition Stream_readKind :: "Stream \<Rightarrow> (Kind \<times> u64 \<times> rlp_error option) \<times> Stream" where
  "Stream_readKind s =
    (case readByte s of
       (Ok b, s) \<Rightarrow>
         if b < 0x80 then ((KByte, 0, None), s\<lparr>byteval := b\<rparr>)
         else if b < 0xB8 then ((KString, ucast (b - 0x80), None), s\<lparr>byteval := 0\<rparr>)
         else if b < 0xC0 then readKind_long KString (b - 0xB7) (s\<lparr>byteval := 0\<rparr>)
         else if b < 0xF8 then ((KList, ucast (b - 0xC0), None), s\<lparr>byteval := 0\<rparr>)
         else readKind_long KList (b - 0xF7) (s\<lparr>byteval := 0\<rparr>)
     | (Err e, s) \<Rightarrow>
         ((KByte, 0,
           Some (if stack s = [] \<and> (e = ErrUnexpectedEOF \<or> e = ErrValueTooLarge) then ErrEOF else e)), s)
     | (Panic, s) \<Rightarrow> ((KByte, 0, Some ErrUnexpectedEOF), s))"

text \<open>The result of \<open>Kind\<close> from the cached fields; the error may be an old one.\<close>

definition cached_Kind :: "(Kind \<times> u64) reading" where
  "cached_Kind s =
    (case kinderr s of
       Some e \<Rightarrow> (Err e, s)
     | None \<Rightarrow> (case skind s of Some k \<Rightarrow> (Ok (k, ssize s), s) | None \<Rightarrow> (Panic, s)))"

definition Stream_Kind :: "(Kind \<times> u64) reading" where
  "Stream_Kind s =
    (if skind s = None then
       let s = s\<lparr>kinderr := None\<rparr>
       in case stack s of
            [] \<Rightarrow>
              (case Stream_readKind s of ((k, sz, err), s) \<Rightarrow>
                 cached_Kind (s\<lparr>skind := Some k, ssize := sz,
                   kinderr := (if err = None \<and> limited s \<and> sz > remaining s
                     then Some ErrValueTooLarge else err)\<rparr>))
          | (pos, size0) # _ \<Rightarrow>
              if pos = size0 then (Err EOL, s)
              else (case Stream_readKind s of ((k, sz, err), s) \<Rightarrow>
                cached_Kind (s\<lparr>skind := Some k, ssize := sz,
                  kinderr := (if err = None \<and> sz > snd (hd (stack s)) - fst (hd (stack s))
                    then Some ErrElemTooLarge else err)\<rparr>))
     else cached_Kind s)"

section \<open>Reading values\<close>

definition rearm :: "Stream \<Rightarrow> Stream" where
  "rearm s = s\<lparr>skind := None\<rparr>"

definition Stream_Bytes :: "bytes reading" where
  "Stream_Bytes =
    sbind Stream_Kind (\<lambda>(k, sz).
      case k of
        KByte \<Rightarrow> (\<lambda>s. (Ok [byteval s], rearm s))
      | KString \<Rightarrow>
          sbind (readFull sz) (\<lambda>b.
            if sz = 1 \<and> b ! 0 < 128 then sfail ErrCanonSize else sreturn b)
      | KList \<Rightarrow> sfail ErrExpectedString)"

definition Stream_Raw :: "bytes reading" where
  "Stream_Raw =
    sbind Stream_Kind (\<lambda>(k, sz).
      if k = KByte then (\<lambda>s. (Ok [byteval s], rearm s))
      else
        sbind (readFull sz) (\<lambda>content.
          if k = KString then sreturn (puthead 0x80 0xB7 sz @ content)
          else sreturn (puthead 0xC0 0xF7 sz @ content)))"

definition Stream_uint :: "nat \<Rightarrow> u64 reading" where
  "Stream_uint maxbits =
    sbind Stream_Kind (\<lambda>(k, sz).
      case k of
        KByte \<Rightarrow> (\<lambda>s. if byteval s = 0 then (Err ErrCanonInt, s) else (Ok (ucast (byteval s)), rearm s))
      | KString \<Rightarrow>
          if sz > word_of_nat (maxbits div 8) then sfail ErrUintOverflow
          else (\<lambda>s.
            case readUint (ucast sz) s of
              (Ok v, s) \<Rightarrow> if sz > 0 \<and> v < 128 then (Err ErrCanonSize, s) else (Ok v, s)
            | (Err e, s) \<Rightarrow> (Err (if e = ErrCanonSize then ErrCanonInt else e), s)
            | (Panic, s) \<Rightarrow> (Panic, s))
      | KList \<Rightarrow> sfail ErrExpectedString)"

definition Stream_Uint :: "u64 reading" where
  "Stream_Uint = Stream_uint 64"

definition Stream_Bool :: "bool reading" where
  "Stream_Bool =
    sbind (Stream_uint 8) (\<lambda>num.
      if num = 0 then sreturn False else if num = 1 then sreturn True else sfail ErrBool)"

definition Stream_List :: "u64 reading" where
  "Stream_List =
    sbind Stream_Kind (\<lambda>(k, sz) s.
      if k \<noteq> KList then (Err ErrExpectedList, s)
      else (Ok sz, s\<lparr>stack := (0, sz) # stack s, skind := None, ssize := 0\<rparr>))"

definition Stream_ListEnd :: "unit reading" where
  "Stream_ListEnd s =
    (case stack s of
       [] \<Rightarrow> (Err ErrNotInList, s)
     | (pos, sz) # st \<Rightarrow>
         if pos \<noteq> sz then (Err ErrNotAtEOL, s)
         else (Ok (),
           s\<lparr>stack := (case st of [] \<Rightarrow> [] | (pos', sz') # st' \<Rightarrow> (pos' + sz, sz') # st'),
             skind := None, ssize := 0\<rparr>))"

section \<open>Errors with context\<close>

definition wrapStreamError :: "rlp_error \<Rightarrow> rlp_error" where
  "wrapStreamError err =
    (case err of
       ErrCanonInt \<Rightarrow> DecodeError ''non-canonical integer (leading zero bytes)'' []
     | ErrCanonSize \<Rightarrow> DecodeError ''non-canonical size information'' []
     | ErrExpectedList \<Rightarrow> DecodeError ''expected input list'' []
     | ErrExpectedString \<Rightarrow> DecodeError ''expected input string or byte'' []
     | ErrUintOverflow \<Rightarrow> DecodeError ''input string too long'' []
     | ErrNotAtEOL \<Rightarrow> DecodeError ''input list has too many elements'' []
     | _ \<Rightarrow> err)"

definition addErrorContext :: "string \<Rightarrow> rlp_error \<Rightarrow> rlp_error" where
  "addErrorContext ctx err =
    (case err of DecodeError msg ctxs \<Rightarrow> DecodeError msg (ctxs @ [ctx]) | _ \<Rightarrow> err)"

text \<open>An operation with its error replaced.\<close>

definition swrap :: "(rlp_error \<Rightarrow> rlp_error) \<Rightarrow> 'a reading \<Rightarrow> 'a reading" where
  "swrap g m s = (case m s of (r, s) \<Rightarrow> (omap_err g r, s))"

section \<open>Decoders by type\<close>

definition decodeUint :: "nat \<Rightarrow> rval reading" where
  "decodeUint bits = sbind (swrap wrapStreamError (Stream_uint bits)) (\<lambda>num. sreturn (VUint num))"

definition decodeBool :: "rval reading" where
  "decodeBool = sbind (swrap wrapStreamError Stream_Bool) (\<lambda>b. sreturn (VBool b))"

definition decodeString :: "rval reading" where
  "decodeString = sbind (swrap wrapStreamError Stream_Bytes) (\<lambda>b. sreturn (VBytes b))"

definition decodeByteSlice :: "rval reading" where
  "decodeByteSlice = sbind (swrap wrapStreamError Stream_Bytes) (\<lambda>b. sreturn (VBytes b))"

definition decodeRawValue :: "rval reading" where
  "decodeRawValue = sbind Stream_Raw (\<lambda>r. sreturn (VBytes r))"

definition decodeBigInt :: "rval reading" where
  "decodeBigInt =
    sbind (swrap wrapStreamError Stream_Bytes) (\<lambda>b.
      if length b > 0 \<and> b ! 0 = 0 then sfail (wrapStreamError ErrCanonInt)
      else sreturn (VBig (int (nat_of_be b))))"

definition decodeByteArray :: "nat \<Rightarrow> rval reading" where
  "decodeByteArray vlen =
    sbind Stream_Kind (\<lambda>(k, sz).
      case k of
        KByte \<Rightarrow>
          if vlen = 0 then sfail (DecodeError ''input string too long'' [])
          else if vlen > 1 then sfail (DecodeError ''input string too short'' [])
          else (\<lambda>s. case Stream_Uint s of
              (Ok bv, s) \<Rightarrow> (Ok (VBytes [ucast bv]), s)
            | (_, s) \<Rightarrow> (Ok (VBytes [0]), s))
      | KString \<Rightarrow>
          if word_of_nat vlen < sz then sfail (DecodeError ''input string too long'' [])
          else if word_of_nat vlen > sz then sfail (DecodeError ''input string too short'' [])
          else sbind (readFull (word_of_nat vlen)) (\<lambda>b.
            if sz = 1 \<and> b ! 0 < 128 then sfail (wrapStreamError ErrCanonSize)
            else sreturn (VBytes b))
      | KList \<Rightarrow> sfail (wrapStreamError ErrExpectedString))"

text \<open>\<open>fmt.Sprint("[", i, "]")\<close>.\<close>

fun show_nat :: "nat \<Rightarrow> string" where
  "show_nat n = (if n < 10 then [] else show_nat (n div 10)) @ [char_of (48 + n mod 10)]"

declare show_nat.simps [simp del]

definition index_ctx :: "nat \<Rightarrow> string" where
  "index_ctx i = ''['' @ show_nat i @ '']''"

text \<open>
  The endless loop of \<open>decodeSliceElems\<close>, with a bound on its rounds. Every round that consumes input
  is paid for by the length of the input, one more by a value whose header was read before, and the last
  one finds the end of the list. A loop with more rounds never ends, which is the result \<open>Diverges\<close>
  (\<open>decodeSliceElems_enough\<close> in \<open>RlpTermination\<close>).
\<close>

primrec decodeSliceElems_loop :: "nat \<Rightarrow> rval reading \<Rightarrow> nat \<Rightarrow> rval list reading" where
  "decodeSliceElems_loop 0 elemdec i s = (Err Diverges, s)"
| "decodeSliceElems_loop (Suc n) elemdec i s =
     (case elemdec s of
        (Ok v, s) \<Rightarrow> sbind (decodeSliceElems_loop n elemdec (i + 1)) (\<lambda>vs. sreturn (v # vs)) s
      | (Err e, s) \<Rightarrow> if e = EOL then (Ok [], s) else (Err (addErrorContext (index_ctx i) e), s)
      | (Panic, s) \<Rightarrow> (Panic, s))"

definition decodeSliceElems :: "rval reading \<Rightarrow> rval list reading" where
  "decodeSliceElems elemdec s = decodeSliceElems_loop (Suc (Suc (length (inp s)))) elemdec 0 s"

definition decodeListSlice :: "rval reading \<Rightarrow> rval list reading" where
  "decodeListSlice elemdec =
    sbind (swrap wrapStreamError Stream_List) (\<lambda>sz.
      if sz = 0 then sbind Stream_ListEnd (\<lambda>_. sreturn [])
      else sbind (decodeSliceElems elemdec) (\<lambda>vs. sbind Stream_ListEnd (\<lambda>_. sreturn vs)))"

text \<open>The loop of \<open>decodeListArray\<close>: \<open>k\<close> elements are missing; the elements found.\<close>

primrec decodeListArray_loop :: "nat \<Rightarrow> rval reading \<Rightarrow> nat \<Rightarrow> rval list reading" where
  "decodeListArray_loop 0 elemdec i s = (Ok [], s)"
| "decodeListArray_loop (Suc k) elemdec i s =
     (case elemdec s of
        (Ok v, s) \<Rightarrow> sbind (decodeListArray_loop k elemdec (i + 1)) (\<lambda>vs. sreturn (v # vs)) s
      | (Err e, s) \<Rightarrow> if e = EOL then (Ok [], s) else (Err (addErrorContext (index_ctx i) e), s)
      | (Panic, s) \<Rightarrow> (Panic, s))"

definition decodeListArray :: "nat \<Rightarrow> rval reading \<Rightarrow> rval list reading" where
  "decodeListArray vlen elemdec =
    sbind (swrap wrapStreamError Stream_List) (\<lambda>_.
    sbind (decodeListArray_loop vlen elemdec 0) (\<lambda>vs.
      if length vs < vlen then sfail (DecodeError ''input list has too few elements'' [])
      else sbind (swrap wrapStreamError Stream_ListEnd) (\<lambda>_. sreturn vs)))"

text \<open>\<open>decodeInterface\<close> for the empty interface, with a bound on the nesting: every list that is
  entered has consumed a byte of the input.\<close>

primrec decodeInterface_depth :: "nat \<Rightarrow> rval reading" where
  "decodeInterface_depth 0 s = (Err Diverges, s)"
| "decodeInterface_depth (Suc n) s =
     sbind Stream_Kind (\<lambda>(k, sz).
       if k = KList then
         sbind (decodeListSlice (decodeInterface_depth n)) (\<lambda>vs.
           sreturn (VIface (TSlice (TIface False)) (VList vs)))
       else sbind Stream_Bytes (\<lambda>b. sreturn (VIface (TSlice (TUint 8)) (VBytes b)))) s"

definition decodeInterface :: "bool \<Rightarrow> rval reading" where
  "decodeInterface methods s =
    (if methods then (Err ErrNotSerializable, s)
     else decodeInterface_depth (Suc (Suc (length (inp s)))) s)"

definition makePtrDecoder :: "rval reading \<Rightarrow> rval reading" where
  "makePtrDecoder dec = sbind dec (\<lambda>v. sreturn (VPtr v))"

definition makeOptionalPtrDecoder :: "rval reading \<Rightarrow> rval reading" where
  "makeOptionalPtrDecoder dec s =
    (case Stream_Kind s of
       (Err e, s) \<Rightarrow> (Err e, rearm s)
     | (Panic, s) \<Rightarrow> (Panic, s)
     | (Ok (k, sz), s) \<Rightarrow>
         if sz = 0 \<and> k \<noteq> KByte then (Ok VNil, rearm s) else makePtrDecoder dec s)"

text \<open>\<open>Decode\<close> adds the name of the target type (left out here) to an error that has a context. A type
  with a \<open>DecodeRLP\<close> method looks at the kind first and then passes its inner value on to \<open>Decode\<close>.\<close>

definition target_ctx :: "rlp_error \<Rightarrow> rlp_error" where
  "target_ctx err =
    (case err of
       DecodeError msg ctxs \<Rightarrow> if ctxs = [] then err else DecodeError msg (ctxs @ [''()''])
     | _ \<Rightarrow> err)"

definition decodeDecoder :: "(rlp_error, unit) outcome \<Rightarrow> rval reading \<Rightarrow> rval reading" where
  "decodeDecoder info dec s =
    (case Stream_Kind s of (_, s) \<Rightarrow>
      (case info of
         Ok _ \<Rightarrow> sbind (swrap target_ctx dec) (\<lambda>v. sreturn (VEnc v)) s
       | Err e \<Rightarrow> (Err e, s)
       | Panic \<Rightarrow> (Panic, s)))"

lemma structFields_loop_size:
  "structFields_loop i fs = Ok flds \<Longrightarrow>
    sum_list (map (\<lambda>(i, ts, t). Suc (size t)) flds) \<le> size_list size fs"
proof (induction i fs arbitrary: flds rule: structFields_loop.induct)
  case (2 i f fs)
  then show ?case by (cases f) (fastforce simp: obind_Ok_iff split: if_splits)
qed simp

text \<open>A pointer to a type with a \<open>DecodeRLP\<close> method has the method itself, so that the tag \<open>nil\<close> has no effect on it.\<close>

definition implementsDecoder :: "rtype \<Rightarrow> bool" where
  "implementsDecoder typ \<longleftrightarrow> (case typ of TEnc _ _ \<Rightarrow> True | _ \<Rightarrow> False)"

function (sequential) decoder :: "rtype \<Rightarrow> tags \<Rightarrow> rval reading"
  and decode_fields :: "(nat \<times> tags \<times> rtype) list \<Rightarrow> string list \<Rightarrow> rval list \<Rightarrow> rval list reading" where
  "decoder typ ts =
    (case typ of
       TRaw \<Rightarrow> decodeRawValue
     | TEnc ptr t \<Rightarrow> decodeDecoder (genTypeInfo t) (decoder t no_tags)
     | TBigPtr \<Rightarrow> decodeBigInt
     | TBig \<Rightarrow> decodeBigInt
     | TUint bits \<Rightarrow> decodeUint bits
     | TBool \<Rightarrow> decodeBool
     | TString \<Rightarrow> decodeString
     | TSlice t \<Rightarrow>
         if isByte t then decodeByteSlice
         else if tail ts then
           sbind (decodeSliceElems (decoder t no_tags)) (\<lambda>vs. sreturn (VList vs))
         else sbind (decodeListSlice (decoder t no_tags)) (\<lambda>vs. sreturn (VList vs))
     | TArray n t \<Rightarrow>
         if isByte t then decodeByteArray n
         else sbind (decodeListArray n (decoder t no_tags)) (\<lambda>vs. sreturn (VList vs))
     | TStruct fs \<Rightarrow>
         (case structFields fs of
            Ok flds \<Rightarrow>
              sbind (swrap wrapStreamError Stream_List) (\<lambda>_.
              sbind (decode_fields flds (map fname fs) (zero_fields fs)) (\<lambda>vs.
              sbind (swrap wrapStreamError Stream_ListEnd) (\<lambda>_. sreturn (VStruct vs))))
          | Err e \<Rightarrow> sfail e
          | Panic \<Rightarrow> (\<lambda>s. (Panic, s)))
     | TPtr t \<Rightarrow>
         if nilOK ts \<and> \<not> implementsDecoder t then makeOptionalPtrDecoder (decoder t no_tags)
         else makePtrDecoder (decoder t no_tags)
     | TIface methods \<Rightarrow> decodeInterface methods
     | TOther \<Rightarrow> sfail ErrNotSerializable)"
| "decode_fields [] nms vs = sreturn vs"
| "decode_fields ((i, ts, t) # flds) nms vs = (\<lambda>s.
     case decoder t ts s of
       (Ok v, s) \<Rightarrow> decode_fields flds nms (vs[i := v]) s
     | (Err e, s) \<Rightarrow>
         (Err (if e = EOL then DecodeError ''too few elements'' []
               else addErrorContext (''.'' @ nms ! i) e), s)
     | (Panic, s) \<Rightarrow> (Panic, s))"
  by pat_completeness auto
termination
  by (relation "measure (case_sum (\<lambda>(t, ts). size t)
      (\<lambda>(flds, nms, vs). sum_list (map (\<lambda>(i, ts, t). Suc (size t)) flds)))")
    (auto simp: structFields_def dest!: structFields_loop_size)

declare decoder.simps [simp del]

definition Stream_Decode :: "rtype \<Rightarrow> rval reading" where
  "Stream_Decode typ s =
    (case genTypeInfo typ of
       Ok _ \<Rightarrow> swrap target_ctx (decoder typ no_tags) s
     | Err e \<Rightarrow> (Err e, s)
     | Panic \<Rightarrow> (Panic, s))"

text \<open>\<open>Decode\<close> from a \<open>bytes.Reader\<close>, and \<open>DecodeBytes\<close>.\<close>

definition Decode :: "bytes \<Rightarrow> rtype \<Rightarrow> (rlp_error, rval) outcome" where
  "Decode r typ = fst (Stream_Decode typ (NewStream r 0 True))"

definition DecodeBytes :: "bytes \<Rightarrow> rtype \<Rightarrow> (rlp_error, rval) outcome" where
  "DecodeBytes b typ =
    (case Stream_Decode typ (NewStream b (word_of_nat (length b)) True) of
       (Ok v, s) \<Rightarrow> if length (inp s) > 0 then Err ErrMoreThanOneValue else Ok v
     | (Err e, s) \<Rightarrow> Err e
     | (Panic, s) \<Rightarrow> Panic)"

end
