(* ===== verification/RlpEncodeSpec.thy ===== *)
theory RlpEncodeSpec
  imports RlpEncode
begin

text \<open>
  The specification of the RLP encoder (\<open>rlp_of\<close>), which puts every list header directly in front of
  the content it belongs to, and the proof that the buffer of \<open>rlp/encode.go\<close>, with its deferred list
  headers, produces the same bytes: through \<open>toBytes\<close>, \<open>toWriter\<close> and the incremental \<open>encReader\<close>.
\<close>

section \<open>The specification: headers in front of contents\<close>

definition rlp_str :: "bytes \<Rightarrow> bytes" where
  "rlp_str b = (if length b = 1 \<and> hd b < 128 then b else rlp_head 0x80 0xB7 (length b) @ b)"

definition rlp_list :: "bytes \<Rightarrow> bytes" where
  "rlp_list content = rlp_head 0xC0 0xF7 (length content) @ content"

abbreviation rlp_nat :: "nat \<Rightarrow> bytes" where
  "rlp_nat n \<equiv> rlp_str (big_Bytes n)"

definition rlp_big :: "int \<Rightarrow> (rlp_error, bytes) outcome" where
  "rlp_big i = (if i < 0 then Err ErrNegativeBigInt else Ok (rlp_nat (nat i)))"

definition obytes :: "rval \<Rightarrow> (bytes \<Rightarrow> bytes) \<Rightarrow> (rlp_error, bytes) outcome" where
  "obytes val f = (case val of VBytes b \<Rightarrow> Ok (f b) | _ \<Rightarrow> Panic)"

function (sequential) rlp_top :: "rtype \<Rightarrow> rval \<Rightarrow> (rlp_error, bytes) outcome"
  and rlp_of :: "rtype \<Rightarrow> tags \<Rightarrow> bool \<Rightarrow> rval \<Rightarrow> (rlp_error, bytes) outcome"
  and rlp_elems :: "rtype \<Rightarrow> bool \<Rightarrow> rval list \<Rightarrow> (rlp_error, bytes) outcome"
  and rlp_flds :: "(nat \<times> tags \<times> rtype) list \<Rightarrow> bool \<Rightarrow> rval list \<Rightarrow> (rlp_error, bytes) outcome"
where
  "rlp_top typ val = obind (genTypeInfo typ) (\<lambda>_. rlp_of typ no_tags False val)"
| "rlp_of typ ts addr val =
    (case typ of
       TRaw \<Rightarrow> obytes val id
     | TEnc ptr t \<Rightarrow>
         if ptr \<and> \<not> addr then Err ErrUnaddressable
         else (case val of VEnc v \<Rightarrow> rlp_top t v | _ \<Rightarrow> Panic)
     | TIface methods \<Rightarrow> (case val of VNil \<Rightarrow> Ok (rlp_list []) | VIface t v \<Rightarrow> rlp_top t v | _ \<Rightarrow> Panic)
     | TBigPtr \<Rightarrow> (case val of VNil \<Rightarrow> Ok (rlp_nat 0) | VBig i \<Rightarrow> rlp_big i | _ \<Rightarrow> Panic)
     | TBig \<Rightarrow> (case val of VBig i \<Rightarrow> rlp_big i | _ \<Rightarrow> Panic)
     | TUint _ \<Rightarrow> (case val of VUint i \<Rightarrow> Ok (rlp_nat (unat i)) | _ \<Rightarrow> Panic)
     | TBool \<Rightarrow> (case val of VBool b \<Rightarrow> Ok (rlp_nat (of_bool b)) | _ \<Rightarrow> Panic)
     | TString \<Rightarrow> obytes val rlp_str
     | TSlice t \<Rightarrow>
         if isByte t then obytes val rlp_str
         else (case val of
            VList vs \<Rightarrow>
              obind (rlp_elems t True vs) (\<lambda>c. Ok (if tail ts then c else rlp_list c))
          | _ \<Rightarrow> Panic)
     | TArray n t \<Rightarrow>
         if isByte t then obytes val rlp_str
         else (case val of
            VList vs \<Rightarrow>
              obind (rlp_elems t addr vs) (\<lambda>c. Ok (if tail ts then c else rlp_list c))
          | _ \<Rightarrow> Panic)
     | TStruct fs \<Rightarrow>
         obind (structFields fs) (\<lambda>flds.
           case val of
             VStruct vs \<Rightarrow> obind (rlp_flds flds addr vs) (\<lambda>c. Ok (rlp_list c))
           | _ \<Rightarrow> Panic)
     | TPtr t \<Rightarrow>
         (case val of
            VNil \<Rightarrow>
              if (case t of TArray _ e \<Rightarrow> isByte e | _ \<Rightarrow> False) then Ok (rlp_str [])
              else if isStructOrArray t then Ok (rlp_list [])
              else rlp_of t no_tags False (zero_value t)
          | VPtr v \<Rightarrow> rlp_of t no_tags True v
          | _ \<Rightarrow> Panic)
     | TOther \<Rightarrow> Err ErrNotSerializable)"
| "rlp_elems t addr [] = Ok []"
| "rlp_elems t addr (v # vs) =
     obind (rlp_of t no_tags addr v) (\<lambda>b. obind (rlp_elems t addr vs) (\<lambda>c. Ok (b @ c)))"
| "rlp_flds [] addr vs = Ok []"
| "rlp_flds ((i, ts, t) # flds) addr vs =
     (if i < length vs then
        obind (rlp_of t ts addr (vs ! i)) (\<lambda>b. obind (rlp_flds flds addr vs) (\<lambda>c. Ok (b @ c)))
      else Panic)"
  by pat_completeness auto
termination
  by (relation "inv_image (less_than <*lex*> less_than <*lex*> less_than) (case_sum
     (case_sum (\<lambda>(t, v). (vsize v, Suc (size t), 1)) (\<lambda>(t, ts, a, v). (vsize v, Suc (size t), 0)))
     (case_sum (\<lambda>(t, a, vs). (sum_list (map (\<lambda>v. Suc (vsize v)) vs), 0, 0))
               (\<lambda>(fs, a, vs). (sum_list (map (\<lambda>v. Suc (vsize v)) vs), length fs, 0))))")
    (auto dest: vsize_nth)

declare rlp_top.simps [simp del] rlp_of.simps [simp del]

section \<open>Buffers as rendered bytes\<close>

text \<open>\<open>render p s hs\<close>: the string data \<open>s\<close> from position \<open>p\<close> on, with the headers put in.\<close>

fun render :: "nat \<Rightarrow> bytes \<Rightarrow> listhead list \<Rightarrow> bytes" where
  "render p s [] = drop p s"
| "render p s (h # hs) =
     take (offset h - p) (drop p s) @ listhead_encode h @ render (offset h) s hs"

fun heads_ok :: "nat \<Rightarrow> nat \<Rightarrow> listhead list \<Rightarrow> bool" where
  "heads_ok p n [] = (p \<le> n)"
| "heads_ok p n (h # hs) = (p \<le> offset h \<and> heads_ok (offset h) n hs)"

abbreviation shift :: "nat \<Rightarrow> listhead list \<Rightarrow> listhead list" where
  "shift d \<equiv> map (\<lambda>h. h\<lparr>offset := offset h + d\<rparr>)"

lemma listhead_encode_offset [simp]: "listhead_encode (h\<lparr>offset := n\<rparr>) = listhead_encode h"
  by (simp add: listhead_encode_def)

lemma heads_ok_le: "heads_ok p n hs \<Longrightarrow> p \<le> n"
  by (induction hs arbitrary: p) (auto intro: order_trans)

lemma render_shift: "render (p + length s) (s @ t) (shift (length s) hs) = render p t hs"
  by (induction hs arbitrary: p) simp_all

lemma render_shift_before:
  "p \<le> length s \<Longrightarrow> render p (s @ t) (shift (length s) hs) = drop p s @ render 0 t hs"
  by (cases hs) (simp_all add: render_shift)

lemma render_append:
  "heads_ok p (length s) hs \<Longrightarrow>
    render p (s @ t) (hs @ shift (length s) hs') = render p s hs @ render 0 t hs'"
proof (induction hs arbitrary: p)
  case (Cons h hs)
  then have "offset h \<le> length s" by (auto dest: heads_ok_le)
  with Cons show ?case by simp
qed (simp add: render_shift_before)

lemma heads_ok_append:
  "heads_ok p n hs \<Longrightarrow> heads_ok 0 m hs' \<Longrightarrow> heads_ok p (n + m) (hs @ shift n hs')"
proof (induction hs arbitrary: p)
  case Nil
  have "heads_ok q m hs' \<Longrightarrow> heads_ok (q + n) (n + m) (shift n hs')" for q
    by (induction hs' arbitrary: q) auto
  with Nil show ?case by (cases hs') auto
qed auto

section \<open>What a writer adds to the buffer\<close>

definition emit :: "bytes \<Rightarrow> listhead list \<Rightarrow> nat \<Rightarrow> encbuf \<Rightarrow> encbuf" where
  "emit s hs k w =
    w\<lparr>str := str w @ s, lheads := lheads w @ shift (length (str w)) hs, lhsize := lhsize w + k\<rparr>"

definition extends :: "encbuf \<Rightarrow> bytes \<Rightarrow> encbuf \<Rightarrow> bool" where
  "extends w b w' \<longleftrightarrow>
    (\<exists>s hs k. w' = emit s hs k w \<and> heads_ok 0 (length s) hs \<and> render 0 s hs = b \<and>
      length b = length s + k)"

text \<open>The result \<open>m\<close> of a writer started in \<open>w\<close> agrees with the specified bytes, as long as their
  number is a 64-bit number.\<close>

definition writes :: "(rlp_error, encbuf) outcome \<Rightarrow> encbuf \<Rightarrow> (rlp_error, bytes) outcome \<Rightarrow> bool" where
  "writes m w r \<longleftrightarrow>
    (case r of
       Ok b \<Rightarrow> (\<exists>w'. m = Ok w' \<and> (length b < 2 ^ 64 \<longrightarrow> extends w b w'))
     | Err e \<Rightarrow> m = Err e
     | Panic \<Rightarrow> m = Panic)"

lemma extendsI:
  "w' = emit s hs k w \<Longrightarrow> heads_ok 0 (length s) hs \<Longrightarrow> render 0 s hs = b \<Longrightarrow> length b = length s + k \<Longrightarrow>
    extends w b w'"
  unfolding extends_def by blast

lemma extends_write: "extends w b (encbuf_write b w)"
  by (rule extendsI [of _ b "[]" 0]) (simp_all add: emit_def encbuf_write_def)

lemma extends_refl: "extends w [] w"
  using extends_write [of w "[]"] by (simp add: encbuf_write_def)

lemma extends_trans:
  assumes "extends w b w'" "extends w' c w''"
  shows "extends w (b @ c) w''"
proof -
  from assms obtain s hs k t js l where
    w': "w' = emit s hs k w" and s: "heads_ok 0 (length s) hs" "render 0 s hs = b" "length b = length s + k"
    and w'': "w'' = emit t js l w'" and t: "heads_ok 0 (length t) js" "render 0 t js = c" "length c = length t + l"
    unfolding extends_def by blast
  have "w'' = emit (s @ t) (hs @ shift (length s) js) (k + l) w"
    by (simp add: w'' w' emit_def comp_def add_ac)
  moreover have "heads_ok 0 (length (s @ t)) (hs @ shift (length s) js)"
    using s t by (simp add: heads_ok_append)
  moreover have "render 0 (s @ t) (hs @ shift (length s) js) = b @ c"
    using s t by (simp add: render_append)
  ultimately show ?thesis by (rule extendsI) (use s t in simp)
qed

lemma writes_bind:
  assumes "writes m w r" "\<And>w'. m = Ok w' \<Longrightarrow> writes (f w') w' r'"
  shows "writes (obind m f) w (obind r (\<lambda>b. obind r' (\<lambda>c. Ok (b @ c))))"
proof (cases r)
  case (Ok b)
  with assms(1) obtain w' where m: "m = Ok w'" and b: "length b < 2 ^ 64 \<Longrightarrow> extends w b w'"
    by (auto simp: writes_def)
  show ?thesis
  proof (cases r')
    case (Ok c)
    then obtain w'' where "f w' = Ok w''" "length c < 2 ^ 64 \<Longrightarrow> extends w' c w''"
      using assms(2) [OF m] by (auto simp: writes_def)
    then show ?thesis using b extends_trans [of w b w' c w''] by (simp add: writes_def m Ok \<open>r = Ok b\<close>)
  qed (use assms(2) [OF m] m \<open>r = Ok b\<close> in \<open>simp_all add: writes_def\<close>)
qed (use assms(1) in \<open>simp_all add: writes_def\<close>)

lemma writes_list:
  assumes "encbuf_list w = (lh, w1)" "writes m w1 r"
  shows "writes (obind m (\<lambda>w. Ok (encbuf_listEnd lh w))) w (obind r (\<lambda>c. Ok (rlp_list c)))"
proof (cases r)
  case (Ok b)
  with assms obtain w2 where m: "m = Ok w2" and ext: "length b < 2 ^ 64 \<Longrightarrow> extends w1 b w2"
    by (auto simp: writes_def)
  have "extends w (rlp_list b) (encbuf_listEnd lh w2)" if len: "length (rlp_list b) < 2 ^ 64"
  proof -
    have lb: "length b < 2 ^ 64" using len by (simp add: rlp_list_def)
    then obtain s hs k where w2: "w2 = emit s hs k w1" and s: "heads_ok 0 (length s) hs" "render 0 s hs = b"
      "length b = length s + k" using ext unfolding extends_def by blast
    let ?h = "\<lparr>offset = 0, lsize = length b\<rparr>"
    have lh: "lh = length (lheads w)" "w1 = w\<lparr>lheads := lheads w @ [\<lparr>offset = length (str w), lsize = lhsize w\<rparr>]\<rparr>"
      using assms(1) by (simp_all add: encbuf_list_def)
    have size: "headsize (word_of_nat (length b)) = (if length b < 56 then 1 else 1 + intsize (word_of_nat (length b)))"
      using lb by (simp add: headsize_def word_less_nat_alt unat_of_nat)
    have enc: "listhead_encode ?h = rlp_head 0xC0 0xF7 (length b)"
      using lb by (simp add: listhead_encode_def puthead_rlp_head unat_of_nat)
    have hs: "headsize (word_of_nat (length b)) = length (rlp_head 0xC0 0xF7 (length b))"
      using lb by (simp add: headsize_rlp_head [of _ "0xC0" "0xF7"] unat_of_nat)
    have "encbuf_listEnd lh w2 = emit s (?h # hs) (k + headsize (word_of_nat (length b))) w"
      unfolding size w2 lh using s(3)
      by (simp add: encbuf_listEnd_def emit_def encbuf_size_def nth_append list_update_append Let_def)
    moreover have "render 0 s (?h # hs) = rlp_list b" by (simp add: enc s(2) rlp_list_def)
    moreover have "length (rlp_list b) = length s + (k + headsize (word_of_nat (length b)))"
      unfolding rlp_list_def hs using s(3) by simp
    ultimately show ?thesis using s(1) by (intro extendsI [of _ s "?h # hs"]) simp_all
  qed
  then show ?thesis by (simp add: Ok m writes_def)
qed (use assms in \<open>auto simp: writes_def\<close>)

lemma writes_write: "writes (Ok (encbuf_write b w)) w (Ok b)"
  by (simp add: writes_def extends_write)

lemma byte_le_127: "b \<le> 0x7F \<longleftrightarrow> b < (128 :: byte)"
  by (simp add: word_le_nat_alt word_less_nat_alt) linarith

lemma encodeStringHeader_eq:
  assumes "n < 2 ^ 64"
  shows "encodeStringHeader n w = encbuf_write (rlp_head 0x80 0xB7 n) w"
proof -
  have "unat (word_of_nat n :: u64) = n" using assms by (simp add: unat_of_nat)
  moreover have "n \<noteq> 0 \<Longrightarrow> (word_of_nat n :: u64) \<noteq> 0"
    using calculation by (metis unat_0)
  ultimately show ?thesis
    by (simp add: encodeStringHeader_def rlp_head_def putint_big_Bytes Let_def)
qed

lemma encodeString_eq:
  "length b < 2 ^ 64 \<Longrightarrow> encodeString b w = encbuf_write (rlp_str b) w"
  by (cases b) (auto simp: encodeString_def rlp_str_def byte_le_127 encodeStringHeader_eq encbuf_write_def)

lemma writeString_encodeString: "writeString = encodeString"
  by (simp add: fun_eq_iff writeString_def encodeString_def)

lemma writes_encodeString: "writes (Ok (encodeString b w)) w (Ok (rlp_str b))"
proof -
  have "length b \<le> length (rlp_str b)" by (simp add: rlp_str_def)
  then show ?thesis by (auto simp: writes_def encodeString_eq extends_write)
qed

lemma rlp_str_Nil: "rlp_str [] = [0x80]"
  by (simp add: rlp_str_def rlp_head_def)

lemma big_Bytes_small: "0 < n \<Longrightarrow> n < 256 \<Longrightarrow> big_Bytes n = [word_of_nat n]"
  by (subst big_Bytes.simps) simp

lemma writeUint_eq: "writeUint i w = encbuf_write (rlp_nat (unat i)) w"
proof -
  consider "i = 0" | "i \<noteq> 0" "i < 128" | "\<not> i < 128" by blast
  then show ?thesis
  proof cases
    case 1
    then show ?thesis by (simp add: writeUint_def rlp_str_Nil)
  next
    case 2
    then have i: "0 < unat i" "unat i < 128" by (simp_all add: word_less_nat_alt unat_gt_0)
    have "(word_of_nat (unat i) :: byte) < 128"
      using i by (simp add: word_less_nat_alt unsigned_ucast_eq take_bit_eq_mod)
    then show ?thesis using 2 i
      by (simp add: writeUint_def big_Bytes_small rlp_str_def)
  next
    case 3
    then have i: "i \<noteq> 0" "128 \<le> unat i" by (auto simp: word_less_nat_alt)
    have "\<not> hd (big_Bytes (unat i)) < 128" if "length (big_Bytes (unat i)) = 1"
    proof -
      from that obtain x where x: "big_Bytes (unat i) = [x]" by (auto simp: length_Suc_conv)
      then have "unat x = unat i" using nat_of_big_Bytes [of "unat i"] by simp
      then show ?thesis using x i by (simp add: word_less_nat_alt)
    qed
    moreover have "length (big_Bytes (unat i)) < 56" using length_big_Bytes_u64 [of i] by simp
    ultimately show ?thesis using 3 i
      by (auto simp: writeUint_def putint_big_Bytes rlp_str_def rlp_head_def Let_def)
  qed
qed

lemma writes_BigInt: "writes (writeBigInt i w) w (rlp_big i)"
proof -
  consider "i < 0" | "i = 0" | "i > 0" by linarith
  then show ?thesis
  proof cases
    case 1
    then show ?thesis by (simp add: writeBigInt_def rlp_big_def writes_def)
  next
    case 2
    then show ?thesis using writes_write [of "[0x80]"] by (simp add: writeBigInt_def rlp_big_def rlp_str_Nil)
  next
    case 3
    then show ?thesis using writes_encodeString by (simp add: writeBigInt_def rlp_big_def)
  qed
qed

lemma writes_Bool: "writes (Ok (writeBool b w)) w (Ok (rlp_nat (of_bool b)))"
proof -
  have "[if b then 0x01 else 0x80] = rlp_nat (of_bool b)"
    by (cases b) (simp_all add: rlp_str_Nil, simp add: big_Bytes_small rlp_str_def)
  then show ?thesis using writes_write by (metis writeBool_def)
qed

lemmas writes_basic =
  writes_write writes_encodeString writes_BigInt writes_Bool writeString_encodeString writeUint_eq
  writeRawValue_def

lemma writes_outcome [simp]: "writes Panic w Panic" "writes (Err e) w (Err e)"
  by (simp_all add: writes_def)

lemma writes_obind_same:
  "(\<And>x. g = Ok x \<Longrightarrow> writes (f x) w (f' x)) \<Longrightarrow> writes (obind g f) w (obind g f')"
  by (cases g) simp_all

lemma writes_obytes:
  "(\<And>b. val = VBytes b \<Longrightarrow> writes (Ok (f b)) w (Ok (g b))) \<Longrightarrow>
    writes (case val of VBytes b \<Rightarrow> Ok (f b) | _ \<Rightarrow> Panic) w (obytes val g)"
  by (cases val) (simp_all add: obytes_def)

lemma rlp_list_Nil: "rlp_list [] = [0xC0]"
  by (simp add: rlp_list_def rlp_head_def)

lemma obind_Ok_right [simp]: "obind m Ok = m"
  by (cases m) simp_all

lemma writes_encoders:
  "writes (encbuf_encode ty val w) w (rlp_top ty val)"
  "writes (makeWriter ty ts addr val w) w (rlp_of ty ts addr val)"
  "writes (write_elems t addr vs w) w (rlp_elems t addr vs)"
  "writes (write_fields flds addr vs w) w (rlp_flds flds addr vs)"
proof (induction ty val w and ty ts addr val w and t addr vs w and flds addr vs w
    rule: encbuf_encode_makeWriter_write_elems_write_fields.induct)
  case (1 ty val w)
  then show ?case by (simp add: encbuf_encode.simps rlp_top.simps writes_obind_same)
next
  case (2 ty ts addr val w)
  show ?case
  proof (cases ty)
    case (TSlice t)
    then show ?thesis using 2
      by (cases val) (auto simp: makeWriter.simps rlp_of.simps obytes_def writes_basic
          intro!: writes_list split: prod.split)
  next
    case (TArray n t)
    then show ?thesis using 2
      by (cases val) (auto simp: makeWriter.simps rlp_of.simps obytes_def writes_basic
          intro!: writes_list split: prod.split)
  next
    case (TStruct fs)
    then show ?thesis using 2
      by (cases val) (auto simp: makeWriter.simps rlp_of.simps intro!: writes_obind_same writes_list
          split: prod.split)
  next
    case (TPtr t)
    have "writes (Ok (encbuf_listEnd lh w1)) w (Ok (rlp_list []))" if "encbuf_list w = (lh, w1)" for lh w1
      using writes_list [OF that, of "Ok w1" "Ok []"] by (simp add: writes_def extends_refl)
    with TPtr show ?thesis using 2
      by (cases val) (auto simp: makeWriter.simps rlp_of.simps rlp_str_Nil writes_basic split: prod.split)
  next
    case (TEnc ptr t)
    then show ?thesis using 2 by (cases val) (simp_all add: makeWriter.simps rlp_of.simps)
  next
    case (TIface methods)
    then show ?thesis using 2
      by (cases val) (simp_all add: makeWriter.simps rlp_of.simps rlp_list_Nil writes_basic)
  qed ((cases val; simp add: makeWriter.simps rlp_of.simps obytes_def rlp_str_Nil writes_basic)+)
next
  case (4 t addr v vs w)
  then show ?case by (auto intro: writes_bind)
next
  case (6 i ts t flds addr vs w)
  then show ?case by (auto intro: writes_bind)
qed (simp_all add: writes_def extends_refl)

section \<open>Merging the headers\<close>

lemma toBytes_loop_render:
  "heads_ok strpos (length s) hs \<Longrightarrow> length out = pos + length (render strpos s hs) \<Longrightarrow>
    toBytes_loop s hs out pos strpos = Ok (take pos out @ render strpos s hs)"
proof (induction hs arbitrary: out pos strpos)
  case (Cons h hs)
  define p where "p = take (offset h - strpos) (drop strpos s)"
  define e where "e = listhead_encode h"
  have le: "strpos \<le> offset h" "offset h \<le> length s" using Cons.prems(1) by (auto dest: heads_ok_le)
  then have lp: "length p = offset h - strpos" by (simp add: p_def)
  have out: "length out = pos + length p + length e + length (render (offset h) s hs)"
    using Cons.prems(2) by (simp add: p_def e_def)
  define out' where "out' = take pos out @ p @ e @ drop (pos + length p + length e) out"
  have "copy_at out pos p = (Ok (take pos out @ p @ drop (pos + length p) out, length p) :: ('a, _) outcome)"
    using out by (simp add: copy_at_def Let_def)
  moreover have "encode_at (take pos out @ p @ drop (pos + length p) out) (pos + length p) h
      = (Ok (out', length e) :: ('a, _) outcome)"
    using out by (simp add: encode_at_def out'_def e_def Let_def add_ac)
  moreover have "toBytes_loop s hs out' (pos + length p + length e) (offset h)
      = (Ok (take (pos + length p + length e) out' @ render (offset h) s hs) :: ('a, _) outcome)"
    using Cons.prems(1) out by (intro Cons.IH) (simp_all add: out'_def)
  moreover have "take (pos + length p + length e) out' = take pos out @ p @ e"
    using out by (simp add: out'_def)
  ultimately show ?case
    using le lp by (simp add: slice_def p_def [symmetric] e_def)
qed (simp add: slice_def copy_at_def Let_def)

lemma toBytes_render:
  "heads_ok 0 (length (str w)) (lheads w) \<Longrightarrow> length (render 0 (str w) (lheads w)) = encbuf_size w \<Longrightarrow>
    toBytes w = Ok (render 0 (str w) (lheads w))"
  by (simp add: toBytes_def toBytes_loop_render)

text \<open>A buffer that holds the encoding \<open>b\<close>.\<close>

definition holds :: "encbuf \<Rightarrow> bytes \<Rightarrow> bool" where
  "holds w b \<longleftrightarrow> heads_ok 0 (length (str w)) (lheads w) \<and> render 0 (str w) (lheads w) = b \<and>
    length b = encbuf_size w"

lemma encbuf_encode_holds:
  assumes "rlp_top ty val = Ok b" "length b < 2 ^ 64"
  obtains w where "encbuf_encode ty val encbuf_reset = Ok w" "holds w b"
proof -
  obtain w where w: "encbuf_encode ty val encbuf_reset = Ok w" and "extends encbuf_reset b w"
    using writes_encoders(1) [of ty val encbuf_reset] assms by (auto simp: writes_def)
  then obtain s hs k where e: "w = emit s hs k encbuf_reset" "heads_ok 0 (length s) hs" "render 0 s hs = b"
    "length b = length s + k" unfolding extends_def by blast
  then have "holds w b" by (simp add: holds_def emit_def encbuf_reset_def encbuf_size_def)
  with w show thesis by (rule that)
qed

text \<open>
  C8. The encoder is correct: for every type and value, \<open>EncodeToBytes\<close>, which collects list headers
  in a side list and merges them into the output afterwards, returns exactly the specified encoding
  (every header in front of its content), fails exactly when the specification does and with the same
  error, and never writes outside its output array. The encoding must be shorter than \<open>2^64\<close> bytes.
\<close>
theorem EncodeToBytes_rlp_top:
  assumes "\<forall>b. rlp_top ty val = Ok b \<longrightarrow> length b < 2 ^ 64"
  shows "EncodeToBytes ty val = rlp_top ty val"
proof (cases "rlp_top ty val")
  case (Ok b)
  then obtain w where "encbuf_encode ty val encbuf_reset = Ok w" "holds w b"
    using assms encbuf_encode_holds by blast
  then show ?thesis using Ok by (simp add: EncodeToBytes_def holds_def toBytes_render)
qed (use writes_encoders(1) [of ty val encbuf_reset] in \<open>simp_all add: EncodeToBytes_def writes_def\<close>)

lemma EncodeToBytes_rlp_top_witness:
  "EncodeToBytes (TSlice (TSlice (TUint 8))) (VList [VBytes [1], VBytes [200, 3]]) =
    Ok [0xC4, 1, 0x82, 200, 3]"
  using EncodeToBytes_rlp_top [of "TSlice (TSlice (TUint 8))" "VList [VBytes [1], VBytes [200, 3]]"]
  by (simp add: rlp_top.simps rlp_of.simps genTypeInfo.simps isByte_def obytes_def rlp_str_def rlp_list_def
      rlp_head_def no_tags_def)

section \<open>Writers and readers\<close>

text \<open>A \<open>bytes.Buffer\<close> as the writer, and a sequence of \<open>Read\<close> calls with buffers of the given
  lengths: the bytes read together and whether the end was reported.\<close>

definition buffer_Write :: "bytes Write" where
  "buffer_Write out b = (out @ b, length b, None)"

primrec Read_seq :: "nat list \<Rightarrow> encReader \<Rightarrow> (rlp_error, bytes \<times> bool) outcome" where
  "Read_seq [] r = Ok ([], False)"
| "Read_seq (n # ns) r =
     obind (encReader_Read n r) (\<lambda>(b, eof, r).
       if eof then Ok (b, True) else obind (Read_seq ns r) (\<lambda>(c, eof). Ok (b @ c, eof)))"

lemma toWriter_loop_render:
  "heads_ok strpos (length s) hs \<Longrightarrow>
    toWriter_loop buffer_Write s hs strpos out = (out @ render strpos s hs, Ok ())"
proof (induction hs arbitrary: strpos out)
  case (Cons h hs)
  then have "strpos \<le> offset h" "offset h \<le> length s" by (auto dest: heads_ok_le)
  with Cons show ?case by (simp add: slice_def buffer_Write_def)
qed (auto simp: buffer_Write_def)

definition reader_ok :: "encReader \<Rightarrow> bool" where
  "reader_ok r \<longleftrightarrow>
    (case rbuf r of
       None \<Rightarrow> True
     | Some w \<Rightarrow> heads_ok (rstrpos r) (length (str w)) (drop (lhpos r) (lheads w)))"

definition pending :: "encReader \<Rightarrow> bytes" where
  "pending r =
    (case rbuf r of
       None \<Rightarrow> []
     | Some w \<Rightarrow> (case piece r of None \<Rightarrow> [] | Some p \<Rightarrow> p) @
         render (rstrpos r) (str w) (drop (lhpos r) (lheads w)))"

lemma pending_piece:
  "pending (r\<lparr>piece := None\<rparr>) =
    (case rbuf r of None \<Rightarrow> [] | Some w \<Rightarrow> render (rstrpos r) (str w) (drop (lhpos r) (lheads w)))"
  "pending (r\<lparr>piece := Some p\<rparr>) =
    (case rbuf r of None \<Rightarrow> [] | Some w \<Rightarrow> p @ render (rstrpos r) (str w) (drop (lhpos r) (lheads w)))"
  by (simp_all add: pending_def split: option.split)

lemma encReader_next_pending:
  assumes "reader_ok r"
  obtains (eof) r' where "encReader_next r = Ok (None, r')" "pending r = []"
  | (some) p r' where "encReader_next r = Ok (Some p, r')" "pending r = p @ pending (r'\<lparr>piece := None\<rparr>)"
      "reader_ok r'" "rbuf r' \<noteq> None"
proof (cases "rbuf r")
  case None
  then show thesis using eof by (simp add: encReader_next_def pending_def)
next
  case (Some w)
  show thesis
  proof (cases "piece r = None \<and> lhpos r < length (lheads w)")
    case True
    let ?h = "lheads w ! lhpos r"
    have d: "drop (lhpos r) (lheads w) = ?h # drop (Suc (lhpos r)) (lheads w)"
      using True by (simp add: Cons_nth_drop_Suc)
    then have le: "rstrpos r \<le> offset ?h" "offset ?h \<le> length (str w)"
        and ok: "heads_ok (offset ?h) (length (str w)) (drop (Suc (lhpos r)) (lheads w))"
      using assms Some by (auto simp: reader_ok_def dest: heads_ok_le)
    show thesis
    proof (cases "rstrpos r < offset ?h")
      case before: True
      show thesis
        by (rule some [of "take (offset ?h - rstrpos r) (drop (rstrpos r) (str w))" "r\<lparr>rstrpos := offset ?h\<rparr>"])
          (use True before Some d le ok in \<open>auto simp: encReader_next_def Let_def slice_def reader_ok_def pending_def\<close>)
    next
      case False
      show thesis
        by (rule some [of "listhead_encode ?h" "r\<lparr>lhpos := lhpos r + 1\<rparr>"])
          (use True False Some d le ok in \<open>auto simp: encReader_next_def Let_def reader_ok_def pending_def\<close>)
    qed
  next
    case False
    have le: "rstrpos r \<le> length (str w)"
      using assms Some by (auto simp: reader_ok_def dest: heads_ok_le)
    consider (old) p where "piece r = Some p"
      | (last) "piece r = None" "rstrpos r < length (str w)" "\<not> lhpos r < length (lheads w)"
      | (fin) "piece r = None" "rstrpos r = length (str w)" "\<not> lhpos r < length (lheads w)"
      using False le by (cases "piece r") (auto simp: le_less)
    then show thesis
    proof cases
      case old
      show thesis by (rule some [of p r]) (use old assms Some in \<open>simp_all add: encReader_next_def pending_def\<close>)
    next
      case last
      show thesis
        by (rule some [of "drop (rstrpos r) (str w)" "r\<lparr>rstrpos := length (str w)\<rparr>"])
          (use last Some in \<open>simp_all add: encReader_next_def pending_def reader_ok_def\<close>)
    next
      case fin
      show thesis by (rule eof [of r]) (use fin Some in \<open>simp_all add: encReader_next_def pending_def\<close>)
    qed
  qed
qed

lemma encReader_Read_loop_pending:
  assumes "reader_ok r" "length acc \<le> n"
  shows "\<exists>r'. encReader_Read_loop n acc r =
      Ok (acc @ take (n - length acc) (pending r), length (pending r) \<le> n - length acc, r') \<and>
    reader_ok r' \<and> pending r' = drop (n - length acc) (pending r)"
  using assms
proof (induction n acc r rule: encReader_Read_loop.induct)
  case (1 n acc r)
  from "1.prems"(1) show ?case
  proof (cases rule: encReader_next_pending)
    case (eof r')
    then show ?thesis by (subst encReader_Read_loop.simps) (simp add: reader_ok_def pending_def)
  next
    case (some p r')
    let ?k = "n - length acc" and ?r = "r'\<lparr>piece := None\<rparr>"
    have ok: "reader_ok (r'\<lparr>piece := x\<rparr>)" for x using some(3) by (auto simp: reader_ok_def split: option.splits)
    show ?thesis
    proof (cases "?k < length p")
      case True
      have "pending (r'\<lparr>piece := Some (drop ?k p)\<rparr>) = drop ?k p @ pending ?r"
        using some(4) by (auto simp: pending_piece)
      with True ok some(1,2) show ?thesis
        by (subst encReader_Read_loop.simps) (simp add: min_def Let_def)
    next
      case False
      then have fits: "length acc + length p \<le> n" using "1.prems"(2) by simp
      with False obtain r'' where "encReader_Read_loop n (acc @ p) ?r =
          Ok ((acc @ p) @ take (n - length (acc @ p)) (pending ?r), length (pending ?r) \<le> n - length (acc @ p), r'')"
          "reader_ok r''" "pending r'' = drop (n - length (acc @ p)) (pending ?r)"
        using "1.IH" [of "(Some p, r')" "Some p" r' p] some ok "1.prems"(2)
        by (auto simp: not_less min_absorb2)
      with False some(1,2) "1.prems"(2) show ?thesis
        by (subst encReader_Read_loop.simps) (auto simp: min_def Let_def)
    qed
  qed
qed

lemma Read_seq_pending:
  "reader_ok r \<Longrightarrow> Read_seq ns r =
    Ok (take (sum_list ns) (pending r), ns \<noteq> [] \<and> length (pending r) \<le> sum_list ns)"
proof (induction ns arbitrary: r)
  case (Cons n ns)
  obtain r' where r': "encReader_Read n r = Ok (take n (pending r), length (pending r) \<le> n, r')"
      "reader_ok r'" "pending r' = drop n (pending r)"
    using encReader_Read_loop_pending [of r "[]" n] Cons.prems by (auto simp: encReader_Read_def)
  then show ?case using Cons.IH [OF r'(2)] by (cases "length (pending r) \<le> n") (auto simp: take_add)
qed simp

text \<open>
  C9. The three ways out of the encoder agree: \<open>Encode\<close> into a buffer appends exactly the specified
  encoding, and \<open>EncodeToReader\<close> returns its length and a reader from which any sequence of \<open>Read\<close>
  calls, whatever the sizes of their buffers, delivers its bytes in order, with the end of file
  reported exactly when all of them have been delivered.
\<close>
theorem Encode_reader_agree:
  assumes "rlp_top ty val = Ok b" "length b < 2 ^ 64"
  shows "Encode buffer_Write out ty val = (out @ b, Ok ()) \<and>
    (\<exists>r. EncodeToReader ty val = Ok (length b, r) \<and>
      (\<forall>ns. Read_seq ns r = Ok (take (sum_list ns) b, ns \<noteq> [] \<and> length b \<le> sum_list ns)))"
proof -
  obtain w where w: "encbuf_encode ty val encbuf_reset = Ok w" "holds w b"
    using assms by (rule encbuf_encode_holds)
  let ?r = "\<lparr>rbuf = Some w, lhpos = 0, rstrpos = 0, piece = None\<rparr>"
  have "reader_ok ?r" "pending ?r = b" using w(2) by (simp_all add: reader_ok_def pending_def holds_def)
  then have "Read_seq ns ?r = Ok (take (sum_list ns) b, ns \<noteq> [] \<and> length b \<le> sum_list ns)" for ns
    by (simp add: Read_seq_pending)
  then show ?thesis using w
    by (simp add: Encode_def EncodeToReader_def toWriter_def toWriter_loop_render holds_def)
qed

lemma Encode_reader_agree_witness:
  "Encode buffer_Write [7] (TPtr (TUint 64)) VNil = ([7, 0x80], Ok ())"
  using Encode_reader_agree [of "TPtr (TUint 64)" VNil "[0x80]" "[7]"]
  by (simp add: rlp_top.simps rlp_of.simps genTypeInfo.simps isStructOrArray_def rlp_str_Nil)

end
