(* ===== verification/RlpDecodeSpec.thy ===== *)
theory RlpDecodeSpec
  imports RlpDecode RlpEncodeSpec
begin

text \<open>
  The decoder of \<open>rlp/decode.go\<close> inverts the encoder: for the types the program decodes, decoding
  accepts exactly the encodings of well-typed values and returns the value encoded. The proof follows
  a stream over a byte slice: how much of the input an operation consumes (\<open>reads\<close>), and which
  encodings an operation accepts (\<open>decodes\<close>).
\<close>

section \<open>Positions in the stream\<close>

text \<open>The number of bytes that may still be read before the end of the innermost list.\<close>

definition avail :: "Stream \<Rightarrow> nat" where
  "avail s = (case stack s of [] \<Rightarrow> length (inp s) | (p, z) # _ \<Rightarrow> unat z - unat p)"

text \<open>A stream over a byte slice: the limit is what is left of the slice, the innermost list ends
  inside it.\<close>

definition stream_ok :: "Stream \<Rightarrow> bool" where
  "stream_ok s \<longleftrightarrow> limited s \<and> unat (remaining s) = length (inp s) \<and>
    (case stack s of [] \<Rightarrow> True | (p, z) # _ \<Rightarrow> p \<le> z \<and> unat z - unat p \<le> length (inp s))"

definition bump :: "nat \<Rightarrow> (u64 \<times> u64) list \<Rightarrow> (u64 \<times> u64) list" where
  "bump n st = (case st of [] \<Rightarrow> [] | (p, z) # st \<Rightarrow> (p + word_of_nat n, z) # st)"

definition adv :: "nat \<Rightarrow> Stream \<Rightarrow> Stream" where
  "adv n s = s\<lparr>inp := drop n (inp s), remaining := remaining s - word_of_nat n, skind := None,
    stack := bump n (stack s)\<rparr>"

text \<open>Equality of streams up to the fields that are only valid while a kind is cached.\<close>

definition same :: "Stream \<Rightarrow> Stream \<Rightarrow> bool" where
  "same s t \<longleftrightarrow> inp s = inp t \<and> remaining s = remaining t \<and> limited s = limited t \<and>
    skind s = skind t \<and> stack s = stack t"

definition reads :: "bytes \<Rightarrow> Stream \<Rightarrow> Stream \<Rightarrow> bool" where
  "reads e s s' \<longleftrightarrow> length e \<le> avail s \<and> (\<exists>r. inp s = e @ r) \<and> same s' (adv (length e) s)"

lemma same_refl [simp]: "same s s"
  by (simp add: same_def)

lemma same_sym: "same s t \<Longrightarrow> same t s"
  by (simp add: same_def)

lemma same_trans: "same s t \<Longrightarrow> same t u \<Longrightarrow> same s u"
  by (simp add: same_def)

lemma avail_le: "stream_ok s \<Longrightarrow> avail s \<le> length (inp s)"
  by (auto simp: stream_ok_def avail_def split: list.splits)

lemma length_inp_less: "stream_ok s \<Longrightarrow> length (inp s) < 2 ^ 64"
  using unat_u64_less [of "remaining s"] by (simp add: stream_ok_def)

lemma same_cong: "same s t \<Longrightarrow> stream_ok s = stream_ok t" "same s t \<Longrightarrow> avail s = avail t"
  by (simp_all add: same_def stream_ok_def avail_def split: list.split)

lemma unat_u64_of_nat: "n \<le> unat (w :: u64) \<Longrightarrow> unat (word_of_nat n :: u64) = n"
  using unat_u64_less [of w] by (subst unat_of_nat) simp

lemma unat_sub_nat: "n \<le> unat (w :: u64) \<Longrightarrow> unat (w - word_of_nat n) = unat w - n"
  using unat_sub [of "word_of_nat n" w] by (simp only: word_le_nat_alt unat_u64_of_nat)

lemma unat_add_nat:
  assumes "n \<le> unat (z :: u64) - unat p" "unat (p :: u64) \<le> unat z"
  shows "unat (p + word_of_nat n) = unat p + n"
proof -
  have "unat p + n < 2 ^ LENGTH(64)" using assms unat_u64_less [of z] by simp
  moreover have "unat (word_of_nat n :: u64) = n" using assms unat_u64_of_nat [of n z] by simp
  ultimately show ?thesis by (simp only: unat_word_ariths) (rule mod_less)
qed

lemma adv_ok:
  assumes "stream_ok s" "n \<le> avail s"
  shows "stream_ok (adv n s)" "avail (adv n s) = avail s - n"
proof -
  have "n \<le> unat (remaining s)" using assms avail_le [OF assms(1)] by (simp add: stream_ok_def)
  then have rem: "unat (remaining (adv n s)) = length (inp (adv n s))"
    using assms(1) by (simp add: adv_def stream_ok_def unat_sub_nat)
  have lim: "limited (adv n s)" using assms(1) by (simp add: adv_def stream_ok_def)
  have "stream_ok (adv n s) \<and> avail (adv n s) = avail s - n"
  proof (cases "stack s")
    case Nil
    then have "stack (adv n s) = []" by (simp add: adv_def bump_def)
    then show ?thesis using rem lim Nil unfolding stream_ok_def avail_def by (simp add: adv_def)
  next
    case (Cons top st)
    obtain p z where top: "top = (p, z)" by (cases top)
    then have z: "p \<le> z" "unat z - unat p \<le> length (inp s)" "n \<le> unat z - unat p"
      using assms Cons by (auto simp: stream_ok_def avail_def)
    then have p: "unat (p + word_of_nat n) = unat p + n"
      by (intro unat_add_nat [of n z]) (simp_all add: word_le_nat_alt)
    have "stack (adv n s) = (p + word_of_nat n, z) # st" using Cons top by (simp add: adv_def bump_def)
    moreover have "p + word_of_nat n \<le> z" unfolding word_le_nat_alt p
      using z(1,3) unfolding word_le_nat_alt by linarith
    moreover have "unat z - unat (p + word_of_nat n) \<le> length (inp (adv n s))"
      unfolding p using z(2) by (simp add: adv_def)
    moreover have "unat z - unat (p + word_of_nat n) = unat z - unat p - n"
      unfolding p by simp
    ultimately show ?thesis using rem lim unfolding stream_ok_def avail_def Cons top
      by (simp only: list.case prod.case simp_thms)
  qed
  then show "stream_ok (adv n s)" "avail (adv n s) = avail s - n" by simp_all
qed

lemma bump_bump [simp]: "bump n (bump m st) = bump (m + n) st"
  by (auto simp: bump_def add_ac split: list.splits)

lemma adv_adv: "adv n (adv m s) = adv (m + n) s"
  by (simp add: adv_def add_ac)

lemma same_adv: "same s t \<Longrightarrow> same (adv n s) (adv n t)"
  by (simp add: same_def adv_def)

lemma reads_ok:
  assumes "stream_ok s" "reads e s s'"
  shows "stream_ok s'" "avail s' = avail s - length e" "skind s' = None"
  using assms adv_ok [of s "length e"] same_cong [of s' "adv (length e) s"]
  by (auto simp: reads_def) (simp add: same_def adv_def)

lemma reads_trans:
  assumes "stream_ok s" "reads e s s'" "reads f s' s''"
  shows "reads (e @ f) s s''"
  using assms(2,3) reads_ok [OF assms(1,2)] same_adv [of s' "adv (length e) s" "length f"]
  by (auto simp: reads_def adv_adv same_def adv_def)

lemma sbind_simps [simp]:
  "m s = (Ok a, s') \<Longrightarrow> sbind m f s = f a s'"
  "m s = (Err e, s') \<Longrightarrow> sbind m f s = (Err e, s')"
  "m s = (Panic, s') \<Longrightarrow> sbind m f s = (Panic, s')"
  by (simp_all add: sbind_def)

lemma sbind_Ok_iff:
  "sbind m f s = (Ok b, s'') \<longleftrightarrow> (\<exists>a s'. m s = (Ok a, s') \<and> f a s' = (Ok b, s''))"
  by (auto simp: sbind_def split: outcome.splits prod.splits)

lemma swrap_Ok_iff [simp]: "swrap g m s = (Ok a, s') \<longleftrightarrow> m s = (Ok a, s')"
  by (auto simp: swrap_def omap_err_Ok_iff split: prod.splits)

lemma swrap_Err_iff: "swrap g m s = (Err e, s') \<longleftrightarrow> (\<exists>d. m s = (Err d, s') \<and> g d = e)"
  by (auto simp: swrap_def omap_err_Err_iff split: prod.splits)

lemma sreturn_iff [simp]: "sreturn a s = (Ok b, s') \<longleftrightarrow> a = b \<and> s = s'"
  by (auto simp: sreturn_def)

lemma sfail_not_Ok [simp]: "sfail e s \<noteq> (Ok b, s')"
  by (simp add: sfail_def)

section \<open>Reading bytes\<close>

lemma word_less_of_nat: "n \<le> unat (w :: u64) \<Longrightarrow> \<not> w < word_of_nat n"
  by (simp add: word_less_nat_alt unat_u64_of_nat not_less)

lemma readFull_ok:
  assumes "stream_ok s" "unat n \<le> avail s"
  shows "readFull n s = (Ok (take (unat n) (inp s)), adv (unat n) s)"
proof -
  have le: "unat n \<le> length (inp s)" using assms avail_le by fastforce
  then have rem: "\<not> remaining s < n" using assms(1) by (simp add: stream_ok_def word_less_nat_alt)
  have lim: "limited s" using assms(1) by (simp add: stream_ok_def)
  show ?thesis
  proof (cases "stack s")
    case Nil
    then show ?thesis using le rem lim
      by (simp add: readFull_def sbind_def willRead_def willRead_limit_def adv_def bump_def)
  next
    case (Cons top st)
    obtain p z where top: "top = (p, z)" by (cases top)
    then have "p \<le> z" "unat n \<le> unat z - unat p"
      using assms Cons by (auto simp: stream_ok_def avail_def)
    then have "\<not> z - p < n" by (simp add: word_less_nat_alt unat_sub)
    then show ?thesis using le rem lim Cons top
      by (simp add: readFull_def sbind_def willRead_def willRead_limit_def adv_def bump_def)
  qed
qed

lemma readFull_Ok_imp:
  assumes "stream_ok s" "readFull n s = (Ok b, s')"
  shows "unat n \<le> avail s"
proof (cases "stack s")
  case Nil
  then show ?thesis using assms
    by (auto simp: readFull_def sbind_def willRead_def willRead_limit_def avail_def Let_def split: if_splits)
next
  case (Cons top st)
  obtain p z where top: "top = (p, z)" by (cases top)
  then have "p \<le> z" using assms Cons by (auto simp: stream_ok_def)
  moreover have "\<not> z - p < n" using assms(2) Cons top
    by (auto simp: readFull_def sbind_def willRead_def Let_def split: if_splits)
  ultimately show ?thesis using Cons top by (simp add: word_less_nat_alt unat_sub avail_def)
qed

lemma readByte_readFull:
  "readByte s = (case readFull 1 s of (Ok b, s') \<Rightarrow> (Ok (hd b), s') | (Err e, s') \<Rightarrow> (Err e, s') | (Panic, s') \<Rightarrow> (Panic, s'))"
  by (cases "willRead 1 s")
    (auto simp: readByte_def readFull_def sbind_def take_Suc split: list.split outcome.split)

lemma readByte_ok:
  "stream_ok s \<Longrightarrow> 1 \<le> avail s \<Longrightarrow> readByte s = (Ok (hd (inp s)), adv 1 s)"
  using readFull_ok [of s 1] avail_le [of s] by (cases "inp s") (auto simp: readByte_readFull)

lemma readByte_Ok_imp:
  "stream_ok s \<Longrightarrow> readByte s = (Ok b, s') \<Longrightarrow> 1 \<le> avail s"
  using readFull_Ok_imp [of s 1] by (fastforce simp: readByte_readFull split: prod.splits outcome.splits)

lemma be_word_zeros: "be_word (replicate k 0 @ b) = be_word b"
  by (simp add: be_word_nat_of_be nat_of_be_append) (induction k; simp add: nat_of_be_append)

lemma readUint_ok:
  assumes "stream_ok s" "1 \<le> l" "l \<le> 8" "l \<le> avail s" "hd (inp s) \<noteq> 0 \<or> l = 1"
  shows "readUint (word_of_nat l) s = (Ok (be_word (take l (inp s))), adv l s)"
proof (cases "l = 1")
  case True
  then show ?thesis using assms avail_le [of s] readByte_ok [of s]
    by (cases "inp s") (auto simp: readUint_def be_word_def)
next
  case False
  have w: "(word_of_nat l :: byte) \<noteq> 0" "(word_of_nat l :: byte) \<noteq> 1" "unat (word_of_nat l :: byte) = l"
    using assms False by (simp_all add: word_unat_eq_iff unat_of_nat)
  have u: "unat (ucast (word_of_nat l :: byte) :: u64) = l" using assms by (simp add: u64_of_byte unat_of_nat)
  have "l \<le> length (inp s)" using assms avail_le [of s] by simp
  then have "(replicate (8 - l) 0 @ take l (inp s)) ! (8 - l) \<noteq> 0"
    using assms False by (cases "inp s") (auto simp: nth_append take_Cons')
  then show ?thesis using w u assms readFull_ok [OF assms(1), of "ucast (word_of_nat l :: byte)"]
    by (simp add: readUint_def be_word_zeros Let_def sreturn_def)
qed

lemma readUint_Ok_imp:
  assumes "stream_ok s" "1 \<le> l" "l \<le> 8" "readUint (word_of_nat l) s = (Ok v, s')"
  shows "l \<le> avail s" "hd (inp s) \<noteq> 0 \<or> l = 1"
proof -
  have w: "(word_of_nat l :: byte) \<noteq> 0" "(word_of_nat l :: byte) = 1 \<longleftrightarrow> l = 1" "unat (word_of_nat l :: byte) = l"
    using assms by (simp_all add: word_unat_eq_iff unat_of_nat)
  have u: "unat (ucast (word_of_nat l :: byte) :: u64) = l" using assms by (simp add: u64_of_byte unat_of_nat)
  have "l \<le> avail s \<and> (hd (inp s) \<noteq> 0 \<or> l = 1)"
  proof (cases "l = 1")
    case True
    then show ?thesis using assms w readByte_Ok_imp [of s] by (auto simp: readUint_def sbind_Ok_iff)
  next
    case False
    then obtain b s1 where b: "readFull (ucast (word_of_nat l :: byte)) s = (Ok b, s1)"
        "(replicate (8 - l) 0 @ b) ! (8 - l) \<noteq> 0"
      using assms(4) w by (auto simp: readUint_def sbind_Ok_iff Let_def split: if_splits)
    then have "l \<le> avail s" using readFull_Ok_imp [OF assms(1)] u by fastforce
    moreover have "b = take l (inp s)" using b(1) readFull_ok [OF assms(1)] u calculation by simp
    ultimately show ?thesis using b(2) avail_le [OF assms(1)] assms(2)
      by (cases "inp s") (auto simp: nth_append take_Cons')
  qed
  then show "l \<le> avail s" "hd (inp s) \<noteq> 0 \<or> l = 1" by simp_all
qed

section \<open>Headers\<close>

lemma byteval_simps [simp]:
  "stream_ok (s\<lparr>byteval := b\<rparr>) = stream_ok s" "avail (s\<lparr>byteval := b\<rparr>) = avail s"
  "adv n (s\<lparr>byteval := b\<rparr>) = (adv n s)\<lparr>byteval := b\<rparr>"
  by (simp_all add: stream_ok_def avail_def adv_def split: list.split)

lemma willRead_byteval: "willRead n (s\<lparr>byteval := b\<rparr>) = (case willRead n s of (r, s) \<Rightarrow> (r, s\<lparr>byteval := b\<rparr>))"
  by (simp add: willRead_def willRead_limit_def Let_def split: list.split)

lemma readFull_byteval: "readFull n (s\<lparr>byteval := b\<rparr>) = (case readFull n s of (r, s) \<Rightarrow> (r, s\<lparr>byteval := b\<rparr>))"
  by (cases "willRead n s") (auto simp: readFull_def sbind_def willRead_byteval split: outcome.split)

lemma readKind_long_byteval:
  "readKind_long k l (s\<lparr>byteval := b\<rparr>) = (case readKind_long k l s of (r, s) \<Rightarrow> (r, s\<lparr>byteval := b\<rparr>))"
  by (simp add: readKind_long_def readUint_def readByte_readFull readFull_byteval sbind_def Let_def sreturn_def
      sfail_def split: prod.split outcome.split)

lemma tag_string:
  fixes b :: byte
  shows "n < 56 \<Longrightarrow> b = 0x80 + word_of_nat n \<Longrightarrow>
    \<not> b < 0x80 \<and> b < 0xB8 \<and> (ucast (b - 0x80) :: u64) = word_of_nat n"
    and "1 \<le> n \<Longrightarrow> n \<le> 8 \<Longrightarrow> b = 0xB7 + word_of_nat n \<Longrightarrow>
    \<not> b < 0x80 \<and> \<not> b < 0xB8 \<and> b < 0xC0 \<and> b - 0xB7 = word_of_nat n"
  by (auto simp: word_less_nat_alt unat_byte_plus u64_of_byte)

lemma tag_list:
  fixes b :: byte
  shows "n < 56 \<Longrightarrow> b = 0xC0 + word_of_nat n \<Longrightarrow>
    \<not> b < 0x80 \<and> \<not> b < 0xB8 \<and> \<not> b < 0xC0 \<and> b < 0xF8 \<and> (ucast (b - 0xC0) :: u64) = word_of_nat n"
    and "1 \<le> n \<Longrightarrow> n \<le> 8 \<Longrightarrow> b = 0xF7 + word_of_nat n \<Longrightarrow>
    \<not> b < 0x80 \<and> \<not> b < 0xB8 \<and> \<not> b < 0xC0 \<and> \<not> b < 0xF8 \<and> b - 0xF7 = word_of_nat n"
  by (auto simp: word_less_nat_alt unat_byte_plus u64_of_byte)

lemma readKind_long_ok:
  assumes "stream_ok s" "inp s = big_Bytes n @ r" "length (big_Bytes n) \<le> avail s" "56 \<le> n" "n < 2 ^ 64"
  shows "readKind_long k (word_of_nat (length (big_Bytes n))) s
    = ((k, word_of_nat n, None), adv (length (big_Bytes n)) s)"
proof -
  have l: "1 \<le> length (big_Bytes n)" "length (big_Bytes n) \<le> 8"
    using assms big_Bytes_length_u64 [of n] by (auto simp: Suc_le_eq)
  have "hd (inp s) \<noteq> 0" using assms l hd_big_Bytes [of n] by (simp add: hd_append)
  with assms l have "readUint (word_of_nat (length (big_Bytes n))) s
      = (Ok (be_word (big_Bytes n)), adv (length (big_Bytes n)) s)"
    by (subst readUint_ok) auto
  moreover have "be_word (big_Bytes n) = word_of_nat n" by (simp add: be_word_nat_of_be)
  moreover have "\<not> (word_of_nat n :: u64) < 56" using assms by (simp add: word_less_nat_alt unat_of_nat)
  ultimately show ?thesis by (simp add: readKind_long_def)
qed

lemma readKind_long_imp:
  assumes "stream_ok s" "1 \<le> l" "l \<le> 8" "readKind_long k (word_of_nat l) s = ((k', sz, None), s')"
  obtains r where "inp s = big_Bytes (unat sz) @ r" "l = length (big_Bytes (unat sz))" "l \<le> avail s"
    "56 \<le> unat sz" "k' = k" "s' = adv l s"
proof -
  from assms(4) have u: "readUint (word_of_nat l) s = (Ok sz, s')" and sz: "\<not> sz < 56" and k: "k' = k"
    by (auto simp: readKind_long_def split: outcome.splits prod.splits if_splits)
  note imp = readUint_Ok_imp [OF assms(1-3) u]
  let ?b = "take l (inp s)"
  have *: "sz = be_word ?b" "s' = adv l s" using u readUint_ok [OF assms(1-3) imp] by simp_all
  have len: "length ?b = l" using imp(1) avail_le [OF assms(1)] by simp
  have "nat_of_be ?b < 256 ^ l" using nat_of_be_less [of ?b] len by simp
  also have "\<dots> \<le> 256 ^ 8" using assms by (intro power_increasing) auto
  finally have v: "unat sz = nat_of_be ?b" using * by (simp add: be_word_nat_of_be unat_of_nat)
  have ge: "56 \<le> unat sz" using sz by (simp add: word_less_nat_alt)
  have "hd ?b \<noteq> 0"
  proof
    assume z: "hd ?b = 0"
    then have "hd (inp s) = 0" using assms(2) len by (cases "inp s") (auto simp: take_Cons')
    then have "l = 1" using imp(2) by simp
    with len \<open>hd (inp s) = 0\<close> have "?b = [0]" by (cases "inp s") auto
    then show False using v ge by simp
  qed
  then have "?b = big_Bytes (unat sz)" using v len assms(2) big_Bytes_nat_of_be [of ?b] by auto
  then show thesis using that [of "drop l (inp s)"] * imp(1) ge k len
    by (metis append_take_drop_id)
qed

text \<open>The stream after a header of \<open>n\<close> bytes with its kind cached.\<close>

definition kind_state :: "Kind \<Rightarrow> u64 \<Rightarrow> byte \<Rightarrow> nat \<Rightarrow> Stream \<Rightarrow> Stream" where
  "kind_state k sz bv n s = (adv n s)\<lparr>skind := Some k, ssize := sz, byteval := bv, kinderr := None\<rparr>"

text \<open>The header of a value of kind \<open>k\<close> and size \<open>sz\<close>; a single byte is its own header.\<close>

definition header :: "Kind \<Rightarrow> u64 \<Rightarrow> byte \<Rightarrow> bytes \<Rightarrow> bool" where
  "header k sz bv h =
    (case k of
       KByte \<Rightarrow> h = [bv] \<and> bv < 0x80 \<and> sz = 0
     | KString \<Rightarrow> h = rlp_head 0x80 0xB7 (unat sz) \<and> bv = 0
     | KList \<Rightarrow> h = rlp_head 0xC0 0xF7 (unat sz) \<and> bv = 0)"

lemma rlp_head_long:
  "\<not> n < 56 \<Longrightarrow> rlp_head st lt n = (lt + word_of_nat (length (big_Bytes n))) # big_Bytes n"
  by (simp add: rlp_head_def)

lemma big_Bytes_u64_length:
  "\<not> unat (sz :: u64) < 56 \<Longrightarrow> 1 \<le> length (big_Bytes (unat sz)) \<and> length (big_Bytes (unat sz)) \<le> 8"
  using length_big_Bytes_u64 [of sz] by (auto simp: Suc_le_eq)

lemma Stream_readKind_ok:
  assumes "stream_ok s" "header k sz bv h" "inp s = h @ r" "length h \<le> avail s"
  shows "Stream_readKind s = ((k, sz, None), (adv (length h) s)\<lparr>byteval := bv\<rparr>)"
proof -
  have ne: "h \<noteq> []" using assms(2) by (auto simp: header_def rlp_head_def split: Kind.splits if_splits)
  then have rb: "readByte s = (Ok (hd h), adv 1 s)" and ok: "stream_ok (adv 1 s)" "avail (adv 1 s) = avail s - 1"
    using assms readByte_ok [of s] adv_ok [of s 1] by (cases h; simp)+
  have sz: "unat sz < 2 ^ 64" using unat_u64_less [of sz] by simp
  have long: "readKind_long k (word_of_nat (length (big_Bytes (unat sz)))) (adv 1 s)
      = ((k, sz, None), adv (length h) s)"
    if "\<not> unat sz < 56" "h = x # big_Bytes (unat sz)" for x
    using readKind_long_ok [OF ok(1), of "unat sz" r k] that assms ok(2) sz
    by (simp add: adv_adv) (simp add: adv_def)
  show ?thesis
  proof (cases k)
    case KByte
    then show ?thesis using assms(2) rb by (simp add: header_def Stream_readKind_def)
  next
    case KString
    show ?thesis
    proof (cases "unat sz < 56")
      case True
      then show ?thesis using KString assms(2) rb tag_string(1) [OF True refl]
        by (simp add: header_def Stream_readKind_def rlp_head_def)
    next
      case False
      then have "h = (0xB7 + word_of_nat (length (big_Bytes (unat sz)))) # big_Bytes (unat sz)" "bv = 0"
        using KString assms(2) by (simp_all add: header_def rlp_head_long)
      then show ?thesis
        using long [OF False] KString rb big_Bytes_u64_length [OF False]
          tag_string(2) [of "length (big_Bytes (unat sz))", OF _ _ refl]
        by (simp add: Stream_readKind_def readKind_long_byteval)
    qed
  next
    case KList
    show ?thesis
    proof (cases "unat sz < 56")
      case True
      then show ?thesis using KList assms(2) rb tag_list(1) [OF True refl]
        by (simp add: header_def Stream_readKind_def rlp_head_def)
    next
      case False
      then have "h = (0xF7 + word_of_nat (length (big_Bytes (unat sz)))) # big_Bytes (unat sz)" "bv = 0"
        using KList assms(2) by (simp_all add: header_def rlp_head_long)
      then show ?thesis
        using long [OF False] KList rb big_Bytes_u64_length [OF False]
          tag_list(2) [of "length (big_Bytes (unat sz))", OF _ _ refl]
        by (simp add: Stream_readKind_def readKind_long_byteval)
    qed
  qed
qed

lemma Stream_readKind_imp:
  assumes "stream_ok s" "Stream_readKind s = ((k, sz, None), s')"
  obtains bv h r where "header k sz bv h" "inp s = h @ r" "length h \<le> avail s"
    "s' = (adv (length h) s)\<lparr>byteval := bv\<rparr>"
proof -
  note found = that
  obtain b s1 where b: "readByte s = (Ok b, s1)"
    using assms(2) by (auto simp: Stream_readKind_def split: prod.splits outcome.splits)
  then have av: "1 \<le> avail s" using assms(1) readByte_Ok_imp by blast
  then obtain r where inp: "inp s = b # r" and s1: "s1 = adv 1 s"
    using b readByte_ok [OF assms(1)] avail_le [OF assms(1)] by (cases "inp s") auto
  have ok: "stream_ok (adv 1 s)" "avail (adv 1 s) = avail s - 1" using adv_ok [OF assms(1) av] by simp_all
  have long: thesis if l: "1 \<le> l" "l \<le> 8" and "readKind_long k' (word_of_nat l) (adv 1 s) = ((k, sz, None), s2)"
      "s' = s2\<lparr>byteval := 0\<rparr>" "k' = KString \<and> lt = 0xB7 \<or> k' = KList \<and> lt = 0xF7" "b = lt + word_of_nat l"
    for l k' s2 lt
  proof (rule readKind_long_imp [OF ok(1) l that(3)])
    fix q assume *: "inp (adv 1 s) = big_Bytes (unat sz) @ q" "l = length (big_Bytes (unat sz))"
      "l \<le> avail (adv 1 s)" "56 \<le> unat sz" "k = k'" "s2 = adv l (adv 1 s)"
    have "r = big_Bytes (unat sz) @ q" using *(1) inp by (simp add: adv_def)
    then show thesis using * that(4-6) inp av ok(2)
      by (intro found [of 0 "b # big_Bytes (unat sz)" q]) (auto simp: header_def rlp_head_long adv_adv)
  qed
  show thesis
  proof (cases b rule: tag_cases)
    case byte
    then show thesis using assms(2) b s1 inp av
      by (intro found [of b "[b]" r]) (auto simp: Stream_readKind_def header_def)
  next
    case (short_string n)
    note t = tag_string(1) [OF this]
    have "unat (word_of_nat n :: u64) = n" using short_string by (simp add: unat_of_nat)
    then show thesis using assms(2) b s1 inp av t short_string
      by (intro found [of 0 "[b]" r]) (auto simp: Stream_readKind_def header_def rlp_head_def)
  next
    case (short_list n)
    note t = tag_list(1) [OF this]
    have "unat (word_of_nat n :: u64) = n" using short_list by (simp add: unat_of_nat)
    then show thesis using assms(2) b s1 inp av t short_list
      by (intro found [of 0 "[b]" r]) (auto simp: Stream_readKind_def header_def rlp_head_def)
  next
    case (long_string l)
    note t = tag_string(2) [OF this]
    show thesis
      by (rule long [OF long_string(1,2), of KString "snd (readKind_long KString (word_of_nat l) (adv 1 s))" "0xB7"])
        (use assms(2) b s1 t long_string in
          \<open>auto simp: Stream_readKind_def readKind_long_byteval split: prod.splits\<close>)
  next
    case (long_list l)
    note t = tag_list(2) [OF this]
    show thesis
      by (rule long [OF long_list(1,2), of KList "snd (readKind_long KList (word_of_nat l) (adv 1 s))" "0xF7"])
        (use assms(2) b s1 t long_list in
          \<open>auto simp: Stream_readKind_def readKind_long_byteval split: prod.splits\<close>)
  qed
qed

lemma Stream_Kind_ok:
  assumes "stream_ok s" "skind s = None" "header k sz bv h" "inp s = h @ r" "length h + unat sz \<le> avail s"
  shows "Stream_Kind s = (Ok (k, sz), kind_state k sz bv (length h) s)"
proof -
  let ?s = "s\<lparr>kinderr := None\<rparr>" and ?t = "(adv (length h) s)\<lparr>byteval := bv, kinderr := None\<rparr>"
  have ok: "stream_ok ?s" "avail ?s = avail s" using assms(1) by (simp_all add: same_cong [of ?s s] same_def)
  have rk: "Stream_readKind ?s = ((k, sz, None), ?t)"
    using Stream_readKind_ok [OF ok(1) assms(3)] assms(4,5) ok(2) by (simp add: adv_def)
  have t: "stream_ok (adv (length h) s)" "avail (adv (length h) s) = avail s - length h"
    using adv_ok [OF assms(1)] assms(5) by simp_all
  have ne: "h \<noteq> []" using assms(3) by (auto simp: header_def rlp_head_def split: Kind.splits if_splits)
  have ks: "?t\<lparr>skind := Some k, ssize := sz\<rparr> = kind_state k sz bv (length h) s"
    by (simp add: kind_state_def)
  show ?thesis
  proof (cases "stack s")
    case Nil
    then have "\<not> remaining ?t < sz"
      using t assms(5) ne by (simp add: stream_ok_def avail_def word_less_nat_alt adv_def bump_def)
    then show ?thesis using assms(2) Nil rk ks
      by (simp add: Stream_Kind_def cached_Kind_def kind_state_def)
  next
    case (Cons top st)
    obtain p z where top: "top = (p, z)" by (cases top)
    have "p \<noteq> z" using assms(5) Cons top ne by (auto simp: avail_def)
    moreover have "\<not> snd (hd (stack ?t)) - fst (hd (stack ?t)) < sz"
      using t assms(5) ne Cons top
      by (simp add: stream_ok_def avail_def adv_def bump_def word_less_nat_alt unat_sub)
    ultimately show ?thesis using assms(2) Cons top rk ks
      by (simp add: Stream_Kind_def cached_Kind_def kind_state_def)
  qed
qed

lemma Stream_Kind_imp:
  assumes "stream_ok s" "skind s = None" "Stream_Kind s = (Ok (k, sz), s')"
  obtains bv h r where "header k sz bv h" "inp s = h @ r" "length h + unat sz \<le> avail s"
    "s' = kind_state k sz bv (length h) s"
proof -
  let ?s = "s\<lparr>kinderr := None\<rparr>"
  have ok: "stream_ok ?s" "avail ?s = avail s" using assms(1) by (simp_all add: same_cong [of ?s s] same_def)
  obtain k1 sz1 e s1 where rk: "Stream_readKind ?s = ((k1, sz1, e), s1)" by (metis prod_cases3 surj_pair)
  have "e = None \<and> k1 = k \<and> sz1 = sz \<and>
      (case stack s of [] \<Rightarrow> \<not> (limited s1 \<and> remaining s1 < sz)
         | _ \<Rightarrow> \<not> snd (hd (stack s1)) - fst (hd (stack s1)) < sz)"
    using assms(2,3) rk
    by (auto simp: Stream_Kind_def cached_Kind_def Let_def split: list.splits if_splits option.splits)
  then have rk': "Stream_readKind ?s = ((k, sz, None), s1)" and
    fit: "case stack s of [] \<Rightarrow> \<not> (limited s1 \<and> remaining s1 < sz)
         | _ \<Rightarrow> \<not> snd (hd (stack s1)) - fst (hd (stack s1)) < sz" using rk by simp_all
  from ok(1) rk' obtain bv h r where h: "header k sz bv h" "inp ?s = h @ r" "length h \<le> avail ?s"
      "s1 = (adv (length h) ?s)\<lparr>byteval := bv\<rparr>" by (rule Stream_readKind_imp)
  have t: "stream_ok (adv (length h) s)" "avail (adv (length h) s) = avail s - length h"
    using adv_ok [OF assms(1)] h(3) ok(2) by simp_all
  have "unat sz \<le> avail (adv (length h) s)"
  proof (cases "stack s")
    case Nil
    then show ?thesis using fit t(1) h(4)
      by (simp add: stream_ok_def avail_def word_less_nat_alt adv_def bump_def)
  next
    case (Cons top st)
    obtain p z where "top = (p, z)" by (cases top)
    then show ?thesis using fit t(1) h(4) Cons
      by (simp add: stream_ok_def avail_def word_less_nat_alt adv_def bump_def unat_sub)
  qed
  then have fits: "length h + unat sz \<le> avail s" using t(2) h(3) ok(2) by simp
  have inp: "inp s = h @ r" using h(2) by simp
  show thesis using that [OF h(1) inp fits] assms(3) Stream_Kind_ok [OF assms(1,2) h(1) inp fits] by simp
qed

lemma sbind_Err_iff:
  "sbind m f s = (Err e, s'') \<longleftrightarrow>
    m s = (Err e, s'') \<or> (\<exists>a s'. m s = (Ok a, s') \<and> f a s' = (Err e, s''))"
  by (auto simp: sbind_def split: outcome.splits prod.splits)

lemma readFull_EOL: "readFull n s \<noteq> (Err EOL, s')"
  by (auto simp: readFull_def sbind_Err_iff willRead_def willRead_limit_def Let_def
      split: list.splits if_splits)

lemma readUint_EOL: "readUint n s \<noteq> (Err EOL, s')"
  by (auto simp: readUint_def sbind_Err_iff readByte_readFull readFull_EOL Let_def sreturn_def sfail_def
      split: if_splits prod.splits outcome.splits)

lemma Stream_readKind_EOL: "Stream_readKind s = ((k, sz, Some e), s') \<Longrightarrow> e \<noteq> EOL"
  by (auto simp: Stream_readKind_def readKind_long_def readUint_EOL readByte_readFull readFull_EOL
      split: prod.splits outcome.splits if_splits)

lemma Stream_Kind_EOL:
  assumes "stream_ok s" "skind s = None"
  shows "Stream_Kind s = (Err EOL, s') \<longleftrightarrow> stack s \<noteq> [] \<and> avail s = 0 \<and> s' = s\<lparr>kinderr := None\<rparr>"
proof (cases "stack s")
  case Nil
  then show ?thesis using assms(2) Stream_readKind_EOL
    by (fastforce simp: Stream_Kind_def cached_Kind_def Let_def split: prod.splits option.splits if_splits)
next
  case (Cons top st)
  obtain p z where top: "top = (p, z)" by (cases top)
  have "p \<le> z" using assms(1) Cons top by (simp add: stream_ok_def)
  then have "avail s = 0 \<longleftrightarrow> p = z"
    using Cons top by (auto simp: avail_def word_le_nat_alt word_unat_eq_iff)
  then show ?thesis using Cons top assms(2) Stream_readKind_EOL
    by (fastforce simp: Stream_Kind_def cached_Kind_def Let_def split: prod.splits option.splits if_splits)
qed

section \<open>Operations and the encodings they accept\<close>

text \<open>
  \<open>accepts d E\<close>: \<open>d\<close> reads every \<open>e\<close> with \<open>E v e\<close> that fits, and returns \<open>v\<close>. \<open>sound d E\<close>: whatever \<open>d\<close>
  returns is \<open>E\<close>-related to the bytes it has read. \<open>at_end d\<close>: \<open>d\<close> reports \<open>EOL\<close> exactly at the end of
  the innermost list.
\<close>

definition accepts :: "'a reading \<Rightarrow> ('a \<Rightarrow> bytes \<Rightarrow> bool) \<Rightarrow> bool" where
  "accepts d E \<longleftrightarrow>
    (\<forall>s v e r. stream_ok s \<and> skind s = None \<and> E v e \<and> inp s = e @ r \<and> length e \<le> avail s \<longrightarrow>
      (\<exists>s'. d s = (Ok v, s') \<and> reads e s s'))"

definition sound :: "'a reading \<Rightarrow> ('a \<Rightarrow> bytes \<Rightarrow> bool) \<Rightarrow> bool" where
  "sound d E \<longleftrightarrow>
    (\<forall>s v s'. stream_ok s \<and> skind s = None \<and> d s = (Ok v, s') \<longrightarrow> (\<exists>e. E v e \<and> reads e s s'))"

definition at_end :: "'a reading \<Rightarrow> bool" where
  "at_end d \<longleftrightarrow>
    (\<forall>s. stream_ok s \<and> skind s = None \<longrightarrow>
      (stack s \<noteq> [] \<and> avail s = 0 \<longrightarrow> (\<exists>s'. d s = (Err EOL, s') \<and> same s' s)) \<and>
      (\<forall>s'. d s = (Err EOL, s') \<longrightarrow> stack s \<noteq> [] \<and> avail s = 0 \<and> same s' s))"

lemma kind_state_simps [simp]:
  "stream_ok (kind_state k sz bv n s) = stream_ok (adv n s)"
  "avail (kind_state k sz bv n s) = avail (adv n s)"
  "inp (kind_state k sz bv n s) = drop n (inp s)"
  "same (adv m (kind_state k sz bv n s)) (adv (n + m) s)"
  "same (rearm (kind_state k sz bv n s)) (adv n s)"
  "byteval (kind_state k sz bv n s) = bv"
  by (simp_all add: kind_state_def stream_ok_def avail_def adv_def same_def rearm_def add.commute
      split: list.split)

lemma same_readsI:
  "same s' (adv (length e) s) \<Longrightarrow> inp s = e @ r \<Longrightarrow> length e \<le> avail s \<Longrightarrow> reads e s s'"
  by (auto simp: reads_def)

lemma at_end_Kind:
  assumes "\<And>x s s'. f x s \<noteq> (Err EOL, s')"
  shows "at_end (sbind Stream_Kind f)"
  using assms Stream_Kind_EOL
  by (fastforce simp: at_end_def sbind_Err_iff same_def)

text \<open>Strings: after the header of a string, its content.\<close>

lemma after_string_header:
  assumes "stream_ok s" "inp s = h @ c @ r" "length c = unat sz" "length h + unat sz \<le> avail s"
  shows "readFull sz (kind_state k sz bv (length h) s) =
    (Ok c, adv (unat sz) (kind_state k sz bv (length h) s))"
  using assms adv_ok [OF assms(1), of "length h"]
  by (subst readFull_ok) simp_all

lemma string_content:
  assumes "stream_ok s" "inp s = h @ r" "length h + unat (sz :: u64) \<le> avail s"
  obtains c q where "r = c @ q" "length c = unat sz"
  using that [of "take (unat sz) r" "drop (unat sz) r"] avail_le [OF assms(1)] assms(2,3) by simp

lemma header_string: "n < 2 ^ 64 \<Longrightarrow> header KString (word_of_nat n) 0 (rlp_head 0x80 0xB7 n)"
  by (simp add: header_def unat_of_nat)

lemma header_list: "n < 2 ^ 64 \<Longrightarrow> header KList (word_of_nat n) 0 (rlp_head 0xC0 0xF7 n)"
  by (simp add: header_def unat_of_nat)

lemma accepts_Bytes: "accepts Stream_Bytes (\<lambda>b e. e = rlp_str b)"
  unfolding accepts_def
proof (intro allI impI, elim conjE)
  fix s b e r assume ok: "stream_ok s" "skind s = None" and e: "e = rlp_str b" "inp s = e @ r" "length e \<le> avail s"
  show "\<exists>s'. Stream_Bytes s = (Ok b, s') \<and> reads e s s'"
  proof (cases "length b = 1 \<and> hd b < 128")
    case True
    then obtain x where b: "b = [x]" "x < 128" by (cases b) auto
    then have "Stream_Kind s = (Ok (KByte, 0), kind_state KByte 0 x (length [x]) s)"
      using ok e by (intro Stream_Kind_ok) (auto simp: header_def rlp_str_def)
    then show ?thesis using b e
      by (auto simp: Stream_Bytes_def rlp_str_def intro!: same_readsI [of _ "[x]"])
  next
    case False
    let ?h = "rlp_head 0x80 0xB7 (length b)" and ?n = "word_of_nat (length b) :: u64"
    have e': "e = ?h @ b" using e False by (auto simp: rlp_str_def)
    have inp: "inp s = ?h @ b @ r" and le: "length ?h + length b \<le> avail s" using e(2,3) unfolding e' by simp_all
    then have lb: "length b < 2 ^ 64" using avail_le [OF ok(1)] length_inp_less [OF ok(1)] by linarith
    then have un: "unat ?n = length b" by (simp add: unat_of_nat)
    have k: "Stream_Kind s = (Ok (KString, ?n), kind_state KString ?n 0 (length ?h) s)"
      using ok inp le un header_string [OF lb] by (intro Stream_Kind_ok) auto
    have rf: "readFull ?n (kind_state KString ?n 0 (length ?h) s) =
        (Ok b, adv (length b) (kind_state KString ?n 0 (length ?h) s))"
      using after_string_header [OF ok(1) inp, of ?n] le un by simp
    have "\<not> (?n = 1 \<and> b ! 0 < 128)"
    proof
      assume "?n = 1 \<and> b ! 0 < 128"
      then have "length b = 1" using un by simp
      then show False using False \<open>?n = 1 \<and> b ! 0 < 128\<close> by (cases b) auto
    qed
    then show ?thesis using k rf inp le
      by (auto simp: Stream_Bytes_def sreturn_def e' intro!: same_readsI)
  qed
qed

lemma sound_Bytes: "sound Stream_Bytes (\<lambda>b e. e = rlp_str b)"
  unfolding sound_def
proof (intro allI impI, elim conjE)
  fix s b s' assume ok: "stream_ok s" "skind s = None" and d: "Stream_Bytes s = (Ok b, s')"
  then obtain k sz s1 where k: "Stream_Kind s = (Ok (k, sz), s1)" by (auto simp: Stream_Bytes_def sbind_Ok_iff)
  then obtain bv h r where h: "header k sz bv h" "inp s = h @ r" "length h + unat sz \<le> avail s"
    "s1 = kind_state k sz bv (length h) s" using ok Stream_Kind_imp by metis
  show "\<exists>e. e = rlp_str b \<and> reads e s s'"
  proof (cases k)
    case KByte
    then show ?thesis using d k h
      by (auto simp: Stream_Bytes_def header_def rlp_str_def intro!: same_readsI)
  next
    case KString
    obtain c q where c: "r = c @ q" "length c = unat sz" using ok(1) h(2,3) by (rule string_content)
    have rf: "readFull sz s1 = (Ok c, adv (unat sz) s1)"
      using after_string_header [OF ok(1), of h c q sz] h c by simp
    then have b: "b = c" "s' = adv (unat sz) s1" "\<not> (sz = 1 \<and> c ! 0 < 128)"
      using d k KString by (auto simp: Stream_Bytes_def sreturn_def sfail_def split: if_splits)
    then have "\<not> (length b = 1 \<and> hd b < 128)"
      using c(2) by (cases b) (auto simp: word_unat_eq_iff)
    then have "rlp_str b = h @ c" using h(1) KString b(1) c(2) by (auto simp: rlp_str_def header_def)
    then show ?thesis using b h c by (auto intro!: same_readsI)
  next
    case KList
    then show ?thesis using d k by (auto simp: Stream_Bytes_def)
  qed
qed

lemma at_end_Bytes: "at_end Stream_Bytes"
  unfolding Stream_Bytes_def
  by (rule at_end_Kind)
    (auto simp: sfail_def sbind_Err_iff readFull_EOL sreturn_def split: Kind.splits if_splits prod.splits)

text \<open>Unsigned integers.\<close>

lemma rlp_nat_byte: "(b :: byte) \<noteq> 0 \<Longrightarrow> b < 0x80 \<Longrightarrow> rlp_nat (unat b) = [b]"
  using unat_byte_less [of b]
  by (subst big_Bytes_small) (auto simp: unat_gt_0 rlp_str_def)

lemma rlp_nat_string:
  assumes "128 \<le> n"
  shows "rlp_nat n = rlp_head 0x80 0xB7 (length (big_Bytes n)) @ big_Bytes n"
proof -
  have "\<not> (length (big_Bytes n) = 1 \<and> hd (big_Bytes n) < 128)"
  proof
    assume *: "length (big_Bytes n) = 1 \<and> hd (big_Bytes n) < 128"
    then obtain x where "big_Bytes n = [x]" by (auto simp: length_Suc_conv)
    then have "unat x = n" "x < 128" using nat_of_big_Bytes [of n] * by simp_all
    then show False using assms by (simp add: word_less_nat_alt)
  qed
  then show ?thesis by (auto simp: rlp_str_def)
qed

lemma be_word_big_Bytes: "be_word (big_Bytes (unat (v :: u64))) = v"
  by (simp add: be_word_nat_of_be)

definition uint_enc :: "nat \<Rightarrow> u64 \<Rightarrow> bytes \<Rightarrow> bool" where
  "uint_enc bits v e \<longleftrightarrow> e = rlp_nat (unat v) \<and> length (big_Bytes (unat v)) \<le> bits div 8"

lemma accepts_uint:
  assumes "bits \<le> 64"
  shows "accepts (Stream_uint bits) (uint_enc bits)"
  unfolding accepts_def
proof (intro allI impI, elim conjE)
  fix s v e r assume ok: "stream_ok s" "skind s = None"
    and e: "uint_enc bits v e" "inp s = e @ r" "length e \<le> avail s"
  let ?l = "length (big_Bytes (unat v))"
  have l: "?l \<le> bits div 8" "?l \<le> 8" "e = rlp_nat (unat v)"
    using e(1) length_big_Bytes_u64 [of v] by (simp_all add: uint_enc_def)
  consider "v = 0" | "v \<noteq> 0" "unat v < 128" | "128 \<le> unat v" by linarith
  then show "\<exists>s'. Stream_uint bits s = (Ok v, s') \<and> reads e s s'"
  proof cases
    case 1
    then have "e = [0x80]" using l by (simp add: rlp_str_Nil)
    then have "Stream_Kind s = (Ok (KString, 0), kind_state KString 0 0 (length [0x80 :: byte]) s)"
      using ok e by (intro Stream_Kind_ok) (auto simp: header_def rlp_head_def)
    moreover have "\<not> (0 :: u64) > word_of_nat (bits div 8)" by simp
    ultimately show ?thesis using e 1 \<open>e = [0x80]\<close>
      by (auto simp: Stream_uint_def readUint_def kind_state_def same_def adv_def intro!: same_readsI)
  next
    case 2
    let ?b = "ucast v :: byte"
    have ub: "unat ?b = unat v" using 2 by (simp add: unsigned_ucast_eq take_bit_eq_mod)
    then have b: "?b \<noteq> 0" "?b < 0x80" "(ucast ?b :: u64) = v"
      using 2 by (auto simp: word_unat_eq_iff word_less_nat_alt unsigned_ucast_eq take_bit_eq_mod unat_mod)
    then have "e = [?b]" using rlp_nat_byte [of ?b] ub l by simp
    then have "Stream_Kind s = (Ok (KByte, 0), kind_state KByte 0 ?b (length [?b]) s)"
      using ok e b by (intro Stream_Kind_ok) (auto simp: header_def)
    then show ?thesis using e b \<open>e = [?b]\<close> by (auto simp: Stream_uint_def intro!: same_readsI)
  next
    case 3
    let ?h = "rlp_head 0x80 0xB7 ?l" and ?n = "word_of_nat ?l :: u64"
    have inp: "inp s = ?h @ big_Bytes (unat v) @ r" and le: "length ?h + ?l \<le> avail s"
      using e(2,3) l(3) rlp_nat_string [OF 3] by simp_all
    have n: "unat ?n = ?l" "(ucast ?n :: byte) = word_of_nat ?l" "1 \<le> ?l" "\<not> ?n > word_of_nat (bits div 8)"
      using l assms 3 by (auto simp: unat_of_nat word_less_nat_alt word_unat_eq_iff unsigned_ucast_eq
          take_bit_eq_mod Suc_le_eq)
    have "Stream_Kind s = (Ok (KString, ?n), kind_state KString ?n 0 (length ?h) s)"
      using ok inp le n l header_string [of ?l] by (intro Stream_Kind_ok) auto
    moreover have "readUint (word_of_nat ?l) (kind_state KString ?n 0 (length ?h) s)
        = (Ok v, adv ?l (kind_state KString ?n 0 (length ?h) s))"
      using l(2) n(3) inp le adv_ok [OF ok(1), of "length ?h"] hd_big_Bytes [of "unat v"] 3
      by (subst readUint_ok) (auto simp: be_word_big_Bytes hd_append)
    ultimately show ?thesis using n(2,4) 3 inp le l(3) rlp_nat_string [OF 3]
      by (auto simp: Stream_uint_def word_less_nat_alt intro!: same_readsI)
  qed
qed

lemma big_Bytes_be_word:
  assumes "c \<noteq> []" "length c \<le> 8" "hd c \<noteq> 0"
  shows "big_Bytes (unat (be_word c)) = c"
proof -
  have "nat_of_be c < 256 ^ length c" by (rule nat_of_be_less)
  also have "\<dots> \<le> 256 ^ 8" using assms by (intro power_increasing) auto
  finally have "unat (be_word c) = nat_of_be c" by (simp add: be_word_nat_of_be unat_of_nat)
  then show ?thesis using assms big_Bytes_nat_of_be [of c] by simp
qed

lemma sound_uint:
  assumes "8 \<le> bits" "bits \<le> 64"
  shows "sound (Stream_uint bits) (uint_enc bits)"
  unfolding sound_def
proof (intro allI impI, elim conjE)
  fix s v s' assume ok: "stream_ok s" "skind s = None" and d: "Stream_uint bits s = (Ok v, s')"
  then obtain k sz s1 where k: "Stream_Kind s = (Ok (k, sz), s1)" by (auto simp: Stream_uint_def sbind_Ok_iff)
  then obtain bv h r where h: "header k sz bv h" "inp s = h @ r" "length h + unat sz \<le> avail s"
    "s1 = kind_state k sz bv (length h) s" using ok Stream_Kind_imp by metis
  have ok1: "stream_ok s1" "avail s1 = avail s - length h" "inp s1 = r"
    using adv_ok [OF ok(1), of "length h"] h by simp_all
  show "\<exists>e. uint_enc bits v e \<and> reads e s s'"
  proof (cases k)
    case KByte
    then have *: "bv \<noteq> 0" "bv < 0x80" "h = [bv]" "v = ucast bv" "s' = rearm s1"
      using d k h by (auto simp: Stream_uint_def header_def split: if_splits)
    have "unat v = unat bv" using * unat_byte_less [of bv] by (simp add: unsigned_ucast_eq take_bit_eq_mod)
    moreover have "length (big_Bytes (unat bv)) = 1" using * unat_byte_less [of bv]
      by (subst big_Bytes_small) (auto simp: unat_gt_0)
    ultimately have "uint_enc bits v [bv]" using assms * rlp_nat_byte [of bv] by (simp add: uint_enc_def)
    then show ?thesis using * h by (auto intro!: same_readsI)
  next
    case KString
    then have sz: "\<not> word_of_nat (bits div 8) < sz" and u: "readUint (ucast sz) s1 = (Ok v, s')"
        and small: "\<not> (0 < sz \<and> v < 128)"
      using d k by (auto simp: Stream_uint_def split: if_splits outcome.splits prod.splits)
    have le: "unat sz \<le> bits div 8" "unat sz \<le> 8" using sz assms by (simp_all add: word_less_nat_alt unat_of_nat)
    have hh: "h = rlp_head 0x80 0xB7 (unat sz)" using h(1) KString by (simp add: header_def)
    show ?thesis
    proof (cases "sz = 0")
      case True
      then have "v = 0" "s' = s1\<lparr>skind := None\<rparr>" "h = [0x80]"
        using u hh by (auto simp: readUint_def rlp_head_def)
      then show ?thesis using h True
        by (intro exI [of _ "[0x80]"]) (auto simp: uint_enc_def rlp_str_Nil kind_state_def same_def adv_def intro!: same_readsI)
    next
      case False
      then have l: "1 \<le> unat sz" by (simp add: Suc_le_eq unat_gt_0)
      have u': "readUint (word_of_nat (unat sz)) s1 = (Ok v, s')" using u by simp
      note imp = readUint_Ok_imp [OF ok1(1) l le(2) u']
      obtain c q where c: "r = c @ q" "length c = unat sz" using ok(1) h(2,3) by (rule string_content)
      have v: "v = be_word c" "s' = adv (unat sz) s1"
        using readUint_ok [OF ok1(1) l le(2) imp] u' ok1(3) c by simp_all
      have "hd c \<noteq> 0"
      proof
        assume z: "hd c = 0"
        then have "unat sz = 1" using imp(2) ok1(3) c l by (cases c) auto
        then have "c = [0]" using c z by (cases c) auto
        then show False using v small False by (simp add: be_word_def word_gt_0)
      qed
      then have big: "big_Bytes (unat v) = c" using v c le l big_Bytes_be_word [of c] by (cases c) auto
      have "0 < sz" using False by (simp add: word_gt_0)
      then have "128 \<le> unat v" using small by (simp add: word_less_nat_alt)
      then have "uint_enc bits v (h @ c)" using rlp_nat_string [of "unat v"] big c le hh by (simp add: uint_enc_def)
      then show ?thesis using v h c by (auto intro!: same_readsI exI [of _ "h @ c"])
    qed
  next
    case KList
    then show ?thesis using d k by (auto simp: Stream_uint_def)
  qed
qed

lemma at_end_uint: "at_end (Stream_uint bits)"
  unfolding Stream_uint_def
  by (rule at_end_Kind)
    (auto simp: sfail_def readUint_EOL split: Kind.splits if_splits prod.splits outcome.splits)

text \<open>Byte arrays. An array of one byte is left out: its decoder forgets to move on (see below).\<close>

lemma accepts_ByteArray:
  assumes "n \<noteq> 1"
  shows "accepts (decodeByteArray n) (\<lambda>v e. \<exists>b. v = VBytes b \<and> length b = n \<and> e = rlp_str b)"
  unfolding accepts_def
proof (intro allI impI, elim conjE exE)
  fix s v e r b assume ok: "stream_ok s" "skind s = None"
    and e: "inp s = e @ r" "length e \<le> avail s" "v = VBytes b" "length b = n" "e = rlp_str b"
  let ?h = "rlp_head 0x80 0xB7 n" and ?n = "word_of_nat n :: u64"
  have inp: "inp s = ?h @ b @ r" and le: "length ?h + n \<le> avail s" using e assms by (auto simp: rlp_str_def)
  then have lb: "n < 2 ^ 64" using avail_le [OF ok(1)] length_inp_less [OF ok(1)] by linarith
  then have un: "unat ?n = n" by (simp add: unat_of_nat)
  have k: "Stream_Kind s = (Ok (KString, ?n), kind_state KString ?n 0 (length ?h) s)"
    using ok inp le un header_string [OF lb] by (intro Stream_Kind_ok) auto
  have rf: "readFull ?n (kind_state KString ?n 0 (length ?h) s) = (Ok b, adv n (kind_state KString ?n 0 (length ?h) s))"
    using after_string_header [OF ok(1) inp, of ?n] le un e by simp
  have "?n \<noteq> 1" using un assms by auto
  then show "\<exists>s'. decodeByteArray n s = (Ok v, s') \<and> reads e s s'" using k rf inp le e assms
    by (auto simp: decodeByteArray_def sreturn_def rlp_str_def intro!: same_readsI)
qed

lemma sound_ByteArray:
  assumes "n \<noteq> 1" "n < 2 ^ 64"
  shows "sound (decodeByteArray n) (\<lambda>v e. \<exists>b. v = VBytes b \<and> length b = n \<and> e = rlp_str b)"
  unfolding sound_def
proof (intro allI impI, elim conjE)
  fix s v s' assume ok: "stream_ok s" "skind s = None" and d: "decodeByteArray n s = (Ok v, s')"
  then obtain k sz s1 where k: "Stream_Kind s = (Ok (k, sz), s1)" by (auto simp: decodeByteArray_def sbind_Ok_iff)
  then obtain bv h r where h: "header k sz bv h" "inp s = h @ r" "length h + unat sz \<le> avail s"
    "s1 = kind_state k sz bv (length h) s" using ok Stream_Kind_imp by metis
  have ks: "k = KString" "sz = word_of_nat n"
    using d k assms by (auto simp: decodeByteArray_def not_less split: Kind.splits if_splits)
  then have un: "unat sz = n" using assms(2) by (simp add: unat_of_nat)
  obtain c q where c: "r = c @ q" "length c = unat sz" using ok(1) h(2,3) by (rule string_content)
  have rf: "readFull sz s1 = (Ok c, adv (unat sz) s1)"
    using after_string_header [OF ok(1), of h c q sz] h c by simp
  then have "v = VBytes c" "s' = adv (unat sz) s1"
    using d k ks un by (auto simp: decodeByteArray_def sreturn_def sfail_def split: if_splits)
  moreover have "rlp_str c = h @ c" using h(1) ks c un assms(1) by (auto simp: rlp_str_def header_def)
  ultimately show "\<exists>e. (\<exists>b. v = VBytes b \<and> length b = n \<and> e = rlp_str b) \<and> reads e s s'"
    using h c un by (auto intro!: same_readsI exI [of _ "h @ c"])
qed

lemma at_end_ByteArray: "at_end (decodeByteArray n)"
  unfolding decodeByteArray_def
  by (rule at_end_Kind)
    (auto simp: sfail_def sbind_Err_iff readFull_EOL sreturn_def wrapStreamError_def
      split: Kind.splits if_splits prod.splits outcome.splits)

section \<open>Lists\<close>

lemma Stream_List_ok:
  assumes "stream_ok s" "skind s = None" "inp s = rlp_list c @ r" "length (rlp_list c) \<le> avail s"
  obtains t where "Stream_List s = (Ok (word_of_nat (length c)), t)" "stream_ok t" "skind t = None"
    "inp t = c @ r" "avail t = length c"
    "stack t = (0, word_of_nat (length c)) # bump (length (rlp_list c) - length c) (stack s)"
    "remaining t = remaining s - word_of_nat (length (rlp_list c) - length c)" "limited t"
proof -
  let ?h = "rlp_head 0xC0 0xF7 (length c)" and ?n = "word_of_nat (length c) :: u64"
  have inp: "inp s = ?h @ c @ r" and le: "length ?h + length c \<le> avail s" using assms(3,4) by (simp_all add: rlp_list_def)
  then have lc: "length c < 2 ^ 64" using avail_le [OF assms(1)] length_inp_less [OF assms(1)] by linarith
  then have un: "unat ?n = length c" by (simp add: unat_of_nat)
  have k: "Stream_Kind s = (Ok (KList, ?n), kind_state KList ?n 0 (length ?h) s)"
    using assms inp le un header_list [OF lc] by (intro Stream_Kind_ok) auto
  have ok: "stream_ok (adv (length ?h) s)" using adv_ok [OF assms(1)] le by simp
  show thesis
    by (rule that) (use k ok un inp le avail_le [OF assms(1)] in
      \<open>auto simp: Stream_List_def kind_state_def stream_ok_def avail_def adv_def rlp_list_def\<close>)
qed

lemma Stream_List_imp:
  assumes "stream_ok s" "skind s = None" "Stream_List s = (Ok sz, t)"
  obtains c r where "inp s = rlp_list c @ r" "length (rlp_list c) \<le> avail s" "sz = word_of_nat (length c)"
    "length c = unat sz"
proof -
  obtain k sz' s1 where k: "Stream_Kind s = (Ok (k, sz'), s1)"
    using assms(3) by (auto simp: Stream_List_def sbind_Ok_iff)
  then obtain bv h r where h: "header k sz' bv h" "inp s = h @ r" "length h + unat sz' \<le> avail s"
    using assms(1,2) Stream_Kind_imp by metis
  have "k = KList" "sz' = sz" using assms(3) k by (auto simp: Stream_List_def split: if_splits)
  moreover obtain c q where c: "r = c @ q" "length c = unat sz'" using assms(1) h(2,3) by (rule string_content)
  ultimately show thesis using h c
    by (intro that [of c q]) (auto simp: rlp_list_def header_def)
qed

text \<open>The body of a list works on the stream between \<open>List\<close> and \<open>ListEnd\<close>.\<close>

definition in_list :: "bytes \<Rightarrow> Stream \<Rightarrow> bool" where
  "in_list c s \<longleftrightarrow> stream_ok s \<and> skind s = None \<and> stack s \<noteq> [] \<and> avail s = length c \<and> (\<exists>r. inp s = c @ r)"

lemma Stream_ListEnd_iff:
  assumes "stream_ok s" "stack s = (p, z) # st"
  shows "Stream_ListEnd s = (Ok (), s') \<longleftrightarrow>
    avail s = 0 \<and> s' = s\<lparr>stack := bump (unat z) st, skind := None, ssize := 0\<rparr>"
proof -
  have "avail s = 0 \<longleftrightarrow> p = z"
    using assms by (auto simp: stream_ok_def avail_def word_le_nat_alt word_unat_eq_iff)
  then show ?thesis using assms(2) by (auto simp: Stream_ListEnd_def bump_def split: list.split)
qed

lemma list_closed:
  assumes s: "stream_ok s" "inp s = rlp_list c @ r" "length (rlp_list c) \<le> avail s"
    and t: "stack t = (0, word_of_nat (length c)) # bump (length (rlp_list c) - length c) (stack s)"
      "remaining t = remaining s - word_of_nat (length (rlp_list c) - length c)" "limited t" "inp t = c @ r"
    and u: "reads c t u"
  shows "reads (rlp_list c) s (u\<lparr>stack := bump (length c) (bump (length (rlp_list c) - length c) (stack s)),
    skind := None, ssize := x\<rparr>)"
proof -
  have "limited s" using s(1) by (simp add: stream_ok_def)
  moreover have "length c \<le> length (rlp_list c)" by (simp add: rlp_list_def)
  moreover have "remaining u = remaining t - word_of_nat (length c)" "inp u = r" "limited u"
    using u t by (simp_all add: reads_def same_def adv_def)
  moreover have "remaining s - word_of_nat (length (rlp_list c) - length c) - word_of_nat (length c)
      = remaining s - word_of_nat (length (rlp_list c))"
    using calculation(2) by (simp add: algebra_simps flip: of_nat_add)
  ultimately show ?thesis using s t by (simp add: reads_def same_def adv_def)
qed

lemma word_of_length: "stream_ok s \<Longrightarrow> length (rlp_list c) \<le> avail s \<Longrightarrow>
    unat (word_of_nat (length c) :: u64) = length c"
  using avail_le [of s] length_inp_less [of s] by (simp add: rlp_list_def unat_of_nat)

text \<open>What the decoders of slices, arrays and structs have in common.\<close>

definition list_frame :: "(rlp_error \<Rightarrow> rlp_error) \<Rightarrow> (u64 \<Rightarrow> 'a reading) \<Rightarrow> 'a reading" where
  "list_frame g body =
    sbind (swrap wrapStreamError Stream_List) (\<lambda>sz.
    sbind (body sz) (\<lambda>v.
    sbind (swrap g Stream_ListEnd) (\<lambda>_. sreturn v)))"

lemma sbind_swrap_Ok: "m s = (Ok a, s') \<Longrightarrow> sbind (swrap g m) f s = f a s'"
  by (simp add: sbind_def swrap_def)

lemma reads_stack: "reads c t u \<Longrightarrow> stack u = bump (length c) (stack t)"
  by (simp add: reads_def same_def adv_def)

lemma accepts_frame:
  assumes "\<And>s v c. in_list c s \<Longrightarrow> E v c \<Longrightarrow> \<exists>s'. body (word_of_nat (length c)) s = (Ok v, s') \<and> reads c s s'"
  shows "accepts (list_frame g body) (\<lambda>v e. \<exists>c. E v c \<and> e = rlp_list c)"
  unfolding accepts_def
proof (intro allI impI, elim conjE exE)
  fix s v e r c assume ok: "stream_ok s" "skind s = None"
    and e: "inp s = e @ r" "length e \<le> avail s" "E v c" "e = rlp_list c"
  from Stream_List_ok [OF ok e(1,2) [unfolded e(4)]]
  obtain t where t: "Stream_List s = (Ok (word_of_nat (length c)), t)" "stream_ok t" "skind t = None"
    "inp t = c @ r" "avail t = length c"
    "stack t = (0, word_of_nat (length c)) # bump (length (rlp_list c) - length c) (stack s)"
    "remaining t = remaining s - word_of_nat (length (rlp_list c) - length c)" "limited t" .
  have "in_list c t" using t by (simp add: in_list_def)
  then obtain u where u: "body (word_of_nat (length c)) t = (Ok v, u)" "reads c t u"
    using assms e(3) by blast
  note uok = reads_ok [OF t(2) u(2)]
  let ?s = "u\<lparr>stack := bump (length c) (bump (length (rlp_list c) - length c) (stack s)), skind := None, ssize := 0\<rparr>"
  have "stack u = (0 + word_of_nat (length c), word_of_nat (length c)) # bump (length (rlp_list c) - length c) (stack s)"
    using reads_stack [OF u(2)] t(6) by (simp add: bump_def [of _ "_ # _"])
  then have "Stream_ListEnd u = (Ok (), ?s)"
    using Stream_ListEnd_iff [OF uok(1)] uok(2) t(5) word_of_length [OF ok(1)] e(2,4) by simp
  moreover have "reads e s ?s" unfolding e(4) using ok e t u(2) by (intro list_closed) simp_all
  ultimately show "\<exists>s'. list_frame g body s = (Ok v, s') \<and> reads e s s'"
    using t(1) u(1) by (auto simp: list_frame_def sbind_swrap_Ok sreturn_def)
qed

lemma sound_frame:
  assumes "\<And>s v c s'. in_list c s \<Longrightarrow> body (word_of_nat (length c)) s = (Ok v, s') \<Longrightarrow> \<exists>c'. E v c' \<and> reads c' s s'"
  shows "sound (list_frame g body) (\<lambda>v e. \<exists>c. E v c \<and> e = rlp_list c)"
  unfolding sound_def
proof (intro allI impI, elim conjE)
  fix s v s' assume ok: "stream_ok s" "skind s = None" and d: "list_frame g body s = (Ok v, s')"
  then obtain sz t u where d: "Stream_List s = (Ok sz, t)" "body sz t = (Ok v, u)" "Stream_ListEnd u = (Ok (), s')"
    by (auto simp: list_frame_def sbind_Ok_iff)
  then obtain c r where e: "inp s = rlp_list c @ r" "length (rlp_list c) \<le> avail s" "sz = word_of_nat (length c)"
    using ok Stream_List_imp by metis
  from Stream_List_ok [OF ok e(1,2)] obtain t' where t': "Stream_List s = (Ok (word_of_nat (length c)), t')"
    and t: "stream_ok t'" "skind t' = None" "inp t' = c @ r" "avail t' = length c"
      "stack t' = (0, word_of_nat (length c)) # bump (length (rlp_list c) - length c) (stack s)"
      "remaining t' = remaining s - word_of_nat (length (rlp_list c) - length c)" "limited t'" .
  have "t' = t" using t' d(1) by simp
  note t = t [unfolded this]
  then have "in_list c t" by (simp add: in_list_def)
  then obtain c' where c': "E v c'" "reads c' t u" using assms d(2) e(3) by blast
  note uok = reads_ok [OF t(1) c'(2)]
  have st: "stack u = (0 + word_of_nat (length c'), word_of_nat (length c)) # bump (length (rlp_list c) - length c) (stack s)"
    using reads_stack [OF c'(2)] t(5) by (simp add: bump_def [of _ "_ # _"])
  then have "avail u = 0" and s': "s' = u\<lparr>stack := bump (length c) (bump (length (rlp_list c) - length c) (stack s)),
      skind := None, ssize := 0\<rparr>"
    using Stream_ListEnd_iff [OF uok(1) st, of s'] d(3) word_of_length [OF ok(1) e(2)] by simp_all
  then have "length c' = length c" using uok(2) t(4) c'(2) by (simp add: reads_def)
  then have "c' = c" using c'(2) t(3) by (auto simp: reads_def)
  then have "reads (rlp_list c) s s'" unfolding s' using ok e t c'(2) by (intro list_closed) simp_all
  then show "\<exists>e. (\<exists>c. E v c \<and> e = rlp_list c) \<and> reads e s s'" using c'(1) \<open>c' = c\<close> by blast
qed

lemma at_end_frame:
  assumes "\<And>sz s s'. body sz s \<noteq> (Err EOL, s')" "\<And>e. g e = EOL \<Longrightarrow> e = EOL"
  shows "at_end (list_frame g body)"
proof -
  have w: "wrapStreamError e = EOL \<longleftrightarrow> e = EOL" for e by (cases e) (simp_all add: wrapStreamError_def)
  have le: "Stream_ListEnd s \<noteq> (Err e, s')" if "g e = EOL" for s s' e
    using assms(2) [OF that] by (auto simp: Stream_ListEnd_def split: list.splits if_splits)
  have "list_frame g body s = (Err EOL, s') \<longleftrightarrow> Stream_Kind s = (Err EOL, s')" for s s'
    using assms(1) le w
    by (auto simp: list_frame_def sbind_Err_iff swrap_Err_iff Stream_List_def sreturn_def split: if_splits)
  then show ?thesis using Stream_Kind_EOL by (fastforce simp: at_end_def same_def)
qed

end
