(* ===== verification/RlpDecodeTypes.thy ===== *)
theory RlpDecodeTypes
  imports RlpDecodeSpec
begin

text \<open>
  The decoders of composite values (slices, arrays) accept exactly the sequences their element
  decoders accept; which types are decodable and which values are well typed; encodings of well-typed
  values. Used by \<open>RlpRoundtrip\<close>.
\<close>

section \<open>Sequences of elements\<close>

fun elems :: "('a \<Rightarrow> bytes \<Rightarrow> bool) \<Rightarrow> 'a list \<Rightarrow> bytes \<Rightarrow> bool" where
  "elems E [] c = (c = [])"
| "elems E (v # vs) c = (\<exists>e d. E v e \<and> c = e @ d \<and> elems E vs d)"

lemma reads_Nil: "skind s = None \<Longrightarrow> same s' s \<Longrightarrow> reads [] s s'"
  by (auto simp: reads_def same_def adv_def bump_def split: list.split)

lemma reads_in_list:
  assumes "in_list (e @ d) s" "reads e s s'"
  shows "in_list d s'"
proof -
  have "stream_ok s" using assms(1) by (simp add: in_list_def)
  note r = reads_ok [OF this assms(2)]
  obtain q where "inp s = (e @ d) @ q" using assms(1) by (auto simp: in_list_def)
  then have "inp s' = d @ q" using assms(2) by (auto simp: reads_def same_def adv_def)
  moreover have "stack s' \<noteq> []" using assms reads_stack [OF assms(2)]
    by (auto simp: in_list_def bump_def split: list.splits)
  ultimately show ?thesis using r assms(1) by (simp add: in_list_def)
qed

lemma SliceElems_loop_accepts:
  assumes "accepts d E" "at_end d"
  shows "in_list c s \<Longrightarrow> elems E vs c \<Longrightarrow> length vs < n \<Longrightarrow>
    \<exists>s'. decodeSliceElems_loop n d i s = (Ok vs, s') \<and> reads c s s'"
proof (induction vs arbitrary: n c s i)
  case Nil
  then obtain s' where "d s = (Err EOL, s')" "same s' s" "skind s = None"
    using assms(2) by (auto simp: at_end_def in_list_def)
  then show ?case using Nil by (cases n) (auto intro: reads_Nil)
next
  case (Cons v vs)
  then obtain e f where e: "E v e" "c = e @ f" "elems E vs f" by auto
  then obtain s1 where s1: "d s = (Ok v, s1)" "reads e s s1"
    using Cons.prems(1) assms(1) unfolding accepts_def in_list_def
    by (metis append.assoc le_add1 length_append)
  obtain m where n: "n = Suc m" "length vs < m" using Cons.prems(3) by (cases n) auto
  obtain s2 where "decodeSliceElems_loop m d (i + 1) s1 = (Ok vs, s2)" "reads f s1 s2"
    using Cons.IH [OF reads_in_list [OF Cons.prems(1) [unfolded e(2)] s1(2)] e(3) n(2)] by blast
  then show ?case using s1 n e(2) reads_trans [OF _ s1(2)] Cons.prems(1)
    by (auto simp: sreturn_def in_list_def)
qed

lemma elems_length: "elems E vs c \<Longrightarrow> (\<And>v e. E v e \<Longrightarrow> e \<noteq> []) \<Longrightarrow> length vs \<le> length c"
proof (induction vs arbitrary: c)
  case (Cons v vs)
  then obtain e f where e: "E v e" "c = e @ f" "elems E vs f" by auto
  then have "length vs \<le> length f" "e \<noteq> []" using Cons by auto
  then show ?case using e by (cases e) auto
qed simp

lemma SliceElems_accepts:
  assumes "accepts d E" "at_end d" "\<And>v e. E v e \<Longrightarrow> e \<noteq> []" "in_list c s" "elems E vs c"
  shows "\<exists>s'. decodeSliceElems d s = (Ok vs, s') \<and> reads c s s'"
proof -
  have "length vs \<le> length c" using assms(3,5) elems_length by blast
  also have "\<dots> \<le> length (inp s)" using assms(4) by (auto simp: in_list_def)
  finally show ?thesis
    using SliceElems_loop_accepts [OF assms(1,2,4,5), of "Suc (Suc (length (inp s)))" 0]
    by (simp add: decodeSliceElems_def del: decodeSliceElems_loop.simps)
qed

lemma SliceElems_loop_sound:
  assumes "sound d E" "at_end d"
  shows "stream_ok s \<Longrightarrow> skind s = None \<Longrightarrow> decodeSliceElems_loop n d i s = (Ok vs, s') \<Longrightarrow>
    \<exists>c. elems E vs c \<and> reads c s s'"
proof (induction n arbitrary: s i vs)
  case (Suc n)
  from Suc.prems(3) consider (eol) "d s = (Err EOL, s')" "vs = []"
    | (elem) v s1 ws where "d s = (Ok v, s1)" "decodeSliceElems_loop n d (i + 1) s1 = (Ok ws, s')" "vs = v # ws"
    by (auto simp: sbind_Ok_iff split: prod.splits outcome.splits if_splits)
  then show ?case
  proof cases
    case eol
    then show ?thesis using assms(2) Suc.prems by (auto simp: at_end_def intro: reads_Nil)
  next
    case elem
    then obtain e where e: "E v e" "reads e s s1" using assms(1) Suc.prems(1,2) unfolding sound_def by blast
    note ok = reads_ok [OF Suc.prems(1) e(2)]
    obtain c where "elems E ws c" "reads c s1 s'" using Suc.IH [OF ok(1,3) elem(2)] by blast
    then have "elems E vs (e @ c) \<and> reads (e @ c) s s'"
      using e elem reads_trans [OF Suc.prems(1) e(2)] by auto
    then show ?thesis by blast
  qed
qed simp

lemma ListArray_loop_accepts:
  assumes "accepts d E"
  shows "in_list c s \<Longrightarrow> elems E vs c \<Longrightarrow>
    \<exists>s'. decodeListArray_loop (length vs) d i s = (Ok vs, s') \<and> reads c s s'"
proof (induction vs arbitrary: c s i)
  case Nil
  then show ?case by (auto simp: in_list_def intro: reads_Nil)
next
  case (Cons v vs)
  then obtain e f where e: "E v e" "c = e @ f" "elems E vs f" by auto
  then obtain s1 where s1: "d s = (Ok v, s1)" "reads e s s1"
    using Cons.prems(1) assms(1) unfolding accepts_def in_list_def
    by (metis append.assoc le_add1 length_append)
  obtain s2 where "decodeListArray_loop (length vs) d (i + 1) s1 = (Ok vs, s2)" "reads f s1 s2"
    using Cons.IH [OF reads_in_list [OF Cons.prems(1) [unfolded e(2)] s1(2)] e(3)] by blast
  then show ?case using s1 e(2) reads_trans [OF _ s1(2)] Cons.prems(1)
    by (auto simp: sreturn_def in_list_def)
qed

lemma ListArray_loop_sound:
  assumes "sound d E" "at_end d"
  shows "stream_ok s \<Longrightarrow> skind s = None \<Longrightarrow> decodeListArray_loop n d i s = (Ok vs, s') \<Longrightarrow>
    length vs \<le> n \<and> (\<exists>c. elems E vs c \<and> reads c s s')"
proof (induction n arbitrary: s i vs)
  case (Suc n)
  from Suc.prems(3) consider (eol) "d s = (Err EOL, s')" "vs = []"
    | (elem) v s1 ws where "d s = (Ok v, s1)" "decodeListArray_loop n d (i + 1) s1 = (Ok ws, s')" "vs = v # ws"
    by (auto simp: sbind_Ok_iff split: prod.splits outcome.splits if_splits)
  then show ?case
  proof cases
    case eol
    then show ?thesis using assms(2) Suc.prems by (auto simp: at_end_def intro: reads_Nil)
  next
    case elem
    then obtain e where e: "E v e" "reads e s s1" using assms(1) Suc.prems(1,2) unfolding sound_def by blast
    note ok = reads_ok [OF Suc.prems(1) e(2)]
    obtain c where "length ws \<le> n" "elems E ws c" "reads c s1 s'" using Suc.IH [OF ok(1,3) elem(2)] by blast
    then have "length vs \<le> Suc n \<and> elems E vs (e @ c) \<and> reads (e @ c) s s'"
      using e elem reads_trans [OF Suc.prems(1) e(2)] by auto
    then show ?thesis by blast
  qed
qed (auto intro: reads_Nil)

lemma loops_not_EOL:
  "decodeSliceElems_loop n d i s \<noteq> (Err EOL, s')" "decodeListArray_loop n d i s \<noteq> (Err EOL, s')"
proof -
  have ctx: "addErrorContext x e = EOL \<longleftrightarrow> e = EOL" for x e by (cases e) (simp_all add: addErrorContext_def)
  show "decodeSliceElems_loop n d i s \<noteq> (Err EOL, s')"
    by (induction n arbitrary: i s)
      (auto simp: sbind_Err_iff sreturn_def ctx split: prod.splits outcome.splits)
  show "decodeListArray_loop n d i s \<noteq> (Err EOL, s')"
    by (induction n arbitrary: i s)
      (auto simp: sbind_Err_iff sreturn_def ctx split: prod.splits outcome.splits)
qed

section \<open>Slices and arrays\<close>

lemma swrap_id [simp]: "swrap id m = m"
proof
  fix s show "swrap id m s = m s" by (cases "m s"; cases "fst (m s)") (auto simp: swrap_def)
qed

lemma sbind_return [simp]: "sbind (sreturn a) f = f a"
  by (simp add: fun_eq_iff sreturn_def)

lemma sbind_fail [simp]: "sbind (sfail e) f = sfail e"
  by (simp add: fun_eq_iff sfail_def)

lemma sbind_if: "sbind (if b then m else n) f = (if b then sbind m f else sbind n f)"
  by simp

lemma sbind_assoc: "sbind (sbind m f) g = sbind m (\<lambda>a. sbind (f a) g)"
  by (auto simp: fun_eq_iff sbind_def split: prod.split outcome.split)

lemma decodeListSlice_frame:
  "decodeListSlice d = list_frame id (\<lambda>sz. if sz = 0 then sreturn [] else decodeSliceElems d)"
  by (simp add: decodeListSlice_def list_frame_def sbind_if cong: if_cong)

lemma decodeListArray_frame:
  "decodeListArray n d = list_frame wrapStreamError (\<lambda>_. sbind (decodeListArray_loop n d 0) (\<lambda>vs.
     if length vs < n then sfail (DecodeError ''input list has too few elements'' []) else sreturn vs))"
  by (simp add: decodeListArray_def list_frame_def sbind_if sbind_assoc cong: if_cong)

lemma accepts_ListSlice:
  assumes "accepts d E" "at_end d" "\<And>v e. E v e \<Longrightarrow> e \<noteq> []"
  shows "accepts (decodeListSlice d) (\<lambda>vs e. \<exists>c. elems E vs c \<and> e = rlp_list c)"
  unfolding decodeListSlice_frame
proof (rule accepts_frame)
  fix s vs c assume c: "in_list c s" "elems E vs c"
  show "\<exists>s'. (if word_of_nat (length c) = (0 :: u64) then sreturn [] else decodeSliceElems d) s = (Ok vs, s') \<and> reads c s s'"
  proof (cases "c = []")
    case True
    then have "vs = []" using c(2) assms(3) by (cases vs) auto
    then show ?thesis using True c(1) by (auto simp: in_list_def intro: reads_Nil)
  next
    case False
    then have "(word_of_nat (length c) :: u64) \<noteq> 0"
      using c(1) avail_le [of s] length_inp_less [of s]
      by (auto simp: in_list_def word_unat_eq_iff unat_of_nat)
    then show ?thesis using SliceElems_accepts [OF assms c] by simp
  qed
qed

lemma sound_ListSlice:
  assumes "sound d E" "at_end d"
  shows "sound (decodeListSlice d) (\<lambda>vs e. \<exists>c. elems E vs c \<and> e = rlp_list c)"
  unfolding decodeListSlice_frame
proof (rule sound_frame)
  fix s vs c s' assume c: "in_list c s"
    "(if word_of_nat (length c) = (0 :: u64) then sreturn [] else decodeSliceElems d) s = (Ok vs, s')"
  then show "\<exists>c'. elems E vs c' \<and> reads c' s s'"
    using SliceElems_loop_sound [OF assms]
    by (auto simp: decodeSliceElems_def in_list_def intro: reads_Nil split: if_splits
        simp del: decodeSliceElems_loop.simps)
qed

lemma accepts_ListArray:
  assumes "accepts d E"
  shows "accepts (decodeListArray n d) (\<lambda>vs e. \<exists>c. (length vs = n \<and> elems E vs c) \<and> e = rlp_list c)"
  unfolding decodeListArray_frame
proof (rule accepts_frame)
  fix s vs c assume "in_list c s" "length vs = n \<and> elems E vs c"
  then show "\<exists>s'. sbind (decodeListArray_loop n d 0) (\<lambda>vs. if length vs < n
      then sfail (DecodeError ''input list has too few elements'' []) else sreturn vs) s = (Ok vs, s') \<and> reads c s s'"
    using ListArray_loop_accepts [OF assms, of c s vs 0] by (auto simp: sreturn_def)
qed

lemma sound_ListArray:
  assumes "sound d E" "at_end d"
  shows "sound (decodeListArray n d) (\<lambda>vs e. \<exists>c. (length vs = n \<and> elems E vs c) \<and> e = rlp_list c)"
  unfolding decodeListArray_frame
proof (rule sound_frame)
  fix s vs c s' assume "in_list c s" "sbind (decodeListArray_loop n d 0) (\<lambda>vs. if length vs < n
      then sfail (DecodeError ''input list has too few elements'' []) else sreturn vs) s = (Ok vs, s')"
  then have "decodeListArray_loop n d 0 s = (Ok vs, s')" "\<not> length vs < n" "stream_ok s" "skind s = None"
    by (auto simp: sbind_Ok_iff in_list_def split: if_splits)
  then show "\<exists>c'. (length vs = n \<and> elems E vs c') \<and> reads c' s s'"
    using ListArray_loop_sound [OF assms, of s n 0 vs s'] by auto
qed

lemma at_end_ListSlice: "at_end (decodeListSlice d)"
  unfolding decodeListSlice_frame
  by (rule at_end_frame)
    (auto simp: sreturn_def decodeSliceElems_def loops_not_EOL simp del: decodeSliceElems_loop.simps)

lemma wrapStreamError_EOL: "wrapStreamError e = EOL \<longleftrightarrow> e = EOL"
  by (cases e) (simp_all add: wrapStreamError_def)

lemma at_end_ListArray: "at_end (decodeListArray n d)"
  unfolding decodeListArray_frame
  by (rule at_end_frame) (auto simp: sbind_Err_iff loops_not_EOL sreturn_def sfail_def wrapStreamError_EOL)

section \<open>Changing results\<close>

lemma accepts_map:
  assumes "accepts d E" "\<And>v e. F v e \<Longrightarrow> \<exists>w. v = f w \<and> E w e"
  shows "accepts (sbind (swrap g d) (\<lambda>w. sreturn (f w))) F"
  unfolding accepts_def
proof (intro allI impI, elim conjE)
  fix s v e r assume s: "stream_ok s" "skind s = None" "F v e" "inp s = e @ r" "length e \<le> avail s"
  obtain w where w: "v = f w" "E w e" using assms(2) s(3) by blast
  then obtain s' where "d s = (Ok w, s')" "reads e s s'" using assms(1) s unfolding accepts_def by blast
  then show "\<exists>s'. sbind (swrap g d) (\<lambda>w. sreturn (f w)) s = (Ok v, s') \<and> reads e s s'"
    using w by (auto simp: sbind_swrap_Ok sreturn_def)
qed

lemma sound_map:
  assumes "sound d E" "\<And>w e. E w e \<Longrightarrow> F (f w) e"
  shows "sound (sbind (swrap g d) (\<lambda>w. sreturn (f w))) F"
  using assms unfolding sound_def by (fastforce simp: sbind_Ok_iff)

lemma at_end_map:
  assumes "at_end d" "\<And>e. g e = EOL \<longleftrightarrow> e = EOL"
  shows "at_end (sbind (swrap g d) (\<lambda>w. sreturn (f w)))"
proof -
  have "sbind (swrap g d) (\<lambda>w. sreturn (f w)) s = (Err EOL, s') \<longleftrightarrow> d s = (Err EOL, s')" for s s'
    using assms(2) by (auto simp: sbind_Err_iff swrap_Err_iff sreturn_def)
  then show ?thesis using assms(1) by (simp add: at_end_def)
qed

lemmas map_plain = accepts_map [where g = id, simplified] sound_map [where g = id, simplified]
  at_end_map [where g = id, simplified]

section \<open>Decodable types and well-typed values\<close>

text \<open>
  The tags a field may have: none, or \<open>nil\<close> on a pointer to a byte array. With \<open>strict\<close>, \<open>nil\<close> is
  left out: such a field accepts the empty list as well as the empty string.
\<close>

definition field_tags :: "bool \<Rightarrow> tags \<Rightarrow> rtype \<Rightarrow> bool" where
  "field_tags strict ts t \<longleftrightarrow> \<not> tail ts \<and>
    (nilOK ts \<longrightarrow> \<not> strict \<and> (case t of TPtr (TArray n e) \<Rightarrow> isByte e \<and> 1 < n | _ \<Rightarrow> False))"

fun decodable :: "bool \<Rightarrow> rtype \<Rightarrow> bool"
  and decodable_fields :: "bool \<Rightarrow> rfield list \<Rightarrow> bool" where
  "decodable strict (TUint n) = (n \<in> {8, 16, 32, 64})"
| "decodable strict (TSlice t) = (isByte t \<or> decodable strict t)"
| "decodable strict (TArray n t) = (n < 2 ^ 64 \<and> (if isByte t then n \<noteq> 1 else decodable strict t))"
| "decodable strict (TPtr t) = decodable strict t"
| "decodable strict (TEnc ptr t) = (\<not> ptr \<and> decodable strict t)"
| "decodable strict (TStruct fs) = decodable_fields strict fs"
| "decodable strict t = (t \<in> {TBool, TString, TBigPtr, TBig})"
| "decodable_fields strict [] = True"
| "decodable_fields strict (Field nm exported tag t # fs) =
     ((exported \<longrightarrow> (case parseStructTag (Field nm exported tag t) (fs = []) of
         Ok ts \<Rightarrow> ignored ts \<or> field_tags strict ts t \<and> decodable strict t
       | _ \<Rightarrow> False)) \<and> decodable_fields strict fs)"

text \<open>Well-typed values: integers in range, pointers that are not nil unless the tag allows it, and the
  zero value in the fields that are not encoded.\<close>

fun wt :: "rtype \<Rightarrow> tags \<Rightarrow> rval \<Rightarrow> bool"
  and wt_fields :: "rfield list \<Rightarrow> rval list \<Rightarrow> bool" where
  "wt (TUint n) ts v = (case v of VUint i \<Rightarrow> unat i < 2 ^ n | _ \<Rightarrow> False)"
| "wt TBool ts v = (case v of VBool _ \<Rightarrow> True | _ \<Rightarrow> False)"
| "wt TString ts v = (case v of VBytes _ \<Rightarrow> True | _ \<Rightarrow> False)"
| "wt TBigPtr ts v = (case v of VBig i \<Rightarrow> 0 \<le> i | _ \<Rightarrow> False)"
| "wt TBig ts v = (case v of VBig i \<Rightarrow> 0 \<le> i | _ \<Rightarrow> False)"
| "wt (TSlice t) ts v =
     (if isByte t then (case v of VBytes _ \<Rightarrow> True | _ \<Rightarrow> False)
      else (case v of VList vs \<Rightarrow> (\<forall>v \<in> set vs. wt t no_tags v) | _ \<Rightarrow> False))"
| "wt (TArray n t) ts v =
     (if isByte t then (case v of VBytes b \<Rightarrow> length b = n | _ \<Rightarrow> False)
      else (case v of VList vs \<Rightarrow> length vs = n \<and> (\<forall>v \<in> set vs. wt t no_tags v) | _ \<Rightarrow> False))"
| "wt (TPtr t) ts v = (case v of VPtr v \<Rightarrow> wt t no_tags v | VNil \<Rightarrow> nilOK ts | _ \<Rightarrow> False)"
| "wt (TEnc ptr t) ts v = (case v of VEnc v \<Rightarrow> wt t no_tags v | _ \<Rightarrow> False)"
| "wt (TStruct fs) ts v = (case v of VStruct vs \<Rightarrow> wt_fields fs vs | _ \<Rightarrow> False)"
| "wt t ts v = False"
| "wt_fields [] vs = (vs = [])"
| "wt_fields (Field nm exported tag t # fs) vs =
     (case vs of
        [] \<Rightarrow> False
      | v # vs \<Rightarrow>
          (case parseStructTag (Field nm exported tag t) (fs = []) of
             Ok ts \<Rightarrow> if exported \<and> \<not> ignored ts then wt t ts v else v = zero_value t
           | _ \<Rightarrow> v = zero_value t) \<and> wt_fields fs vs)"

definition enc :: "rtype \<Rightarrow> tags \<Rightarrow> rval \<Rightarrow> bytes \<Rightarrow> bool" where
  "enc t ts v e \<longleftrightarrow> wt t ts v \<and> rlp_of t ts True v = Ok e"

lemma genTypeInfo_decodable:
  "decodable strict t \<Longrightarrow> genTypeInfo t = Ok ()"
  "decodable_fields strict fs \<Longrightarrow> genFieldInfos fs = Ok ()"
  by (induction strict t and strict fs rule: decodable_decodable_fields.induct)
    (auto simp: genTypeInfo.simps split: if_splits outcome.splits)

lemma structFields_decodable:
  "decodable_fields strict fs \<Longrightarrow> \<exists>flds. structFields_loop i fs = Ok flds"
proof (induction fs arbitrary: i)
  case (Cons f fs)
  obtain nm exported tag t where f: "f = Field nm exported tag t" by (cases f)
  show ?case using Cons.prems Cons.IH [of "i + 1"] by (auto simp: f obind_Ok_iff split: outcome.splits)
qed simp

lemma rlp_elems_addr: "(\<And>v. rlp_of t no_tags a v = rlp_of t no_tags b v) \<Longrightarrow> rlp_elems t a vs = rlp_elems t b vs"
  by (induction vs) simp_all

lemma structFields_loop_set:
  "structFields_loop i fs = Ok flds \<Longrightarrow> (j, ts, t) \<in> set flds \<Longrightarrow> decodable_fields strict fs \<Longrightarrow>
    field_tags strict ts t \<and> decodable strict t \<and> (\<exists>f \<in> set fs. ftype f = t)"
proof (induction i fs arbitrary: flds rule: structFields_loop.induct)
  case (2 i f fs)
  then show ?case by (cases f) (fastforce simp: obind_Ok_iff split: if_splits outcome.splits)
qed simp

lemma rlp_of_addr:
  "decodable strict t \<Longrightarrow> rlp_of t ts a v = rlp_of t ts b v"
  "decodable_fields strict fs \<Longrightarrow> structFields_loop i fs = Ok flds \<Longrightarrow> rlp_flds flds a vs = rlp_flds flds b vs"
proof (induction strict t and strict fs arbitrary: ts v and i flds vs rule: decodable_decodable_fields.induct)
  case (3 strict n t)
  then show ?case using rlp_elems_addr [of t a b]
    by (cases v) (auto simp: rlp_of.simps obytes_def split: if_splits)
next
  case (6 strict fs)
  then show ?case
    by (cases v) (auto simp: rlp_of.simps structFields_def intro: obind_cong split: outcome.splits)
next
  case (9 strict nm exported tag t fs)
  show ?case
  proof (cases "exported")
    case True
    then obtain ts' where ts: "parseStructTag (Field nm exported tag t) (fs = []) = Ok ts'"
      using "9.prems" by (auto split: outcome.splits)
    then show ?thesis using 9 True by (cases "ignored ts'") (auto simp: obind_Ok_iff intro!: obind_cong)
  qed (use 9 in auto)
qed (auto simp: rlp_of.simps)

lemma rlp_str_nonempty [simp]: "rlp_str b \<noteq> []"
  by (auto simp: rlp_str_def rlp_head_def)

lemma rlp_list_nonempty [simp]: "rlp_list c \<noteq> []"
  by (auto simp: rlp_list_def rlp_head_def)

lemma rlp_of_ptr:
  "rlp_of (TPtr t) ts a (VPtr v) = rlp_of t no_tags True v"
  "rlp_of (TPtr (TArray n e)) ts a VNil = (if isByte e then Ok (rlp_str []) else Ok (rlp_list []))"
  "rlp_of (TEnc False t) ts a (VEnc v) = obind (genTypeInfo t) (\<lambda>_. rlp_of t no_tags False v)"
  by (subst rlp_of.simps; simp add: isStructOrArray_def rlp_top.simps)+

lemma enc_ptr:
  "enc (TPtr t) ts v e \<longleftrightarrow> (\<exists>w. v = VPtr w \<and> enc t no_tags w e) \<or>
    v = VNil \<and> nilOK ts \<and> rlp_of (TPtr t) ts True VNil = Ok e"
  by (cases v) (auto simp: enc_def rlp_of_ptr)

lemma enc_Enc:
  assumes "decodable strict t"
  shows "enc (TEnc False t) ts v e \<longleftrightarrow> (\<exists>w. v = VEnc w \<and> enc t no_tags w e)"
  using rlp_of_addr(1) [OF assms, of no_tags False _ True] genTypeInfo_decodable(1) [OF assms]
  by (cases v) (auto simp: enc_def rlp_of_ptr)

lemma field_tags_no_tags [simp]: "field_tags strict no_tags t"
  by (simp add: field_tags_def no_tags_def)

lemma nil_ptr:
  assumes "field_tags strict ts (TPtr t)" "nilOK ts"
  obtains n e where "t = TArray n e" "isByte e" "1 < n" "\<not> strict"
  using assms by (cases t) (auto simp: field_tags_def)

lemma enc_nonempty:
  "decodable strict t \<Longrightarrow> field_tags strict ts t \<Longrightarrow> enc t ts v e \<Longrightarrow> e \<noteq> []"
proof (induction t arbitrary: ts v e)
  case (TPtr t)
  from TPtr.prems(3) consider w where "enc t no_tags w e" | "nilOK ts" "rlp_of (TPtr t) ts True VNil = Ok e"
    by (auto simp: enc_ptr)
  then show ?case
  proof cases
    case 1
    then show ?thesis using TPtr.IH [of no_tags w e] TPtr.prems(1) by simp
  next
    case 2
    from TPtr.prems(2) 2(1) obtain n b where "t = TArray n b" "isByte b" by (rule nil_ptr)
    then show ?thesis using 2(2) by (auto simp: rlp_of_ptr)
  qed
next
  case (TEnc ptr t)
  then have "decodable strict t" "ptr = False" by simp_all
  then obtain w where "enc t no_tags w e" using TEnc.prems(3) enc_Enc by blast
  then show ?case using TEnc.IH [of no_tags w e] TEnc.prems(1) by simp
qed (auto simp: enc_def rlp_of.simps obytes_def rlp_big_def obind_Ok_iff field_tags_def
    split: rval.splits if_splits)

lemma elems_enc:
  "elems (enc t no_tags) vs c \<longleftrightarrow> (\<forall>v \<in> set vs. wt t no_tags v) \<and> rlp_elems t True vs = Ok c"
  by (induction vs arbitrary: c) (auto simp: enc_def obind_Ok_iff)

text \<open>Operations that look at the kind first do the same when it has already been looked at.\<close>

definition peek :: "'a reading \<Rightarrow> bool" where
  "peek d \<longleftrightarrow> (\<forall>s. d (snd (Stream_Kind s)) = d s)"

lemma snd_cached_Kind: "snd (cached_Kind s) = s"
  by (simp add: cached_Kind_def split: option.split)

lemma Stream_Kind_cached: "skind s = Some k \<Longrightarrow> Stream_Kind s = cached_Kind s"
  by (simp add: Stream_Kind_def)

lemma Stream_Kind_fresh:
  assumes "skind s = None"
  shows "(\<exists>p st. stack s = (p, p) # st \<and> Stream_Kind s = (Err EOL, s\<lparr>kinderr := None\<rparr>)) \<or>
    (\<exists>t k. skind t = Some k \<and> Stream_Kind s = cached_Kind t)"
proof -
  obtain r t where "Stream_readKind (s\<lparr>kinderr := None\<rparr>) = (r, t)" by (cases "Stream_readKind (s\<lparr>kinderr := None\<rparr>)")
  moreover obtain k sz err where "r = (k, sz, err)" by (cases r)
  ultimately have rk: "Stream_readKind (s\<lparr>kinderr := None\<rparr>) = ((k, sz, err), t)" by simp
  define u where "u x = t\<lparr>skind := Some k, ssize := sz, kinderr := x\<rparr>" for x
  have u: "skind (u x) = Some k" for x by (simp add: u_def)
  show ?thesis
  proof (cases "stack s")
    case Nil
    then have "Stream_Kind s = cached_Kind (u (if err = None \<and> limited t \<and> sz > remaining t
        then Some ErrValueTooLarge else err))"
      using assms rk by (simp add: Stream_Kind_def u_def)
    then show ?thesis using u by blast
  next
    case (Cons top st)
    obtain p z where top: "top = (p, z)" by (cases top)
    show ?thesis
    proof (cases "p = z")
      case True
      then show ?thesis using assms Cons top by (simp add: Stream_Kind_def)
    next
      case False
      then have "Stream_Kind s = cached_Kind (u (if err = None \<and> sz > snd (hd (stack t)) - fst (hd (stack t))
          then Some ErrElemTooLarge else err))"
        using assms rk Cons top by (simp add: Stream_Kind_def u_def)
      then show ?thesis using u by blast
    qed
  qed
qed

lemma Stream_Kind_idem: "Stream_Kind (snd (Stream_Kind s)) = Stream_Kind s"
proof (cases "skind s")
  case None
  then show ?thesis using Stream_Kind_fresh [OF None]
    by (auto simp: snd_cached_Kind Stream_Kind_cached) (simp add: Stream_Kind_def)
qed (simp add: Stream_Kind_cached snd_cached_Kind)

lemma peek_Kind: "peek (sbind Stream_Kind f)"
  by (simp add: peek_def sbind_def Stream_Kind_idem)

lemma peek_bind: "peek d \<Longrightarrow> peek (sbind d f)"
  by (simp add: peek_def sbind_def)

lemma peek_wrap: "peek d \<Longrightarrow> peek (swrap g d)"
  by (simp add: peek_def swrap_def)

lemma peek_List: "peek Stream_List"
  unfolding Stream_List_def by (rule peek_Kind)

lemma peek_frame: "peek (list_frame g body)"
  unfolding list_frame_def by (intro peek_bind peek_wrap peek_List)

lemma peek_uint: "peek (Stream_uint n)"
  unfolding Stream_uint_def by (rule peek_Kind)

lemma peek_Bytes: "peek Stream_Bytes"
  unfolding Stream_Bytes_def by (rule peek_Kind)

text \<open>The properties of the decoder of a type.\<close>

definition good :: "bool \<Rightarrow> rval reading \<Rightarrow> (rval \<Rightarrow> bytes \<Rightarrow> bool) \<Rightarrow> bool" where
  "good strict d E \<longleftrightarrow> accepts d E \<and> (strict \<longrightarrow> sound d E) \<and> at_end d \<and> peek d"

lemma good_wrap:
  assumes "accepts d E" "sound d E" "at_end d" "peek d" "\<And>v e. F v e \<longleftrightarrow> (\<exists>w. v = f w \<and> E w e)"
  shows "good strict (sbind (swrap wrapStreamError d) (\<lambda>w. sreturn (f w))) F"
  unfolding good_def using assms
  by (auto intro!: accepts_map sound_map at_end_map peek_bind peek_wrap simp: wrapStreamError_EOL)

lemma big_Bytes_length_iff: "length (big_Bytes x) \<le> k \<longleftrightarrow> x < 256 ^ k"
proof
  assume "length (big_Bytes x) \<le> k"
  then have "x < 256 ^ length (big_Bytes x)" "(256 :: nat) ^ length (big_Bytes x) \<le> 256 ^ k"
    using nat_of_be_less [of "big_Bytes x"] by simp_all
  then show "x < 256 ^ k" by linarith
qed (rule length_big_Bytes_le)

lemma good_uint:
  assumes "n \<in> {8, 16, 32, 64}"
  shows "good strict (decodeUint n) (enc (TUint n) ts)"
  unfolding decodeUint_def
proof (rule good_wrap [OF accepts_uint sound_uint at_end_uint peek_uint])
  fix v e
  have "(256 :: nat) ^ (n div 8) = 2 ^ n" using assms by auto
  then show "enc (TUint n) ts v e \<longleftrightarrow> (\<exists>w. v = VUint w \<and> uint_enc n w e)"
    by (auto simp: enc_def rlp_of.simps uint_enc_def big_Bytes_length_iff split: rval.splits)
qed (use assms in auto)

end
