(* ===== verification/RlpRoundtrip.thy ===== *)
theory RlpRoundtrip
  imports RlpDecodeTypes
begin

text \<open>
  Decoding inverts encoding, by induction on the type: every encoding of a well-typed value is decoded
  to that value, and for types without the \<open>nil\<close> tag nothing else is accepted.
\<close>

section \<open>Basic types\<close>

lemma acceptsD:
  "accepts d E \<Longrightarrow> stream_ok s \<Longrightarrow> skind s = None \<Longrightarrow> E v e \<Longrightarrow> inp s = e @ r \<Longrightarrow> length e \<le> avail s \<Longrightarrow>
    \<exists>s'. d s = (Ok v, s') \<and> reads e s s'"
  unfolding accepts_def by blast

lemma soundD:
  "sound d E \<Longrightarrow> stream_ok s \<Longrightarrow> skind s = None \<Longrightarrow> d s = (Ok v, s') \<Longrightarrow> \<exists>e. E v e \<and> reads e s s'"
  unfolding sound_def by blast

lemma acceptsI:
  "(\<And>s v e r. stream_ok s \<Longrightarrow> skind s = None \<Longrightarrow> E v e \<Longrightarrow> inp s = e @ r \<Longrightarrow> length e \<le> avail s \<Longrightarrow>
    \<exists>s'. d s = (Ok v, s') \<and> reads e s s') \<Longrightarrow> accepts d E"
  unfolding accepts_def by blast

lemma soundI:
  "(\<And>s v s'. stream_ok s \<Longrightarrow> skind s = None \<Longrightarrow> d s = (Ok v, s') \<Longrightarrow> \<exists>e. E v e \<and> reads e s s') \<Longrightarrow> sound d E"
  unfolding sound_def by blast

lemma uint_enc_bool: "uint_enc 8 (of_bool b) e \<longleftrightarrow> e = rlp_nat (of_bool b)"
  by (cases b) (auto simp: uint_enc_def big_Bytes_length_iff)

lemma accepts_Bool: "accepts Stream_Bool (\<lambda>b e. e = rlp_nat (of_bool b))"
proof (rule acceptsI)
  fix s b e r assume s: "stream_ok s" "skind s = None" "e = rlp_nat (of_bool b)" "inp s = e @ r" "length e \<le> avail s"
  have "uint_enc 8 (of_bool b) e" using s(3) by (simp only: uint_enc_bool)
  then obtain s' where "Stream_uint 8 s = (Ok (of_bool b), s')" "reads e s s'"
    using acceptsD [OF accepts_uint [of 8] s(1,2) _ s(4,5)] by auto
  then show "\<exists>s'. Stream_Bool s = (Ok b, s') \<and> reads e s s'"
    by (cases b) (auto simp: Stream_Bool_def sreturn_def)
qed

lemma sound_Bool: "sound Stream_Bool (\<lambda>b e. e = rlp_nat (of_bool b))"
proof (rule soundI)
  fix s b s' assume s: "stream_ok s" "skind s = None" "Stream_Bool s = (Ok b, s')"
  then have "Stream_uint 8 s = (Ok (of_bool b), s')"
    by (auto simp: Stream_Bool_def sbind_Ok_iff split: if_splits)
  then obtain e where "uint_enc 8 (of_bool b) e" "reads e s s'"
    using soundD [OF sound_uint [of 8] s(1,2)] by auto
  then show "\<exists>e. e = rlp_nat (of_bool b) \<and> reads e s s'" by (auto simp: uint_enc_bool)
qed

lemma at_end_Bool: "at_end Stream_Bool"
proof -
  have "Stream_Bool s = (Err EOL, s') \<longleftrightarrow> Stream_uint 8 s = (Err EOL, s')" for s s'
    by (auto simp: Stream_Bool_def sbind_Err_iff sreturn_def sfail_def split: if_splits)
  then show ?thesis using at_end_uint [of 8] by (simp add: at_end_def)
qed

lemma peek_Bool: "peek Stream_Bool"
  unfolding Stream_Bool_def by (rule peek_bind [OF peek_uint])

lemma good_bool: "good strict decodeBool (enc TBool ts)"
  unfolding decodeBool_def
  by (rule good_wrap [OF accepts_Bool sound_Bool at_end_Bool peek_Bool])
    (auto simp: enc_def rlp_of.simps split: rval.splits)

lemma good_string: "good strict decodeString (enc TString ts)"
  unfolding decodeString_def
  by (rule good_wrap [OF accepts_Bytes sound_Bytes at_end_Bytes peek_Bytes])
    (auto simp: enc_def rlp_of.simps obytes_def split: rval.splits)

lemma good_bytes: "isByte t \<Longrightarrow> good strict decodeByteSlice (enc (TSlice t) ts)"
  unfolding decodeByteSlice_def
  by (rule good_wrap [OF accepts_Bytes sound_Bytes at_end_Bytes peek_Bytes])
    (auto simp: enc_def rlp_of.simps obytes_def split: rval.splits)

lemma good_bytearray:
  assumes "isByte t" "n \<noteq> 1" "n < 2 ^ 64"
  shows "good strict (decodeByteArray n) (enc (TArray n t) ts)"
proof -
  have "enc (TArray n t) ts = (\<lambda>v e. \<exists>b. v = VBytes b \<and> length b = n \<and> e = rlp_str b)"
    using assms(1) by (auto simp: fun_eq_iff enc_def rlp_of.simps obytes_def split: rval.splits)
  moreover have "peek (decodeByteArray n)" unfolding decodeByteArray_def by (rule peek_Kind)
  ultimately show ?thesis
    using accepts_ByteArray sound_ByteArray at_end_ByteArray assms by (simp add: good_def)
qed

text \<open>Big integers: a string without a leading zero byte.\<close>

lemma big_canonical: "big_Bytes (nat_of_be b) = b \<longleftrightarrow> \<not> (length b > 0 \<and> b ! 0 = 0)"
proof (cases b)
  case (Cons x xs)
  show ?thesis
  proof (cases "x = 0")
    case True
    then have "big_Bytes (nat_of_be b) \<noteq> b"
      using Cons hd_big_Bytes [of "nat_of_be b"] by (cases "nat_of_be b = 0") auto
    then show ?thesis using Cons True by simp
  qed (use Cons big_Bytes_nat_of_be [of b] in simp)
qed simp

lemma enc_big: "t \<in> {TBig, TBigPtr} \<Longrightarrow> enc t ts v e \<longleftrightarrow> (\<exists>i. v = VBig (int i) \<and> e = rlp_nat i)"
  by (auto simp: enc_def rlp_of.simps rlp_big_def split: rval.splits if_splits) (metis nonneg_int_cases nat_int)+

lemma good_big:
  assumes "t \<in> {TBig, TBigPtr}"
  shows "good strict decodeBigInt (enc t ts)"
  unfolding good_def
proof (intro conjI impI)
  show "accepts decodeBigInt (enc t ts)"
  proof (rule acceptsI)
    fix s v e r assume s: "stream_ok s" "skind s = None" "enc t ts v e" "inp s = e @ r" "length e \<le> avail s"
    then obtain i where i: "v = VBig (int i)" "e = rlp_nat i" using enc_big [OF assms] by auto
    have "Stream_Bytes s = (Ok (big_Bytes i), s') \<and> reads e s s' \<Longrightarrow> decodeBigInt s = (Ok v, s')" for s'
      using i big_canonical [of "big_Bytes i"] by (auto simp: decodeBigInt_def sbind_swrap_Ok sreturn_def)
    then show "\<exists>s'. decodeBigInt s = (Ok v, s') \<and> reads e s s'"
      using acceptsD [OF accepts_Bytes s(1,2) i(2) s(4,5)] by blast
  qed
  show "sound decodeBigInt (enc t ts)"
  proof (rule soundI)
    fix s v s' assume s: "stream_ok s" "skind s = None" "decodeBigInt s = (Ok v, s')"
    then obtain b where b: "Stream_Bytes s = (Ok b, s')" "\<not> (length b > 0 \<and> b ! 0 = 0)" "v = VBig (int (nat_of_be b))"
      by (auto simp: decodeBigInt_def sbind_Ok_iff split: if_splits)
    have "enc t ts v (rlp_str b)" using b(2,3) big_canonical [of b] enc_big [OF assms] by auto
    then show "\<exists>e. enc t ts v e \<and> reads e s s'" using soundD [OF sound_Bytes s(1,2) b(1)] by blast
  qed
  have "decodeBigInt s = (Err EOL, s') \<longleftrightarrow> Stream_Bytes s = (Err EOL, s')" for s s'
    by (auto simp: decodeBigInt_def sbind_Err_iff swrap_Err_iff wrapStreamError_EOL sreturn_def sfail_def
        split: if_splits)
  then show "at_end decodeBigInt" using at_end_Bytes by (simp add: at_end_def)
  show "peek decodeBigInt" unfolding decodeBigInt_def by (intro peek_bind peek_wrap peek_Bytes)
qed

section \<open>Composite types\<close>

lemma good_map:
  assumes "accepts d E" "strict \<Longrightarrow> sound d E" "at_end d" "peek d" "\<And>v e. F v e \<longleftrightarrow> (\<exists>w. v = f w \<and> E w e)"
  shows "good strict (sbind d (\<lambda>w. sreturn (f w))) F"
  unfolding good_def
proof (intro conjI impI)
  show "accepts (sbind d (\<lambda>w. sreturn (f w))) F" using assms(1) by (rule map_plain(1)) (simp add: assms(5))
  show "sound (sbind d (\<lambda>w. sreturn (f w))) F" if strict
    using assms(2) [OF that] by (rule map_plain(2)) (auto simp: assms(5))
  show "at_end (sbind d (\<lambda>w. sreturn (f w)))" using assms(3) by (rule map_plain(3))
  show "peek (sbind d (\<lambda>w. sreturn (f w)))" using assms(4) by (rule peek_bind)
qed

lemma goodD:
  "good strict d E \<Longrightarrow> accepts d E" "good strict d E \<Longrightarrow> strict \<Longrightarrow> sound d E"
  "good strict d E \<Longrightarrow> at_end d" "good strict d E \<Longrightarrow> peek d"
  by (simp_all add: good_def)

lemma good_slice:
  assumes "good strict (decoder t no_tags) (enc t no_tags)" "decodable strict t" "\<not> isByte t" "\<not> tail ts"
  shows "good strict (sbind (decodeListSlice (decoder t no_tags)) (\<lambda>vs. sreturn (VList vs))) (enc (TSlice t) ts)"
proof -
  have ne: "enc t no_tags v e \<Longrightarrow> e \<noteq> []" for v e using enc_nonempty [OF assms(2), of no_tags v e] by simp
  have enc: "enc (TSlice t) ts v e \<longleftrightarrow> (\<exists>vs. v = VList vs \<and> (\<exists>c. elems (enc t no_tags) vs c \<and> e = rlp_list c))" for v e
    using assms(3,4) by (auto simp: enc_def rlp_of.simps elems_enc obind_Ok_iff split: rval.splits)
  have p: "peek (decodeListSlice (decoder t no_tags))" unfolding decodeListSlice_frame by (rule peek_frame)
  show ?thesis
    by (rule good_map [OF accepts_ListSlice sound_ListSlice at_end_ListSlice p enc])
      (use goodD [OF assms(1)] ne in auto)
qed

lemma good_array:
  assumes "good strict (decoder t no_tags) (enc t no_tags)" "\<not> isByte t" "\<not> tail ts"
  shows "good strict (sbind (decodeListArray n (decoder t no_tags)) (\<lambda>vs. sreturn (VList vs))) (enc (TArray n t) ts)"
proof -
  have enc: "enc (TArray n t) ts v e \<longleftrightarrow>
      (\<exists>vs. v = VList vs \<and> (\<exists>c. (length vs = n \<and> elems (enc t no_tags) vs c) \<and> e = rlp_list c))" for v e
    using assms(2,3) by (auto simp: enc_def rlp_of.simps elems_enc obind_Ok_iff split: rval.splits)
  have p: "peek (decodeListArray n (decoder t no_tags))" unfolding decodeListArray_frame by (rule peek_frame)
  show ?thesis
    by (rule good_map [OF accepts_ListArray sound_ListArray at_end_ListArray p enc])
      (use goodD [OF assms(1)] in auto)
qed

lemma good_ptr:
  assumes "good strict (decoder t no_tags) (enc t no_tags)" "\<not> nilOK ts"
  shows "good strict (makePtrDecoder (decoder t no_tags)) (enc (TPtr t) ts)"
  unfolding makePtrDecoder_def
  by (rule good_map [OF goodD [OF assms(1)]]) (use assms(2) in \<open>auto simp: enc_ptr\<close>)

lemma good_enc:
  assumes "good strict (decoder t no_tags) (enc t no_tags)" "decodable strict t"
  shows "good strict (decodeDecoder (genTypeInfo t) (decoder t no_tags)) (enc (TEnc False t) ts)"
proof -
  let ?d = "sbind (swrap target_ctx (decoder t no_tags)) (\<lambda>v. sreturn (VEnc v))"
  have peek: "peek ?d" using assms(1) by (auto simp: good_def intro!: peek_bind peek_wrap)
  have "decodeDecoder (genTypeInfo t) (decoder t no_tags) s = ?d s" for s
    using genTypeInfo_decodable(1) [OF assms(2)] peek
    by (cases "Stream_Kind s") (simp add: decodeDecoder_def peek_def, metis snd_conv)
  then have d: "decodeDecoder (genTypeInfo t) (decoder t no_tags) = ?d" by (rule ext)
  have ctx: "target_ctx e = EOL \<longleftrightarrow> e = EOL" for e by (cases e) (simp_all add: target_ctx_def)
  show ?thesis unfolding good_def d
  proof (intro conjI impI)
    show "accepts ?d (enc (TEnc False t) ts)"
      using goodD(1) [OF assms(1)] by (rule accepts_map) (auto simp: enc_Enc [OF assms(2)])
    show "sound ?d (enc (TEnc False t) ts)" if strict
      using goodD(2) [OF assms(1) that] by (rule sound_map) (auto simp: enc_Enc [OF assms(2)])
    show "at_end ?d" using goodD(3) [OF assms(1)] by (rule at_end_map) (simp add: ctx)
  qed (rule peek)
qed

text \<open>A pointer to a byte array with the tag \<open>nil\<close>.\<close>

lemma peekD: "peek d \<Longrightarrow> Stream_Kind s = (x, t) \<Longrightarrow> d t = d s"
  unfolding peek_def by (drule spec [of _ s]) simp

lemma optional_fallthrough:
  assumes "Stream_Kind s = (Ok (k, sz), s')" "\<not> (sz = 0 \<and> k \<noteq> KByte)" "peek d"
  shows "makeOptionalPtrDecoder d s = makePtrDecoder d s"
  using assms(1,2) peekD [OF assms(3,1)]
  by (auto simp: makeOptionalPtrDecoder_def makePtrDecoder_def sbind_def)

lemma at_end_optional:
  assumes "at_end d" "peek d"
  shows "at_end (makeOptionalPtrDecoder d)"
  unfolding at_end_def
proof (intro allI impI, elim conjE, intro conjI allI impI)
  fix s assume s: "stream_ok s" "skind s = None"
  note eol = Stream_Kind_EOL [OF s]
  {
    assume "stack s \<noteq> [] \<and> avail s = 0"
    then have "Stream_Kind s = (Err EOL, s\<lparr>kinderr := None\<rparr>)" using eol by simp
    then show "\<exists>s'. makeOptionalPtrDecoder d s = (Err EOL, s') \<and> same s' s"
      using s(2) by (simp add: makeOptionalPtrDecoder_def rearm_def same_def)
  next
    fix s' assume m: "makeOptionalPtrDecoder d s = (Err EOL, s')"
    obtain x t where k: "Stream_Kind s = (x, t)" by (cases "Stream_Kind s")
    have no: "d t \<noteq> (Err EOL, u)" if "x = Ok y" for u y
    proof
      assume "d t = (Err EOL, u)"
      then have "d s = (Err EOL, u)" using peekD [OF assms(2) k] by simp
      then have "stack s \<noteq> [] \<and> avail s = 0" using assms(1) s unfolding at_end_def by blast
      then show False using eol [of "s\<lparr>kinderr := None\<rparr>"] k that by simp
    qed
    have "x = Err EOL \<and> s' = rearm t"
      using m k no by (auto simp: makeOptionalPtrDecoder_def makePtrDecoder_def sbind_Err_iff sreturn_def
          split: outcome.splits if_splits)
    then have "stack s \<noteq> []" "avail s = 0" "t = s\<lparr>kinderr := None\<rparr>" "s' = rearm t"
      using eol [of t] k by simp_all
    then show "stack s \<noteq> []" "avail s = 0" "same s' s" using s(2) by (simp_all add: rearm_def same_def)
  }
qed

lemma good_optional:
  assumes "isByte b" "1 < n" "n < 2 ^ 64" "nilOK ts"
  shows "good False (makeOptionalPtrDecoder (decodeByteArray n)) (enc (TPtr (TArray n b)) ts)"
  unfolding good_def
proof (intro conjI impI)
  have g: "good False (decodeByteArray n) (enc (TArray n b) no_tags)" using assms by (intro good_bytearray) auto
  show "accepts (makeOptionalPtrDecoder (decodeByteArray n)) (enc (TPtr (TArray n b)) ts)"
  proof (rule acceptsI)
    fix s v e r assume s: "stream_ok s" "skind s = None" "enc (TPtr (TArray n b)) ts v e" "inp s = e @ r" "length e \<le> avail s"
    from s(3) consider (ptr) w where "v = VPtr w" "enc (TArray n b) no_tags w e" | (nil) "v = VNil" "e = rlp_str []"
      using assms by (auto simp: enc_ptr rlp_of_ptr)
    then show "\<exists>s'. makeOptionalPtrDecoder (decodeByteArray n) s = (Ok v, s') \<and> reads e s s'"
    proof cases
      case ptr
      then obtain c where c: "w = VBytes c" "length c = n" "e = rlp_str c"
        using assms(1) by (auto simp: enc_def rlp_of.simps obytes_def split: rval.splits)
      let ?h = "rlp_head 0x80 0xB7 n" and ?n = "word_of_nat n :: u64"
      have e: "e = ?h @ c" using c assms(2) by (auto simp: rlp_str_def)
      have "unat ?n = n" "?n \<noteq> 0" using assms(2,3) by (auto simp: unat_of_nat word_unat_eq_iff)
      then have "Stream_Kind s = (Ok (KString, ?n), kind_state KString ?n 0 (length ?h) s)"
        using s e c header_string [OF assms(3)] by (intro Stream_Kind_ok) auto
      then have "makeOptionalPtrDecoder (decodeByteArray n) s = makePtrDecoder (decodeByteArray n) s"
        using \<open>?n \<noteq> 0\<close> g by (intro optional_fallthrough) (auto simp: good_def)
      moreover obtain s' where "decodeByteArray n s = (Ok w, s')" "reads e s s'"
        using acceptsD [of "decodeByteArray n"] g s(1,2,4,5) ptr(2) by (auto simp: good_def) blast
      ultimately show ?thesis using ptr(1) by (auto simp: makePtrDecoder_def sreturn_def)
    next
      case nil
      then have e: "e = [0x80]" by (simp add: rlp_str_Nil)
      then have "Stream_Kind s = (Ok (KString, 0), kind_state KString 0 0 (length [0x80 :: byte]) s)"
        using s by (intro Stream_Kind_ok) (auto simp: header_def rlp_head_def)
      then show ?thesis using nil(1) s(4,5) unfolding e
        by (auto simp: makeOptionalPtrDecoder_def intro!: same_readsI)
    qed
  qed
  show "at_end (makeOptionalPtrDecoder (decodeByteArray n))"
    using goodD(3,4) [OF g] by (rule at_end_optional)
  show "peek (makeOptionalPtrDecoder (decodeByteArray n))"
    by (simp add: peek_def makeOptionalPtrDecoder_def Stream_Kind_idem)
qed simp

section \<open>Structs\<close>

text \<open>Decoding the fields from index \<open>i\<close> on: the values before it are \<open>pre\<close>.\<close>

definition fields_good :: "bool \<Rightarrow> rfield list \<Rightarrow> bool" where
  "fields_good strict fs \<longleftrightarrow>
    (\<forall>pre flds nms. structFields_loop (length pre) fs = Ok flds \<longrightarrow>
      (\<forall>s vs c r. stream_ok s \<and> skind s = None \<and> wt_fields fs vs \<and> rlp_flds flds True (pre @ vs) = Ok c \<and>
         inp s = c @ r \<and> length c \<le> avail s \<longrightarrow>
         (\<exists>s'. decode_fields flds nms (pre @ zero_fields fs) s = (Ok (pre @ vs), s') \<and> reads c s s')) \<and>
      (strict \<longrightarrow> (\<forall>s ws s'. stream_ok s \<and> skind s = None \<and>
         decode_fields flds nms (pre @ zero_fields fs) s = (Ok ws, s') \<longrightarrow>
         (\<exists>vs c. ws = pre @ vs \<and> wt_fields fs vs \<and> rlp_flds flds True ws = Ok c \<and> reads c s s'))))"

lemma fields_good_Nil: "fields_good strict []"
  by (auto simp: fields_good_def intro: reads_Nil)

lemma fields_good_skip:
  assumes "fields_good strict fs" "\<not> exported \<or> parseStructTag (Field nm exported tag t) (fs = []) = Ok ts \<and> ignored ts"
  shows "fields_good strict (Field nm exported tag t # fs)"
proof -
  have loop: "structFields_loop i (Field nm exported tag t # fs) = structFields_loop (i + 1) fs" for i
    using assms(2) by auto
  have wt: "wt_fields (Field nm exported tag t # fs) ws \<longleftrightarrow> (\<exists>vs. ws = zero_value t # vs \<and> wt_fields fs vs)" for ws
    using assms(2) by (cases ws) (auto split: outcome.splits)
  show ?thesis
    unfolding fields_good_def
  proof (intro allI impI conjI)
    fix pre :: "rval list" and flds nms s vs c r
    assume "structFields_loop (length pre) (Field nm exported tag t # fs) = Ok flds"
    then have l: "structFields_loop (length (pre @ [zero_value t])) fs = Ok flds" using loop by simp
    {
      assume "stream_ok s \<and> skind s = None \<and> wt_fields (Field nm exported tag t # fs) vs \<and>
        rlp_flds flds True (pre @ vs) = Ok c \<and> inp s = c @ r \<and> length c \<le> avail s"
      then obtain us where "vs = zero_value t # us" "stream_ok s \<and> skind s = None \<and> wt_fields fs us \<and>
          rlp_flds flds True ((pre @ [zero_value t]) @ us) = Ok c \<and> inp s = c @ r \<and> length c \<le> avail s"
        using wt by auto
      then show "\<exists>s'. decode_fields flds nms (pre @ zero_fields (Field nm exported tag t # fs)) s = (Ok (pre @ vs), s') \<and> reads c s s'"
        using assms(1) [unfolded fields_good_def, rule_format, OF l, THEN conjunct1, rule_format, of s us c r nms] by simp
    next
      fix ws s' assume strict
        "stream_ok s \<and> skind s = None \<and> decode_fields flds nms (pre @ zero_fields (Field nm exported tag t # fs)) s = (Ok ws, s')"
      then show "\<exists>vs c. ws = pre @ vs \<and> wt_fields (Field nm exported tag t # fs) vs \<and> rlp_flds flds True ws = Ok c \<and> reads c s s'"
        using assms(1) [unfolded fields_good_def, rule_format, OF l, THEN conjunct2, rule_format, of s nms ws s'] wt
        by fastforce
    }
  qed
qed

lemma fields_good_take:
  assumes fs: "fields_good strict fs" and d: "good strict (decoder t ts) (enc t ts)"
    and f: "exported" "parseStructTag (Field nm exported tag t) (fs = []) = Ok ts" "\<not> ignored ts"
  shows "fields_good strict (Field nm exported tag t # fs)"
  unfolding fields_good_def
proof (intro allI impI conjI)
  fix pre :: "rval list" and flds nms s vs c r
  assume "structFields_loop (length pre) (Field nm exported tag t # fs) = Ok flds"
  then obtain flds' where flds: "flds = (length pre, ts, t) # flds'" and
    l: "structFields_loop (length (pre @ [v])) fs = Ok flds'" for v using f by (auto simp: obind_Ok_iff)
  have wt: "wt_fields (Field nm exported tag t # fs) ws \<longleftrightarrow> (\<exists>v us. ws = v # us \<and> wt t ts v \<and> wt_fields fs us)" for ws
    using f by (cases ws) auto
  have upd: "(pre @ zero_fields (Field nm exported tag t # fs))[length pre := v] = (pre @ [v]) @ zero_fields fs" for v
    by (simp add: list_update_append)
  have enc: "rlp_flds flds True ((pre @ [v]) @ us) = Ok c \<longleftrightarrow>
      (\<exists>b d. rlp_of t ts True v = Ok b \<and> rlp_flds flds' True ((pre @ [v]) @ us) = Ok d \<and> c = b @ d)" for v us c
    by (auto simp: flds nth_append obind_Ok_iff)
  {
    assume s: "stream_ok s \<and> skind s = None \<and> wt_fields (Field nm exported tag t # fs) vs \<and>
      rlp_flds flds True (pre @ vs) = Ok c \<and> inp s = c @ r \<and> length c \<le> avail s"
    then obtain v us where vs: "vs = v # us" "wt t ts v" "wt_fields fs us" using wt by auto
    then obtain b e where c: "rlp_of t ts True v = Ok b" "rlp_flds flds' True ((pre @ [v]) @ us) = Ok e" "c = b @ e"
      using s enc [of v us c] by auto
    then obtain s1 where s1: "decoder t ts s = (Ok v, s1)" "reads b s s1"
      using acceptsD [OF goodD(1) [OF d], of s v b "e @ r"] s vs(2) by (auto simp: enc_def)
    have ok: "stream_ok s" using s by simp
    note r1 = reads_ok [OF ok s1(2)]
    have "inp s1 = e @ r" using s s1(2) c(3) by (auto simp: reads_def same_def adv_def)
    moreover have "length e \<le> avail s1" using r1(2) s c(3) by (auto simp del: wt_fields.simps)
    ultimately obtain s2 where s2: "decode_fields flds' nms ((pre @ [v]) @ zero_fields fs) s1 = (Ok ((pre @ [v]) @ us), s2)"
        "reads e s1 s2"
      using fs [unfolded fields_good_def, rule_format, OF l, THEN conjunct1, rule_format, of s1 us v e r nms]
        r1(1,3) vs(3) c(2) by auto
    then show "\<exists>s'. decode_fields flds nms (pre @ zero_fields (Field nm exported tag t # fs)) s = (Ok (pre @ vs), s') \<and> reads c s s'"
      using s1 upd [of v] vs(1) c(3) reads_trans [OF ok s1(2) s2(2)] by (simp add: flds)
  next
    fix ws s' assume strict and
      s: "stream_ok s \<and> skind s = None \<and> decode_fields flds nms (pre @ zero_fields (Field nm exported tag t # fs)) s = (Ok ws, s')"
    then obtain v s1 where s1: "decoder t ts s = (Ok v, s1)"
        "decode_fields flds' nms ((pre @ [v]) @ zero_fields fs) s1 = (Ok ws, s')"
      using upd by (auto simp: flds split: prod.splits outcome.splits)
    have ok: "stream_ok s" "skind s = None" using s by simp_all
    obtain b where b: "enc t ts v b" "reads b s s1" using soundD [OF goodD(2) [OF d \<open>strict\<close>] ok s1(1)] by blast
    note r1 = reads_ok [OF ok(1) b(2)]
    obtain us e where us: "ws = (pre @ [v]) @ us" "wt_fields fs us" "rlp_flds flds' True ws = Ok e" "reads e s1 s'"
      using fs [unfolded fields_good_def, rule_format, OF l, THEN conjunct2, rule_format, of s1 nms v ws s'] r1 s1(2)
        \<open>strict\<close> by auto
    then show "\<exists>vs c. ws = pre @ vs \<and> wt_fields (Field nm exported tag t # fs) vs \<and> rlp_flds flds True ws = Ok c \<and> reads c s s'"
      using wt [of "v # us"] enc [of v us "b @ e"] b reads_trans [OF ok(1) b(2) us(4)]
      by (intro exI [of _ "v # us"] exI [of _ "b @ e"]) (auto simp: enc_def simp del: wt_fields.simps)
  }
qed

lemma good_struct:
  assumes "fields_good strict fs" "decodable_fields strict fs"
  shows "good strict (decoder (TStruct fs) ts) (enc (TStruct fs) ts)"
proof -
  obtain flds where flds: "structFields_loop 0 fs = Ok flds" using structFields_decodable [OF assms(2)] by blast
  then have sf: "structFields fs = Ok flds" by (simp add: structFields_def)
  let ?b = "\<lambda>_ :: u64. decode_fields flds (map fname fs) (zero_fields fs)"
  let ?E = "\<lambda>vs c. wt_fields fs vs \<and> rlp_flds flds True vs = Ok c"
  have d: "decoder (TStruct fs) ts = sbind (list_frame wrapStreamError ?b) (\<lambda>vs. sreturn (VStruct vs))"
    by (simp add: decoder.simps sf list_frame_def sbind_assoc)
  have enc: "enc (TStruct fs) ts v e \<longleftrightarrow> (\<exists>vs. v = VStruct vs \<and> (\<exists>c. ?E vs c \<and> e = rlp_list c))" for v e
    by (auto simp: enc_def rlp_of.simps sf obind_Ok_iff split: rval.splits)
  note f = assms(1) [unfolded fields_good_def, rule_format, of "[]" flds, simplified, OF flds]
  have "accepts (list_frame wrapStreamError ?b) (\<lambda>vs e. \<exists>c. ?E vs c \<and> e = rlp_list c)"
    by (rule accepts_frame) (use f in \<open>auto simp: in_list_def\<close>)
  moreover have "sound (list_frame wrapStreamError ?b) (\<lambda>vs e. \<exists>c. ?E vs c \<and> e = rlp_list c)" if strict
    by (rule sound_frame) (use f that in \<open>auto simp: in_list_def\<close>)
  moreover have "decode_fields gs nms us s \<noteq> (Err EOL, s')" for gs nms us s s'
  proof (induction gs arbitrary: us s)
    case (Cons g gs)
    have "addErrorContext x e = EOL \<longleftrightarrow> e = EOL" for x e by (cases e) (simp_all add: addErrorContext_def)
    then show ?case using Cons by (cases g) (auto split: prod.splits outcome.splits)
  qed (simp add: sreturn_def)
  then have "at_end (list_frame wrapStreamError ?b)"
    by (intro at_end_frame) (auto simp: wrapStreamError_EOL)
  ultimately show ?thesis unfolding d using peek_frame enc by (intro good_map) auto
qed

section \<open>All decodable types\<close>

lemma decoder_eqs:
  "decoder (TUint n) ts = decodeUint n" "decoder TBool ts = decodeBool" "decoder TString ts = decodeString"
  "decoder TBig ts = decodeBigInt" "decoder TBigPtr ts = decodeBigInt"
  "isByte t \<Longrightarrow> decoder (TSlice t) ts = decodeByteSlice"
  "\<not> isByte t \<Longrightarrow> \<not> tail ts \<Longrightarrow>
    decoder (TSlice t) ts = sbind (decodeListSlice (decoder t no_tags)) (\<lambda>vs. sreturn (VList vs))"
  "isByte t \<Longrightarrow> decoder (TArray n t) ts = decodeByteArray n"
  "\<not> isByte t \<Longrightarrow>
    decoder (TArray n t) ts = sbind (decodeListArray n (decoder t no_tags)) (\<lambda>vs. sreturn (VList vs))"
  "nilOK ts \<Longrightarrow> \<not> implementsDecoder t \<Longrightarrow> decoder (TPtr t) ts = makeOptionalPtrDecoder (decoder t no_tags)"
  "\<not> nilOK ts \<Longrightarrow> decoder (TPtr t) ts = makePtrDecoder (decoder t no_tags)"
  "decoder (TEnc ptr t) ts = decodeDecoder (genTypeInfo t) (decoder t no_tags)"
  by (subst decoder.simps; simp)+

lemma good_decoder:
  "decodable strict t \<Longrightarrow> field_tags strict ts t \<Longrightarrow> good strict (decoder t ts) (enc t ts)"
  "decodable_fields strict fs \<Longrightarrow> fields_good strict fs"
proof (induction strict t and strict fs arbitrary: ts rule: decodable_decodable_fields.induct)
  case (1 strict n)
  then show ?case using good_uint [of n strict ts] by (simp add: decoder_eqs)
next
  case (2 strict t)
  have "\<not> tail ts" using "2.prems"(2) by (simp add: field_tags_def)
  then show ?case using "2.IH" [of no_tags] "2.prems"(1) good_bytes [of t strict ts] good_slice [of strict t ts]
    by (cases "isByte t") (simp_all add: decoder_eqs)
next
  case (3 strict n t)
  have "\<not> tail ts" using "3.prems"(2) by (simp add: field_tags_def)
  then show ?case using "3.IH" [of no_tags] "3.prems"(1) good_bytearray [of t n strict ts] good_array [of strict t ts n]
    by (cases "isByte t") (simp_all add: decoder_eqs)
next
  case (4 strict t)
  show ?case
  proof (cases "nilOK ts")
    case True
    with "4.prems"(2) obtain n b where "t = TArray n b" "isByte b" "1 < n" "\<not> strict" by (rule nil_ptr)
    then show ?thesis using True "4.prems"(1) good_optional [of b n ts] by (simp add: decoder_eqs implementsDecoder_def)
  next
    case False
    then show ?thesis using "4.IH" [of no_tags] "4.prems"(1) good_ptr [of strict t ts] by (simp add: decoder_eqs)
  qed
next
  case (5 strict ptr t)
  then show ?case using "5.IH" [of no_tags] good_enc [of strict t ts] by (simp add: decoder_eqs)
next
  case (6 strict fs)
  then show ?case using good_struct by simp
next
  case (9 strict nm exported tag t fs)
  show ?case
  proof (cases exported)
    case True
    then obtain ts where ts: "parseStructTag (Field nm exported tag t) (fs = []) = Ok ts"
        "ignored ts \<or> field_tags strict ts t \<and> decodable strict t"
      using "9.prems" by (auto split: outcome.splits)
    moreover have "fields_good strict fs" using "9.IH"(2) "9.prems" by simp
    ultimately show ?thesis
      using fields_good_skip [of strict fs exported nm tag t ts] fields_good_take [of strict fs t ts exported nm tag]
        "9.IH"(1) [OF True ts(1)] True by blast
  next
    case False
    then show ?thesis using "9.IH"(2) "9.prems" fields_good_skip by simp
  qed
qed (use good_bool good_string good_big fields_good_Nil in \<open>simp_all add: decoder_eqs\<close>)

section \<open>Whole inputs\<close>

abbreviation byte_stream :: "bytes \<Rightarrow> Stream" where
  "byte_stream b \<equiv> NewStream b (word_of_nat (length b)) True"

lemma byte_stream:
  assumes "length b < 2 ^ 64"
  shows "stream_ok (byte_stream b)" "skind (byte_stream b) = None" "inp (byte_stream b) = b"
    "avail (byte_stream b) = length b"
  using assms by (auto simp: NewStream_def Stream_Reset_def stream_ok_def avail_def unat_of_nat)

lemma DecodeBytes_Ok:
  assumes "decodable strict t"
  shows "DecodeBytes b t = Ok v \<longleftrightarrow> (\<exists>s'. decoder t no_tags (byte_stream b) = (Ok v, s') \<and> inp s' = [])"
  using genTypeInfo_decodable(1) [OF assms]
  by (auto simp: DecodeBytes_def Stream_Decode_def swrap_def omap_err_Ok_iff split: prod.splits outcome.splits)

lemma EncodeToBytes_enc:
  assumes "decodable strict t" "length b < 2 ^ 64" "enc t no_tags v b"
  shows "EncodeToBytes t v = Ok b"
proof -
  have "rlp_top t v = Ok b"
    using assms(3) rlp_of_addr(1) [OF assms(1), of no_tags False _ True] genTypeInfo_decodable(1) [OF assms(1)]
    by (simp add: enc_def rlp_top.simps)
  then obtain w where "encbuf_encode t v encbuf_reset = Ok w" "holds w b"
    using assms(2) encbuf_encode_holds by blast
  then show ?thesis by (simp add: EncodeToBytes_def holds_def toBytes_render)
qed

lemmas tag_eval = parseStructTag_def TrimSpace_tags field_tags_def isByte_def no_tags_def

lemmas enc_eval = rlp_of.simps structFields_def tag_eval rlp_str_def rlp_list_def rlp_head_def rlp_big_def
  big_Bytes.simps isStructOrArray_def obytes_def

text \<open>
  C1. Round trip: a well-typed value whose canonical encoding is shorter than \<open>2^64\<close> bytes is encoded by
  \<open>EncodeToBytes\<close> and decoded by \<open>DecodeBytes\<close> to the same value. The types are built from the integers,
  booleans, strings, big integers, slices, arrays other than one-byte arrays, pointers, encodable types
  and structs, with the tags \<open>-\<close> and (for pointers to byte arrays) \<open>nil\<close>.
\<close>
theorem DecodeBytes_EncodeToBytes:
  assumes "decodable False t" "wt t no_tags v" "rlp_of t no_tags True v = Ok b" "length b < 2 ^ 64"
  shows "EncodeToBytes t v = Ok b \<and> DecodeBytes b t = Ok v"
proof -
  have e: "enc t no_tags v b" using assms by (simp add: enc_def)
  obtain s' where s': "decoder t no_tags (byte_stream b) = (Ok v, s')" "reads b (byte_stream b) s'"
    using acceptsD [OF goodD(1) [OF good_decoder(1) [OF assms(1) field_tags_no_tags]] byte_stream(1,2) [OF assms(4)] e, of "[]"]
      byte_stream [OF assms(4)] by auto
  then have "inp s' = []" using byte_stream(3) [OF assms(4)] by (simp add: reads_def same_def adv_def)
  then show ?thesis using s'(1) EncodeToBytes_enc [OF assms(1,4) e] DecodeBytes_Ok [OF assms(1)] by blast
qed

lemma DecodeBytes_EncodeToBytes_witness:
  "EncodeToBytes (TStruct [Field ''Nonce'' True [] (TUint 64), Field ''Amount'' True [] TBigPtr,
       Field ''hash'' False [] TBool, Field ''Recipient'' True ''nil'' (TPtr (TArray 20 (TUint 8)))])
     (VStruct [VUint 5, VBig 300, VBool False, VNil]) = Ok [0xC5, 5, 0x82, 1, 0x2C, 0x80] \<and>
   DecodeBytes [0xC5, 5, 0x82, 1, 0x2C, 0x80]
     (TStruct [Field ''Nonce'' True [] (TUint 64), Field ''Amount'' True [] TBigPtr,
       Field ''hash'' False [] TBool, Field ''Recipient'' True ''nil'' (TPtr (TArray 20 (TUint 8)))]) =
     Ok (VStruct [VUint 5, VBig 300, VBool False, VNil])"
  by (rule DecodeBytes_EncodeToBytes) ((simp add: tag_eval; fail) | (simp add: enc_eval; fail) | simp)+

text \<open>
  C2. Canonicity: for the types built from unsigned integers, booleans, strings, big integers, slices, arrays other than those of one byte, structs and
  pointers without the tags \<open>nil\<close> and \<open>tail\<close> (\<open>decodable True\<close>), the only input of less than 2 to the 64 bytes that \<open>DecodeBytes\<close> decodes to a value
  is the encoding of that value, and the value is well typed.
\<close>
theorem DecodeBytes_canonical:
  assumes "decodable True t" "length b < 2 ^ 64" "DecodeBytes b t = Ok v"
  shows "wt t no_tags v \<and> EncodeToBytes t v = Ok b"
proof -
  obtain s' where s': "decoder t no_tags (byte_stream b) = (Ok v, s')" "inp s' = []"
    using assms(3) DecodeBytes_Ok [OF assms(1)] by blast
  then obtain e where e: "enc t no_tags v e" "reads e (byte_stream b) s'"
    using soundD [OF goodD(2) [OF good_decoder(1) [OF assms(1) field_tags_no_tags]] byte_stream(1,2) [OF assms(2)]] by auto
  then have "e = b" using s'(2) byte_stream(3) [OF assms(2)] by (auto simp: reads_def same_def adv_def)
  then show ?thesis using e(1) EncodeToBytes_enc [OF assms(1,2)] by (simp add: enc_def)
qed

lemma DecodeBytes_canonical_witness:
  "wt (TSlice (TUint 8)) no_tags (VBytes [200]) \<and> EncodeToBytes (TSlice (TUint 8)) (VBytes [200]) = Ok [0x81, 200]"
  by (rule DecodeBytes_canonical) (simp_all add: enc_eval, code_simp)

end
