(* ===== verification/RlpTermination.thy ===== *)
theory RlpTermination
  imports RlpRoundtrip
begin

text \<open>
  When decoding ends. Every decoder leaves at most as much input as it found, and a decoder of list elements that returns
  a value leaves less, unless it is stuck at its value. So the bound on the rounds of \<open>decodeSliceElems\<close> is enough: the loop
  ends within it or not at all. A stuck decoder is that of an array of one byte, at the byte \<open>0\<close>.
\<close>

section \<open>What is left to read\<close>

text \<open>A value whose header was read counts as one byte.\<close>

definition left :: "Stream \<Rightarrow> nat" where
  "left s = length (inp s) + (if skind s \<noteq> None \<and> kinderr s = None then 1 else 0)"

definition sane :: "Stream \<Rightarrow> bool" where
  "sane s \<longleftrightarrow> kinderr s \<noteq> Some Diverges"

definition keeps :: "'a reading \<Rightarrow> bool" where
  "keeps m \<longleftrightarrow> (\<forall>s r s'. m s = (r, s') \<longrightarrow> left s' \<le> left s \<and> (sane s \<longrightarrow> sane s'))"

definition progress :: "'a reading \<Rightarrow> bool" where
  "progress m \<longleftrightarrow> (\<forall>s v s'. m s = (Ok v, s') \<longrightarrow> left s' < left s)"

text \<open>An operation that returns on every stream with less than \<open>k\<close> bytes to read.\<close>

definition returns :: "nat \<Rightarrow> 'a reading \<Rightarrow> bool" where
  "returns k m \<longleftrightarrow> (\<forall>s. left s < k \<longrightarrow> sane s \<longrightarrow> fst (m s) \<noteq> Err Diverges)"

lemma keepsD: "keeps m \<Longrightarrow> m s = (r, s') \<Longrightarrow> left s' \<le> left s \<and> (sane s \<longrightarrow> sane s')"
  unfolding keeps_def by blast

lemma progressD: "progress m \<Longrightarrow> m s = (Ok v, s') \<Longrightarrow> left s' < left s"
  unfolding progress_def by blast

lemma returnsD: "returns k m \<Longrightarrow> left s < k \<Longrightarrow> sane s \<Longrightarrow> m s \<noteq> (Err Diverges, s')"
  unfolding returns_def by (metis fst_conv)

lemma keeps_sbind:
  assumes "keeps m" "\<And>a. keeps (f a)"
  shows "keeps (sbind m f)"
  unfolding keeps_def
proof (intro allI impI)
  fix s r s' assume eq: "sbind m f s = (r, s')"
  obtain x s1 where x: "m s = (x, s1)" by fastforce
  with keepsD [OF assms(1)] have s1: "left s1 \<le> left s" "sane s \<longrightarrow> sane s1" by blast+
  show "left s' \<le> left s \<and> (sane s \<longrightarrow> sane s')"
  proof (cases x)
    case (Ok a)
    then have "f a s1 = (r, s')" using eq x by (simp add: sbind_def)
    from keepsD [OF assms(2) this] show ?thesis using s1 by auto
  qed (use eq x s1 in \<open>auto simp: sbind_def\<close>)
qed

lemma progress_sbind1:
  assumes "progress m" "\<And>a. keeps (f a)"
  shows "progress (sbind m f)"
  unfolding progress_def sbind_Ok_iff
proof (intro allI impI, elim exE conjE)
  fix s v s' a s1 assume "m s = (Ok a, s1)" "f a s1 = (Ok v, s')"
  then show "left s' < left s" using progressD [OF assms(1)] keepsD [OF assms(2)] by (meson le_less_trans)
qed

lemma progress_sbind2:
  assumes "keeps m" "\<And>a. progress (f a)"
  shows "progress (sbind m f)"
  unfolding progress_def sbind_Ok_iff
proof (intro allI impI, elim exE conjE)
  fix s v s' a s1 assume "m s = (Ok a, s1)" "f a s1 = (Ok v, s')"
  then show "left s' < left s" using progressD [OF assms(2)] keepsD [OF assms(1)] by (meson less_le_trans)
qed

lemma returns_sbind:
  assumes "returns k m" "keeps m" "\<And>a. returns k (f a)"
  shows "returns k (sbind m f)"
  unfolding returns_def
proof (intro allI impI)
  fix s assume s: "left s < k" "sane s"
  obtain x s1 where x: "m s = (x, s1)" by fastforce
  then have "left s1 < k" "sane s1" using keepsD [OF assms(2)] s by (meson le_less_trans)+
  then show "fst (sbind m f s) \<noteq> Err Diverges"
    using x returnsD [OF assms(1) s] assms(3) by (cases x) (auto simp: sbind_def returns_def)
qed

lemma returns_sbind_less:
  assumes "returns (Suc n) m" "keeps m" "progress m" "\<And>a. returns n (f a)"
  shows "returns (Suc n) (sbind m f)"
  unfolding returns_def
proof (intro allI impI)
  fix s assume s: "left s < Suc n" "sane s"
  obtain x s1 where x: "m s = (x, s1)" by fastforce
  then have "sane s1" using keepsD [OF assms(2)] s by blast
  moreover have "left s1 < n" if "x = Ok a" for a using progressD [OF assms(3)] x that s(1) by fastforce
  ultimately show "fst (sbind m f s) \<noteq> Err Diverges"
    using x returnsD [OF assms(1) s] assms(4) by (cases x) (auto simp: sbind_def returns_def)
qed

lemma keeps_swrap: "keeps m \<Longrightarrow> keeps (swrap g m)"
  unfolding keeps_def swrap_def by (auto split: prod.splits)

lemma progress_swrap: "progress m \<Longrightarrow> progress (swrap g m)"
  unfolding progress_def swrap_def by (auto simp: omap_err_Ok_iff split: prod.splits)

definition keeps_error :: "(rlp_error \<Rightarrow> rlp_error) \<Rightarrow> bool" where
  "keeps_error g \<longleftrightarrow> (\<forall>e. g e = Diverges \<longleftrightarrow> e = Diverges)"

lemma keeps_errors: "keeps_error wrapStreamError" "keeps_error target_ctx" "keeps_error (addErrorContext c)"
proof -
  have "wrapStreamError e = Diverges \<longleftrightarrow> e = Diverges" "target_ctx e = Diverges \<longleftrightarrow> e = Diverges" "addErrorContext c e = Diverges \<longleftrightarrow> e = Diverges" for e
    by (cases e; simp add: wrapStreamError_def target_ctx_def addErrorContext_def)+
  then show "keeps_error wrapStreamError" "keeps_error target_ctx" "keeps_error (addErrorContext c)" by (simp_all add: keeps_error_def)
qed

lemma returns_swrap: "returns k m \<Longrightarrow> keeps_error g \<Longrightarrow> returns k (swrap g m)"
  unfolding returns_def keeps_error_def swrap_def by (auto split: prod.splits) (metis fst_conv omap_err.simps outcome.exhaust outcome.inject(2) outcome.distinct)

lemma simple_ops [simp]:
  "keeps (sreturn a)" "returns k (sreturn a)" "keeps (sfail e)" "progress (sfail e)" "e \<noteq> Diverges \<Longrightarrow> returns k (sfail e)"
  by (simp_all add: keeps_def progress_def returns_def sreturn_def sfail_def)

section \<open>The operations of the stream\<close>

lemma willRead_keeps:
  assumes "willRead n s = (r, s')"
  shows "inp s' = inp s \<and> skind s' = None \<and> kinderr s' = kinderr s \<and> r \<noteq> Err Diverges"
  using assms by (auto simp: willRead_def willRead_limit_def Let_def split: list.splits prod.splits if_splits)

lemma readFull_keeps:
  assumes "readFull n s = (r, s')"
  shows "length (inp s') \<le> length (inp s) \<and> skind s' = None \<and> kinderr s' = kinderr s \<and> r \<noteq> Err Diverges"
proof -
  obtain x s1 where "willRead n s = (x, s1)" by fastforce
  with willRead_keeps [OF this] assms show ?thesis by (cases x) (auto simp: readFull_def sbind_def split: if_splits)
qed

lemma readByte_keeps:
  assumes "readByte s = (r, s')"
  shows "length (inp s') \<le> length (inp s) \<and> skind s' = None \<and> kinderr s' = kinderr s \<and> r \<noteq> Err Diverges \<and>
    (\<forall>b. r = Ok b \<longrightarrow> length (inp s') < length (inp s))"
proof -
  obtain x s1 where "willRead 1 s = (x, s1)" by fastforce
  with willRead_keeps [OF this] assms show ?thesis by (cases x) (auto simp: readByte_def sbind_def split: list.splits)
qed

lemma readUint_keeps:
  assumes "readUint n s = (r, s')"
  shows "length (inp s') \<le> length (inp s) \<and> skind s' = None \<and> kinderr s' = kinderr s \<and> r \<noteq> Err Diverges"
proof -
  obtain x s1 where x: "readByte s = (x, s1)" by fastforce
  obtain y s2 where y: "readFull (ucast n) s = (y, s2)" by fastforce
  show ?thesis using assms readByte_keeps [OF x] readFull_keeps [OF y] x y
    by (cases x; cases y) (auto simp: readUint_def sbind_def sreturn_def sfail_def Let_def split: if_splits)
qed

lemma readKind_long_keeps:
  assumes "readKind_long k n s = ((k', sz, e), s')"
  shows "length (inp s') \<le> length (inp s) \<and> e \<noteq> Some Diverges"
proof -
  obtain x s1 where x: "readUint n s = (x, s1)" by fastforce
  show ?thesis using assms readUint_keeps [OF x] x by (cases x) (auto simp: readKind_long_def split: if_splits)
qed

lemma readKind_keeps:
  assumes "Stream_readKind s = ((k, sz, e), s')"
  shows "length (inp s') \<le> length (inp s) \<and> e \<noteq> Some Diverges \<and> (e = None \<longrightarrow> length (inp s') < length (inp s))"
proof -
  obtain x s1 where x: "readByte s = (x, s1)" by fastforce
  note r = readByte_keeps [OF x]
  show ?thesis
  proof (cases x)
    case (Ok b)
    then show ?thesis using assms r x readKind_long_keeps [of _ _ "s1\<lparr>byteval := 0\<rparr>" k sz e s']
      by (fastforce simp: Stream_readKind_def split: if_splits)
  qed (use assms r x in \<open>auto simp: Stream_readKind_def split: if_splits\<close>)
qed

lemma Kind_keeps:
  assumes "Stream_Kind s = (r, s')"
  shows "left s' \<le> left s \<and> (sane s \<longrightarrow> sane s') \<and> (sane s \<longrightarrow> r \<noteq> Err Diverges) \<and>
    (\<forall>k. r = Ok k \<longrightarrow> skind s' = Some (fst k) \<and> kinderr s' = None)"
proof (cases "skind s = None")
  case True
  obtain k sz e s1 where k: "Stream_readKind (s\<lparr>kinderr := None\<rparr>) = ((k, sz, e), s1)" by (metis surj_pair)
  show ?thesis using assms True readKind_keeps [OF k] k
    by (auto simp: Stream_Kind_def cached_Kind_def left_def sane_def Let_def split: list.splits option.splits if_splits)
next
  case False
  then show ?thesis using assms by (auto simp: Stream_Kind_def cached_Kind_def sane_def split: option.splits)
qed

lemma Kind_ops: "keeps Stream_Kind" "returns k Stream_Kind"
  unfolding keeps_def returns_def using Kind_keeps by (blast, metis prod.collapse)

text \<open>What follows on \<open>Kind\<close> need only consume the value whose header was read.\<close>

definition after_Kind :: "('k \<Rightarrow> 'a reading) \<Rightarrow> bool" where
  "after_Kind f \<longleftrightarrow> (\<forall>a s r s'. f a s = (r, s') \<longrightarrow> length (inp s') \<le> length (inp s) \<and> kinderr s' = kinderr s \<and> r \<noteq> Err Diverges \<and>
    (\<forall>v. r = Ok v \<longrightarrow> skind s' = None) \<and> (skind s' = None \<or> skind s' = skind s))"

lemma after_Kind_ops:
  assumes "after_Kind f"
  shows "keeps (sbind Stream_Kind f)" "progress (sbind Stream_Kind f)" "returns k (sbind Stream_Kind f)"
proof -
  have *: "left s' \<le> left s \<and> (sane s \<longrightarrow> sane s') \<and> (\<forall>v. r = Ok v \<longrightarrow> left s' < left s) \<and> (sane s \<longrightarrow> r \<noteq> Err Diverges)"
    if eq: "sbind Stream_Kind f s = (r, s')" for s r s'
  proof -
    obtain x s1 where x: "Stream_Kind s = (x, s1)" by fastforce
    note K = Kind_keeps [OF x]
    show ?thesis
    proof (cases x)
      case (Ok a)
      then have "f a s1 = (r, s')" using eq x by (simp add: sbind_def)
      then have "length (inp s') \<le> length (inp s1)" "kinderr s' = kinderr s1" "r \<noteq> Err Diverges" "\<forall>v. r = Ok v \<longrightarrow> skind s' = None"
        "skind s' = None \<or> skind s' = skind s1" using assms unfolding after_Kind_def by blast+
      then show ?thesis using K Ok by (auto simp: left_def sane_def)
    qed (use K eq x in \<open>auto simp: sbind_def\<close>)
  qed
  show "keeps (sbind Stream_Kind f)" unfolding keeps_def using * by blast
  show "progress (sbind Stream_Kind f)" unfolding progress_def using * by blast
  show "returns k (sbind Stream_Kind f)" unfolding returns_def using * by (metis prod.collapse)
qed

lemma after_Kinds:
  "after_Kind (\<lambda>(k, sz). case k of KByte \<Rightarrow> (\<lambda>s. (Ok [byteval s], rearm s))
      | KString \<Rightarrow> sbind (readFull sz) (\<lambda>b. if sz = 1 \<and> b ! 0 < 128 then sfail ErrCanonSize else sreturn b)
      | KList \<Rightarrow> sfail ErrExpectedString)"
  "after_Kind (\<lambda>(k, sz). if k = KByte then (\<lambda>s. (Ok [byteval s], rearm s))
      else sbind (readFull sz) (\<lambda>content.
        if k = KString then sreturn (puthead 0x80 0xB7 sz @ content) else sreturn (puthead 0xC0 0xF7 sz @ content)))"
  unfolding after_Kind_def
  by (auto simp: sbind_def sreturn_def sfail_def rearm_def split: Kind.splits if_splits prod.splits outcome.splits dest!: readFull_keeps)

lemma after_Kind_uint:
  "after_Kind (\<lambda>(k, sz). case k of
        KByte \<Rightarrow> (\<lambda>s. if byteval s = 0 then (Err ErrCanonInt, s) else (Ok (ucast (byteval s)), rearm s))
      | KString \<Rightarrow>
          if sz > word_of_nat (maxbits div 8) then sfail ErrUintOverflow
          else (\<lambda>s.
            case readUint (ucast sz) s of
              (Ok v, s) \<Rightarrow> if sz > 0 \<and> v < 128 then (Err ErrCanonSize, s) else (Ok v, s)
            | (Err e, s) \<Rightarrow> (Err (if e = ErrCanonSize then ErrCanonInt else e), s)
            | (Panic, s) \<Rightarrow> (Panic, s))
      | KList \<Rightarrow> sfail ErrExpectedString)"
  unfolding after_Kind_def
  by (auto simp: sfail_def rearm_def split: Kind.splits if_splits prod.splits outcome.splits dest!: readUint_keeps)

lemma after_Kind_list:
  "after_Kind (\<lambda>(k, sz) s. if k \<noteq> KList then (Err ErrExpectedList, s)
      else (Ok sz, s\<lparr>stack := (0, sz) # stack s, skind := None, ssize := 0\<rparr>))"
  unfolding after_Kind_def by (auto split: if_splits)

lemmas value_ops =
  after_Kind_ops [OF after_Kinds(1), folded Stream_Bytes_def] after_Kind_ops [OF after_Kinds(2), folded Stream_Raw_def]
  after_Kind_ops [OF after_Kind_uint, folded Stream_uint_def] after_Kind_ops [OF after_Kind_list, folded Stream_List_def]

lemma ListEnd_ops: "keeps Stream_ListEnd" "returns k Stream_ListEnd"
  by (auto simp: keeps_def returns_def Stream_ListEnd_def left_def sane_def split: list.splits prod.splits if_splits)

lemma Bool_ops: "keeps Stream_Bool" "progress Stream_Bool" "returns k Stream_Bool"
  unfolding Stream_Bool_def by (intro keeps_sbind progress_sbind1 returns_sbind value_ops; simp)+

section \<open>Loops over the elements of a list\<close>

text \<open>A decoder of elements consumes input with every value it returns, unless it is stuck: at a byte whose header was read it
  returns a value and leaves the stream as it is.\<close>

definition at_byte :: "Stream \<Rightarrow> bool" where
  "at_byte s \<longleftrightarrow> skind s = Some KByte \<and> kinderr s = None"

definition advances :: "'a reading \<Rightarrow> bool" where
  "advances d \<longleftrightarrow> (\<forall>s v s'. d s = (Ok v, s') \<longrightarrow> left s' < left s \<or> at_byte s' \<and> (\<exists>w. d s' = (Ok w, s')))"

lemma progress_advances: "progress d \<Longrightarrow> advances d"
  by (simp add: progress_def advances_def)

lemma loop_Suc_Ok: "d s = (Ok v, s1) \<Longrightarrow>
    decodeSliceElems_loop (Suc n) d i s = sbind (decodeSliceElems_loop n d (i + 1)) (\<lambda>vs. sreturn (v # vs)) s1"
  by simp

lemma sbind_Diverges: "fst (sbind m (\<lambda>a. sreturn (f a)) s) = Err Diverges \<longleftrightarrow> fst (m s) = Err Diverges"
  by (cases "m s"; cases "fst (m s)") (auto simp: sbind_def sreturn_def)

lemma loop_stuck:
  assumes "d s = (Ok v, s)"
  shows "fst (decodeSliceElems_loop n d i s) = Err Diverges"
  by (induction n arbitrary: i) (simp_all add: loop_Suc_Ok [of d s v s, OF assms] sbind_Diverges del: decodeSliceElems_loop.simps(2))

lemma loop_Diverges:
  assumes "advances d"
  shows "left s < n \<Longrightarrow> fst (decodeSliceElems_loop n d i s) = Err Diverges \<Longrightarrow> fst (decodeSliceElems_loop m d i s) = Err Diverges"
proof (induction n arbitrary: m i s)
  case (Suc n)
  show ?case
  proof (cases m)
    case (Suc m')
    obtain x s1 where x: "d s = (x, s1)" by fastforce
    show ?thesis
    proof (cases x)
      case (Ok v)
      note eq = loop_Suc_Ok [of d s v s1, OF x [unfolded Ok]]
      consider "left s1 < left s" | w where "d s1 = (Ok w, s1)" using assms x Ok unfolding advances_def by blast
      then show ?thesis
      proof cases
        case 1
        then show ?thesis using Suc.IH [of s1 "i + 1" m'] Suc.prems \<open>m = Suc m'\<close> by (simp add: eq sbind_Diverges del: decodeSliceElems_loop.simps)
      next
        case 2
        then show ?thesis using loop_stuck [of d s1 w m' "i + 1", OF 2] \<open>m = Suc m'\<close> by (simp add: eq sbind_Diverges del: decodeSliceElems_loop.simps)
      qed
    qed (use Suc.prems x \<open>m = Suc m'\<close> in auto)
  qed simp
qed simp

lemma loop_more:
  "decodeSliceElems_loop n d i s = (r, s') \<Longrightarrow> r \<noteq> Err Diverges \<Longrightarrow> n \<le> m \<Longrightarrow> decodeSliceElems_loop m d i s = (r, s')"
proof (induction n arbitrary: m i s r s')
  case (Suc n)
  then obtain m' where m: "m = Suc m'" "n \<le> m'" by (metis Suc_le_D Suc_le_mono)
  obtain x s1 where x: "d s = (x, s1)" by fastforce
  show ?case
  proof (cases x)
    case (Ok v)
    note eq = loop_Suc_Ok [of d s v s1, OF x [unfolded Ok]]
    obtain y s2 where y: "decodeSliceElems_loop n d (i + 1) s1 = (y, s2)" by fastforce
    then have "y \<noteq> Err Diverges" using Suc.prems(1,2) by (auto simp: eq sbind_def simp del: decodeSliceElems_loop.simps)
    then have "decodeSliceElems_loop m' d (i + 1) s1 = (y, s2)" using Suc.IH [OF y] m(2) by blast
    then show ?thesis using Suc.prems(1) y m(1) by (simp add: eq sbind_def del: decodeSliceElems_loop.simps)
  qed (use Suc.prems(1) x m in auto)
qed simp

text \<open>The bound is enough: when the loop ends within any number of rounds, \<open>decodeSliceElems\<close> has the result of these rounds.\<close>

lemma decodeSliceElems_bound:
  assumes "advances d" "fst (decodeSliceElems_loop n d 0 s) \<noteq> Err Diverges"
  shows "decodeSliceElems d s = decodeSliceElems_loop n d 0 s"
proof -
  let ?N = "Suc (Suc (length (inp s)))"
  have "left s < ?N" by (simp add: left_def)
  then have "fst (decodeSliceElems_loop ?N d 0 s) \<noteq> Err Diverges" using loop_Diverges [OF assms(1), of s ?N 0 n] assms(2) by blast
  then show ?thesis using assms(2) loop_more [of n d 0 s _ _ ?N] loop_more [of ?N d 0 s _ _ n] unfolding decodeSliceElems_def
    by (metis linear prod.collapse)
qed

lemma loop_keeps: "keeps d \<Longrightarrow> keeps (decodeSliceElems_loop n d i)"
proof (induction n arbitrary: i)
  case (Suc n)
  have k: "keeps (sbind (decodeSliceElems_loop n d (i + 1)) (\<lambda>vs. sreturn (v # vs)))" for v
    using Suc by (intro keeps_sbind) simp_all
  show ?case unfolding keeps_def
  proof (intro allI impI)
    fix s r s' assume eq: "decodeSliceElems_loop (Suc n) d i s = (r, s')"
    obtain x s1 where x: "d s = (x, s1)" by fastforce
    from keepsD [OF Suc.prems x] show "left s' \<le> left s \<and> (sane s \<longrightarrow> sane s')"
      using eq x keepsD [OF k] by (cases x) (fastforce split: if_splits)+
  qed
qed (simp add: keeps_def)

lemma slice_keeps: "keeps d \<Longrightarrow> keeps (decodeSliceElems d)"
  using loop_keeps unfolding keeps_def decodeSliceElems_def by blast

lemma loop_returns:
  assumes "keeps d" "progress d" "returns k d"
  shows "left s < n \<Longrightarrow> left s < k \<Longrightarrow> sane s \<Longrightarrow> fst (decodeSliceElems_loop n d i s) \<noteq> Err Diverges"
proof (induction n arbitrary: i s)
  case (Suc n)
  obtain x s1 where x: "d s = (x, s1)" by fastforce
  show ?case
  proof (cases x)
    case (Ok v)
    have "left s1 < left s" "sane s1" using progressD [OF assms(2)] keepsD [OF assms(1)] x Ok Suc.prems(3) by blast+
    then have "fst (decodeSliceElems_loop n d (i + 1) s1) \<noteq> Err Diverges" using Suc by simp
    then show ?thesis unfolding loop_Suc_Ok [of d s v s1, OF x [unfolded Ok]] sbind_Diverges .
  next
    case (Err e)
    then show ?thesis using x returnsD [OF assms(3) Suc.prems(2,3)] keeps_errors(3) by (auto simp: keeps_error_def)
  qed (use x in simp)
qed simp

lemma slice_returns: "keeps d \<Longrightarrow> progress d \<Longrightarrow> returns k d \<Longrightarrow> returns k (decodeSliceElems d)"
  unfolding returns_def [of k "decodeSliceElems d"] decodeSliceElems_def
  by (intro allI impI loop_returns) (simp_all add: left_def)

lemma array_loop_keeps: "keeps d \<Longrightarrow> keeps (decodeListArray_loop n d i)"
proof (induction n arbitrary: i)
  case (Suc n)
  have k: "keeps (sbind (decodeListArray_loop n d (i + 1)) (\<lambda>vs. sreturn (v # vs)))" for v
    using Suc by (intro keeps_sbind) simp_all
  show ?case unfolding keeps_def
  proof (intro allI impI)
    fix s r s' assume eq: "decodeListArray_loop (Suc n) d i s = (r, s')"
    obtain x s1 where x: "d s = (x, s1)" by fastforce
    from keepsD [OF Suc.prems x] show "left s' \<le> left s \<and> (sane s \<longrightarrow> sane s')"
      using eq x keepsD [OF k] by (cases x) (fastforce split: if_splits)+
  qed
qed (simp add: keeps_def)

lemma array_loop_returns: "keeps d \<Longrightarrow> returns k d \<Longrightarrow> returns k (decodeListArray_loop n d i)"
proof (induction n arbitrary: i)
  case (Suc n)
  show ?case unfolding returns_def
  proof (intro allI impI)
    fix s assume s: "left s < k" "sane s"
    obtain x s1 where x: "d s = (x, s1)" by fastforce
    have "left s1 < k" "sane s1" using keepsD [OF Suc.prems(1) x] s by simp_all
    moreover have "returns k (decodeListArray_loop n d (i + 1))" using Suc by blast
    ultimately have "fst (decodeListArray_loop n d (i + 1) s1) \<noteq> Err Diverges" by (simp add: returns_def)
    then show "fst (decodeListArray_loop (Suc n) d i s) \<noteq> Err Diverges"
      using x returnsD [OF Suc.prems(2) s] keeps_errors(3) by (cases x) (auto simp: sbind_Diverges keeps_error_def)
  qed
qed (simp add: returns_def)

lemmas keeps_intros = keeps_sbind keeps_swrap value_ops ListEnd_ops Bool_ops Kind_ops slice_keeps array_loop_keeps
lemmas returns_intros = returns_sbind returns_swrap keeps_errors slice_returns array_loop_returns

lemma list_keeps: "keeps d \<Longrightarrow> keeps (decodeListSlice d)" "keeps d \<Longrightarrow> keeps (decodeListArray n d)"
  unfolding decodeListSlice_def decodeListArray_def by (auto intro!: keeps_intros)

lemma list_progress: "keeps d \<Longrightarrow> progress (decodeListSlice d)" "keeps d \<Longrightarrow> progress (decodeListArray n d)"
  unfolding decodeListSlice_def decodeListArray_def by (auto intro!: progress_sbind1 progress_swrap keeps_intros)

lemma list_returns:
  "keeps d \<Longrightarrow> progress d \<Longrightarrow> returns k d \<Longrightarrow> returns k (decodeListSlice d)" "keeps d \<Longrightarrow> returns k d \<Longrightarrow> returns k (decodeListArray n d)"
  unfolding decodeListSlice_def decodeListArray_def by (auto intro!: returns_intros keeps_intros)

section \<open>Byte arrays\<close>

lemma ByteArray_ops:
  assumes "n \<noteq> 1"
  shows "keeps (decodeByteArray n)" "progress (decodeByteArray n)" "returns k (decodeByteArray n)"
proof -
  have "after_Kind (\<lambda>(k, sz). case k of
        KByte \<Rightarrow>
          if n = 0 then sfail (DecodeError ''input string too long'' [])
          else if n > 1 then sfail (DecodeError ''input string too short'' [])
          else (\<lambda>s. case Stream_Uint s of
              (Ok bv, s) \<Rightarrow> (Ok (VBytes [ucast bv]), s)
            | (_, s) \<Rightarrow> (Ok (VBytes [0]), s))
      | KString \<Rightarrow>
          if word_of_nat n < sz then sfail (DecodeError ''input string too long'' [])
          else if word_of_nat n > sz then sfail (DecodeError ''input string too short'' [])
          else sbind (readFull (word_of_nat n)) (\<lambda>b.
            if sz = 1 \<and> b ! 0 < 128 then sfail (wrapStreamError ErrCanonSize)
            else sreturn (VBytes b))
      | KList \<Rightarrow> sfail (wrapStreamError ErrExpectedString))"
    unfolding after_Kind_def using assms
    by (auto simp: sbind_def sreturn_def sfail_def wrapStreamError_def split: Kind.splits if_splits prod.splits outcome.splits dest!: readFull_keeps)
  from after_Kind_ops [OF this, folded decodeByteArray_def]
  show "keeps (decodeByteArray n)" "progress (decodeByteArray n)" "returns k (decodeByteArray n)" .
qed

lemma ByteArray_one:
  assumes "decodeByteArray 1 s = (r, s')"
  shows "left s' \<le> left s \<and> (sane s \<longrightarrow> sane s') \<and> (sane s \<longrightarrow> r \<noteq> Err Diverges) \<and>
    (\<forall>v. r = Ok v \<longrightarrow> left s' < left s \<or> at_byte s' \<and> decodeByteArray 1 s' = (Ok v, s'))"
proof -
  obtain x s1 where x: "Stream_Kind s = (x, s1)" by fastforce
  note K = Kind_keeps [OF x]
  show ?thesis
  proof (cases x)
    case (Ok a)
    obtain k sz where a: "a = (k, sz)" by fastforce
    have s1: "skind s1 = Some k" "kinderr s1 = None" using K Ok a by auto
    have u: "Stream_Uint s1 = (if byteval s1 = 0 then (Err ErrCanonInt, s1) else (Ok (ucast (byteval s1)), rearm s1))" if "k = KByte"
      using s1 that by (simp add: Stream_Uint_def Stream_uint_def sbind_def Stream_Kind_def cached_Kind_def)
    have stuck: "decodeByteArray 1 s1 = (Ok (VBytes [0]), s1)" if "k = KByte" "byteval s1 = 0"
      using s1 that u by (simp add: decodeByteArray_def sbind_def Stream_Kind_def cached_Kind_def)
    have eq: "(r, s') = (case k of
        KByte \<Rightarrow> (case Stream_Uint s1 of (Ok bv, s) \<Rightarrow> (Ok (VBytes [ucast bv]), s) | (_, s) \<Rightarrow> (Ok (VBytes [0]), s))
      | KString \<Rightarrow> (if word_of_nat 1 < sz then sfail (DecodeError ''input string too long'' [])
          else if word_of_nat 1 > sz then sfail (DecodeError ''input string too short'' [])
          else sbind (readFull (word_of_nat 1)) (\<lambda>b. if sz = 1 \<and> b ! 0 < 128 then sfail (wrapStreamError ErrCanonSize) else sreturn (VBytes b))) s1
      | KList \<Rightarrow> sfail (wrapStreamError ErrExpectedString) s1)"
      using assms x Ok a by (cases k) (auto simp: decodeByteArray_def sbind_def simp del: One_nat_def of_nat_1)
    show ?thesis
    proof (cases "k = KByte \<and> byteval s1 = 0")
      case True
      then show ?thesis using eq u stuck K s1 by (simp add: at_byte_def)
    next
      case False
      have "left s' \<le> left s1 \<and> (sane s1 \<longrightarrow> sane s') \<and> r \<noteq> Err Diverges \<and> (\<forall>v. r = Ok v \<longrightarrow> left s' < left s1)"
        using eq s1 u False
        by (cases k) (auto simp: sbind_def left_def sane_def rearm_def sfail_def sreturn_def wrapStreamError_def
            split: if_splits prod.splits outcome.splits dest!: readFull_keeps)
      then show ?thesis using K by fastforce
    qed
  qed (use assms x K in \<open>auto simp: decodeByteArray_def sbind_def\<close>)
qed

lemma ByteArray_advances: "advances (decodeByteArray n)"
proof (cases "n = 1")
  case True
  then show ?thesis unfolding advances_def using ByteArray_one by blast
qed (simp add: ByteArray_ops progress_advances)

lemma ByteArray_keeps: "keeps (decodeByteArray n)" "returns k (decodeByteArray n)"
proof -
  have "keeps (decodeByteArray 1)" unfolding keeps_def using ByteArray_one by blast
  moreover have "returns k (decodeByteArray 1)" unfolding returns_def using ByteArray_one by (metis prod.collapse)
  ultimately show "keeps (decodeByteArray n)" "returns k (decodeByteArray n)" using ByteArray_ops [of n] by (cases "n = 1"; simp)+
qed

section \<open>Decoders by type\<close>

lemma Interface_depth_keeps: "keeps (decodeInterface_depth n)"
proof (induction n)
  case (Suc n)
  show ?case unfolding keeps_def decodeInterface_depth.simps
    by (intro allI impI, erule keepsD [rotated]) (use Suc in \<open>auto intro!: keeps_intros list_keeps split: prod.splits\<close>)
qed (simp add: keeps_def)

lemma Interface_depth_progress: "progress (decodeInterface_depth n)"
proof (cases n)
  case (Suc m)
  have "progress (sbind Stream_Kind (\<lambda>(k, sz).
       if k = KList then sbind (decodeListSlice (decodeInterface_depth m)) (\<lambda>vs. sreturn (VIface (TSlice (TIface False)) (VList vs)))
       else sbind Stream_Bytes (\<lambda>b. sreturn (VIface (TSlice (TUint 8)) (VBytes b)))))"
    by (auto intro!: progress_sbind2 [OF Kind_ops(1)] progress_sbind1 list_progress Interface_depth_keeps value_ops split: prod.splits)
  then show ?thesis unfolding progress_def Suc decodeInterface_depth.simps .
qed (simp add: progress_def)

lemma Interface_depth_returns: "returns n (decodeInterface_depth n)"
proof (induction n)
  case (Suc n)
  have l: "returns (Suc n) (decodeListSlice (decodeInterface_depth n))" unfolding decodeListSlice_def
    by (rule returns_sbind_less)
      (use Suc in \<open>auto intro!: returns_intros keeps_intros progress_swrap Interface_depth_keeps Interface_depth_progress\<close>)
  have "returns (Suc n) (sbind Stream_Kind (\<lambda>(k, sz).
       if k = KList then sbind (decodeListSlice (decodeInterface_depth n)) (\<lambda>vs. sreturn (VIface (TSlice (TIface False)) (VList vs)))
       else sbind Stream_Bytes (\<lambda>b. sreturn (VIface (TSlice (TUint 8)) (VBytes b)))))"
    using l by (auto intro!: returns_intros keeps_intros list_keeps Interface_depth_keeps split: prod.splits)
  then show ?case unfolding returns_def decodeInterface_depth.simps .
qed (simp add: returns_def)

lemma Interface_ops: "keeps (decodeInterface m)" "progress (decodeInterface m)" "returns k (decodeInterface m)"
proof -
  show "keeps (decodeInterface m)" unfolding keeps_def decodeInterface_def using Interface_depth_keeps by (auto simp: keeps_def simp del: decodeInterface_depth.simps split: if_splits)
  show "progress (decodeInterface m)" unfolding progress_def decodeInterface_def using Interface_depth_progress by (auto simp: progress_def simp del: decodeInterface_depth.simps split: if_splits)
  show "returns k (decodeInterface m)" unfolding returns_def decodeInterface_def using Interface_depth_returns by (auto simp: returns_def left_def simp del: decodeInterface_depth.simps split: if_splits)
qed

lemma base_ops:
  "keeps (decodeUint n)" "keeps decodeBool" "keeps decodeString" "keeps decodeByteSlice" "keeps decodeRawValue" "keeps decodeBigInt"
  "progress (decodeUint n)" "progress decodeBool" "progress decodeString" "progress decodeByteSlice" "progress decodeRawValue" "progress decodeBigInt"
  "returns k (decodeUint n)" "returns k decodeBool" "returns k decodeString" "returns k decodeByteSlice" "returns k decodeRawValue" "returns k decodeBigInt"
  unfolding decodeUint_def decodeBool_def decodeString_def decodeByteSlice_def decodeRawValue_def decodeBigInt_def
  by (auto intro!: progress_sbind1 progress_swrap returns_intros keeps_intros simp: wrapStreamError_def)

lemma Ptr_keeps: "keeps d \<Longrightarrow> keeps (makePtrDecoder d)" "keeps d \<Longrightarrow> returns k d \<Longrightarrow> returns k (makePtrDecoder d)"
  unfolding makePtrDecoder_def by (auto intro!: returns_intros keeps_intros)

lemma OptionalPtr_keeps: "keeps d \<Longrightarrow> keeps (makeOptionalPtrDecoder d)" "keeps d \<Longrightarrow> returns k d \<Longrightarrow> returns k (makeOptionalPtrDecoder d)"
proof -
  have *: "left s' \<le> left s \<and> (sane s \<longrightarrow> sane s') \<and> (left s < k \<longrightarrow> returns k d \<longrightarrow> sane s \<longrightarrow> r \<noteq> Err Diverges)"
    if d: "keeps d" and eq: "makeOptionalPtrDecoder d s = (r, s')" for s r s'
  proof -
    obtain x s1 where x: "Stream_Kind s = (x, s1)" by fastforce
    note K = Kind_keeps [OF x]
    have re: "left (rearm s1) \<le> left s1" "sane (rearm s1) = sane s1" by (simp_all add: left_def sane_def rearm_def)
    have p: "left s' \<le> left s1 \<and> (sane s1 \<longrightarrow> sane s') \<and> (left s1 < k \<longrightarrow> returns k d \<longrightarrow> sane s1 \<longrightarrow> r \<noteq> Err Diverges)"
      if "makePtrDecoder d s1 = (r, s')"
      using keepsD [OF Ptr_keeps(1) [OF d] that] returnsD [OF Ptr_keeps(2) [OF d], of k s1 s'] that by auto
    show ?thesis using eq x K re p by (cases x) (auto simp: makeOptionalPtrDecoder_def split: if_splits)
  qed
  show "keeps d \<Longrightarrow> keeps (makeOptionalPtrDecoder d)" unfolding keeps_def [of "makeOptionalPtrDecoder d"] using * by blast
  show "keeps d \<Longrightarrow> returns k d \<Longrightarrow> returns k (makeOptionalPtrDecoder d)"
    unfolding returns_def [of k "makeOptionalPtrDecoder d"] using * by (metis prod.collapse)
qed

lemma Decoder_keeps:
  assumes "keeps d"
  shows "keeps (decodeDecoder info d)" "info \<noteq> Err Diverges \<Longrightarrow> returns k d \<Longrightarrow> returns k (decodeDecoder info d)"
proof -
  have k: "keeps (sbind (swrap target_ctx d) (\<lambda>v. sreturn (VEnc v)))" using assms by (auto intro!: keeps_intros)
  have r: "returns k (sbind (swrap target_ctx d) (\<lambda>v. sreturn (VEnc v)))" if "returns k d" using assms that by (auto intro!: keeps_intros returns_intros)
  have *: "left s' \<le> left s \<and> (sane s \<longrightarrow> sane s') \<and> (left s < k \<longrightarrow> returns k d \<longrightarrow> info \<noteq> Err Diverges \<longrightarrow> sane s \<longrightarrow> r \<noteq> Err Diverges)"
    if eq: "decodeDecoder info d s = (r, s')" for s r s'
  proof -
    obtain x s1 where x: "Stream_Kind s = (x, s1)" by fastforce
    note K = Kind_keeps [OF x]
    show ?thesis
    proof (cases info)
      case (Ok u)
      then have b: "sbind (swrap target_ctx d) (\<lambda>v. sreturn (VEnc v)) s1 = (r, s')" using eq x by (simp add: decodeDecoder_def)
      then show ?thesis using keepsD [OF k b] returnsD [OF r, of s1 s'] K by auto
    qed (use eq x K in \<open>auto simp: decodeDecoder_def\<close>)
  qed
  show "keeps (decodeDecoder info d)" unfolding keeps_def using * by blast
  show "info \<noteq> Err Diverges \<Longrightarrow> returns k d \<Longrightarrow> returns k (decodeDecoder info d)" unfolding returns_def [of k "decodeDecoder info d"] using * by (metis prod.collapse)
qed

lemma fields_keeps:
  assumes "keeps (decoder t ts)" "\<And>s v s1. decoder t ts s = (Ok v, s1) \<Longrightarrow> keeps (decode_fields flds nms (vs[i := v]))"
  shows "keeps (decode_fields ((i, ts, t) # flds) nms vs)"
  unfolding keeps_def
proof (intro allI impI)
  fix s r s' assume eq: "decode_fields ((i, ts, t) # flds) nms vs s = (r, s')"
  obtain x s1 where x: "decoder t ts s = (x, s1)" by fastforce
  from keepsD [OF assms(1) x] show "left s' \<le> left s \<and> (sane s \<longrightarrow> sane s')"
    using eq x keepsD [OF assms(2)] by (cases x) (fastforce split: if_splits)+
qed

lemma decoder_keeps: "keeps (decoder ty ts)" "keeps (decode_fields flds nms vs)"
proof (induction ty ts and flds nms vs rule: decoder_decode_fields.induct)
  case (1 ty ts)
  show ?case
  proof (cases ty)
    case (TSlice t)
    then show ?thesis using "1.IH" by (subst decoder.simps) (auto intro!: keeps_intros list_keeps base_ops)
  next
    case (TArray n t)
    then show ?thesis using "1.IH" by (subst decoder.simps) (auto intro!: keeps_intros list_keeps ByteArray_keeps)
  next
    case (TPtr t)
    then show ?thesis using "1.IH" by (subst decoder.simps) (auto intro!: Ptr_keeps OptionalPtr_keeps)
  next
    case (TEnc p t)
    then show ?thesis using "1.IH" by (subst decoder.simps) (auto intro!: Decoder_keeps)
  next
    case (TStruct fs)
    then show ?thesis using "1.IH" by (subst decoder.simps) (auto intro!: keeps_intros split: outcome.splits simp: keeps_def [of "\<lambda>s. (Panic, s)"])
  qed (subst decoder.simps, simp add: base_ops Interface_ops)+
next
  case (3 i ts t flds nms vs)
  show ?case
  proof (rule fields_keeps [OF "3.IH"(1)])
    fix s v s1 assume "decoder t ts s = (Ok v, s1)"
    from "3.IH"(2) [OF this [symmetric] refl] show "keeps (decode_fields flds nms (vs[i := v]))" .
  qed
qed simp

text \<open>The types whose decoder can be stuck, and the types whose decoding always ends: no slice has elements of a type that can be stuck.\<close>

fun can_stick :: "rtype \<Rightarrow> bool" where
  "can_stick (TArray n t) = (isByte t \<and> n = 1)"
| "can_stick (TPtr t) = can_stick t"
| "can_stick (TEnc p t) = can_stick t"
| "can_stick t = False"

fun always_ends :: "rtype \<Rightarrow> bool"
  and always_ends_fields :: "rfield list \<Rightarrow> bool" where
  "always_ends (TSlice t) = (isByte t \<or> \<not> can_stick t \<and> always_ends t)"
| "always_ends (TArray n t) = (isByte t \<or> always_ends t)"
| "always_ends (TPtr t) = always_ends t"
| "always_ends (TEnc p t) = always_ends t"
| "always_ends (TStruct fs) = always_ends_fields fs"
| "always_ends t = True"
| "always_ends_fields [] = True"
| "always_ends_fields (Field nm exported tag t # fs) = (always_ends t \<and> always_ends_fields fs)"

lemma struct_progress: "progress (decoder (TStruct fs) ts)"
  by (subst decoder.simps)
    (auto intro!: progress_sbind1 progress_swrap keeps_intros decoder_keeps split: outcome.splits simp: progress_def [of "\<lambda>s. (Panic, s)"])

lemma slice_progress: "\<not> tail ts \<Longrightarrow> progress (decoder (TSlice t) ts)"
  by (subst decoder.simps) (auto intro!: base_ops progress_sbind1 list_progress decoder_keeps)

lemma makePtr_progress: "progress d \<Longrightarrow> progress (makePtrDecoder d)"
  unfolding makePtrDecoder_def by (auto intro!: progress_sbind1)

lemma OptionalPtr_progress:
  assumes "progress d"
  shows "progress (makeOptionalPtrDecoder d)"
  unfolding progress_def
proof (intro allI impI)
  fix s v s' assume eq: "makeOptionalPtrDecoder d s = (Ok v, s')"
  obtain x s1 where x: "Stream_Kind s = (x, s1)" by fastforce
  note K = Kind_keeps [OF x]
  show "left s' < left s"
  proof (cases x)
    case (Ok a)
    then have "left (rearm s1) < left s1" using K by (simp add: left_def rearm_def)
    then show ?thesis using eq x Ok K progressD [OF makePtr_progress [OF assms], of s1 v s']
      by (auto simp: makeOptionalPtrDecoder_def split: if_splits prod.splits)
  qed (use eq x in \<open>auto simp: makeOptionalPtrDecoder_def\<close>)
qed

lemma Decoder_progress:
  assumes "progress d"
  shows "progress (decodeDecoder info d)"
  unfolding progress_def
proof (intro allI impI)
  fix s v s' assume eq: "decodeDecoder info d s = (Ok v, s')"
  obtain x s1 where x: "Stream_Kind s = (x, s1)" by fastforce
  then have b: "sbind (swrap target_ctx d) (\<lambda>v. sreturn (VEnc v)) s1 = (Ok v, s')" using eq by (cases info) (simp_all add: decodeDecoder_def)
  have "progress (sbind (swrap target_ctx d) (\<lambda>v. sreturn (VEnc v)))" using assms by (auto intro!: progress_sbind1 progress_swrap)
  from progressD [OF this b] show "left s' < left s" using Kind_keeps [OF x] by simp
qed

lemma decoder_progress: "\<not> can_stick t \<Longrightarrow> \<not> tail ts \<Longrightarrow> progress (decoder t ts)"
proof (induction t arbitrary: ts rule: can_stick.induct)
  case (1 n t)
  then show ?case by (subst decoder.simps) (auto intro!: ByteArray_ops progress_sbind1 list_progress decoder_keeps)
next
  case (2 t)
  then show ?case by (subst decoder.simps) (auto intro!: makePtr_progress OptionalPtr_progress simp: no_tags_def)
next
  case (3 p t)
  then show ?case by (subst decoder.simps) (auto intro!: Decoder_progress simp: no_tags_def)
qed ((rule slice_progress struct_progress, assumption?) | (subst decoder.simps, simp add: base_ops Interface_ops))+

section \<open>The bound is enough\<close>

lemma Kind_at_byte: "at_byte s \<Longrightarrow> Stream_Kind s = (Ok (KByte, ssize s), s)"
  by (simp add: at_byte_def Stream_Kind_def cached_Kind_def)

lemma advances_Ptr:
  assumes "advances d"
  shows "advances (makePtrDecoder d)"
proof -
  have ok: "makePtrDecoder d s = (Ok w, s') \<longleftrightarrow> (\<exists>v. d s = (Ok v, s') \<and> w = VPtr v)" for s w s'
    by (auto simp: makePtrDecoder_def sbind_Ok_iff sreturn_def)
  show ?thesis using assms unfolding advances_def ok by blast
qed

lemma advances_OptionalPtr:
  assumes "advances d"
  shows "advances (makeOptionalPtrDecoder d)"
  unfolding advances_def
proof (intro allI impI)
  fix s v s' assume eq: "makeOptionalPtrDecoder d s = (Ok v, s')"
  obtain x s1 where x: "Stream_Kind s = (x, s1)" by fastforce
  note K = Kind_keeps [OF x]
  obtain k sz where ok: "x = Ok (k, sz)" using eq x by (cases x) (auto simp: makeOptionalPtrDecoder_def)
  then have re: "left (rearm s1) < left s1" using K by (simp add: left_def rearm_def)
  show "left s' < left s \<or> at_byte s' \<and> (\<exists>w. makeOptionalPtrDecoder d s' = (Ok w, s'))"
  proof (cases "sz = 0 \<and> k \<noteq> KByte")
    case True
    then show ?thesis using eq x ok re K by (auto simp: makeOptionalPtrDecoder_def)
  next
    case False
    then have "makePtrDecoder d s1 = (Ok v, s')" using eq x ok by (auto simp: makeOptionalPtrDecoder_def)
    then have "left s' < left s1 \<or> at_byte s' \<and> (\<exists>w. makePtrDecoder d s' = (Ok w, s'))" using advances_Ptr [OF assms] unfolding advances_def by blast
    then show ?thesis using K by (auto simp: makeOptionalPtrDecoder_def Kind_at_byte)
  qed
qed

lemma advances_Decoder:
  assumes "advances d"
  shows "advances (decodeDecoder info d)"
  unfolding advances_def
proof (intro allI impI)
  fix s v s' assume eq: "decodeDecoder info d s = (Ok v, s')"
  obtain x s1 where x: "Stream_Kind s = (x, s1)" by fastforce
  obtain u where u: "info = Ok u" using eq x by (cases info) (auto simp: decodeDecoder_def)
  have ok: "sbind (swrap target_ctx d) (\<lambda>v. sreturn (VEnc v)) s = (Ok w, s') \<longleftrightarrow> (\<exists>v. d s = (Ok v, s') \<and> w = VEnc v)" for s w s'
    by (auto simp: sbind_Ok_iff sreturn_def swrap_def omap_err_Ok_iff split: prod.splits)
  obtain w where "d s1 = (Ok w, s')" using eq x u ok by (auto simp: decodeDecoder_def)
  then have "left s' < left s1 \<or> at_byte s' \<and> (\<exists>w. d s' = (Ok w, s'))" using assms unfolding advances_def by blast
  then show "left s' < left s \<or> at_byte s' \<and> (\<exists>w. decodeDecoder info d s' = (Ok w, s'))"
    using Kind_keeps [OF x] by (auto simp: decodeDecoder_def Kind_at_byte u ok)
qed

lemma decoder_advances: "\<not> tail ts \<Longrightarrow> advances (decoder t ts)"
proof (induction t arbitrary: ts rule: can_stick.induct)
  case (1 n t)
  then show ?case by (subst decoder.simps) (auto intro!: ByteArray_advances progress_advances progress_sbind1 list_progress decoder_keeps)
next
  case (2 t)
  then show ?case by (subst decoder.simps) (auto intro!: advances_Ptr advances_OptionalPtr simp: no_tags_def)
next
  case (3 p t)
  then show ?case by (subst decoder.simps) (auto intro!: advances_Decoder simp: no_tags_def)
qed (simp_all add: decoder_progress progress_advances)

text \<open>When the loop over the elements of any type ends within any number of rounds, \<open>decodeSliceElems\<close> has the result of these rounds.\<close>

lemma decodeSliceElems_enough:
  "fst (decodeSliceElems_loop n (decoder t no_tags) 0 s) \<noteq> Err Diverges \<Longrightarrow>
    decodeSliceElems (decoder t no_tags) s = decodeSliceElems_loop n (decoder t no_tags) 0 s"
  by (rule decodeSliceElems_bound) (simp_all add: decoder_advances no_tags_def)

section \<open>Types whose decoding ends\<close>

lemma parseStructTag_not_Diverges: "parseStructTag f l \<noteq> Err Diverges"
proof -
  have "parseStructTag_loop ts l t tg \<noteq> Err Diverges" for ts t tg
    by (induction ts l t tg rule: parseStructTag_loop.induct) (auto simp: Let_def)
  then show ?thesis by (simp add: parseStructTag_def)
qed

lemma genTypeInfo_not_Diverges: "genTypeInfo t \<noteq> Err Diverges" "genFieldInfos fs \<noteq> Err Diverges"
proof (induction t and fs rule: genTypeInfo_genFieldInfos.induct)
  case (1 ty)
  then show ?case by (subst genTypeInfo.simps) (auto split: rtype.splits)
next
  case (3 nm exported tag t fs)
  then show ?case using parseStructTag_not_Diverges [of "Field nm exported tag t" "fs = []"] by (auto simp: obind_Err_iff split: if_splits)
qed simp

lemma structFields_not_Diverges: "structFields fs \<noteq> Err Diverges"
proof -
  have "structFields_loop i fs \<noteq> Err Diverges" for i
    by (induction i fs rule: structFields_loop.induct) (auto simp: obind_Err_iff parseStructTag_not_Diverges split: if_splits)
  then show ?thesis by (simp add: structFields_def)
qed

lemma structFields_ends:
  assumes "structFields fs = Ok flds" "always_ends_fields fs" "f \<in> set flds"
  shows "always_ends (snd (snd f))"
proof -
  have "structFields_loop i fs = Ok flds \<Longrightarrow> always_ends_fields fs \<Longrightarrow> f \<in> set flds \<Longrightarrow> always_ends (snd (snd f))" for i
  proof (induction i fs arbitrary: flds rule: structFields_loop.induct)
    case (2 i g fs)
    then show ?case by (cases g) (fastforce simp: obind_Ok_iff split: if_splits)
  qed simp
  then show ?thesis using assms by (simp add: structFields_def)
qed

lemma fields_returns:
  assumes "returns k (decoder t ts)" "\<And>s v s1. decoder t ts s = (Ok v, s1) \<Longrightarrow> returns k (decode_fields flds nms (vs[i := v]))"
  shows "returns k (decode_fields ((i, ts, t) # flds) nms vs)"
  unfolding returns_def
proof (intro allI impI)
  fix s assume s: "left s < k" "sane s"
  obtain x s1 where x: "decoder t ts s = (x, s1)" by fastforce
  then have s1: "left s1 < k" "sane s1" using keepsD [OF decoder_keeps(1) x] s by simp_all
  show "fst (decode_fields ((i, ts, t) # flds) nms vs s) \<noteq> Err Diverges"
    using x returnsD [OF assms(1) s] keeps_errors(3) assms(2) s1 by (cases x) (auto simp: returns_def keeps_error_def)
qed

lemma decoder_returns:
  "always_ends ty \<Longrightarrow> returns k (decoder ty ts)" "\<forall>f \<in> set flds. always_ends (snd (snd f)) \<Longrightarrow> returns k (decode_fields flds nms vs)"
proof (induction ty ts and flds nms vs rule: decoder_decode_fields.induct)
  case (1 ty ts)
  have nt: "\<not> tail no_tags" by (simp add: no_tags_def)
  show ?case
  proof (cases ty)
    case (TSlice t)
    then show ?thesis using 1 nt
      by (subst decoder.simps) (auto intro!: returns_intros keeps_intros list_keeps list_returns base_ops decoder_keeps decoder_progress)
  next
    case (TArray n t)
    then show ?thesis using 1 by (subst decoder.simps) (auto intro!: returns_intros list_keeps list_returns ByteArray_keeps decoder_keeps)
  next
    case (TPtr t)
    then show ?thesis using 1 by (subst decoder.simps) (auto intro!: Ptr_keeps OptionalPtr_keeps decoder_keeps)
  next
    case (TEnc p t)
    then show ?thesis using 1 by (subst decoder.simps) (auto intro!: Decoder_keeps decoder_keeps simp: genTypeInfo_not_Diverges)
  next
    case (TStruct fs)
    show ?thesis
    proof (cases "structFields fs")
      case (Ok flds)
      have "returns k (decode_fields flds (map fname fs) (zero_fields fs))"
        by (rule "1.IH") (use TStruct Ok "1.prems" structFields_ends [OF Ok] in auto)
      then show ?thesis unfolding TStruct using Ok
        by (subst decoder.simps) (auto intro!: returns_intros keeps_intros decoder_keeps)
    next
      case (Err e)
      then show ?thesis unfolding TStruct using structFields_not_Diverges [of fs] by (subst decoder.simps) auto
    next
      case Panic
      then show ?thesis unfolding TStruct by (subst decoder.simps) (simp add: returns_def)
    qed
  qed (subst decoder.simps, simp add: base_ops Interface_ops)+
next
  case (3 i ts t flds nms vs)
  show ?case
  proof (rule fields_returns)
    show "returns k (decoder t ts)" using 3 by simp
    fix s v s1 assume "decoder t ts s = (Ok v, s1)"
    from "3.IH"(2) [OF this [symmetric] refl] "3.prems" show "returns k (decode_fields flds nms (vs[i := v]))" by simp
  qed
qed simp

lemma DecodeBytes_ends:
  assumes "always_ends t"
  shows "DecodeBytes b t \<noteq> Err Diverges"
proof -
  let ?s = "NewStream b (word_of_nat (length b)) True"
  have "returns (Suc (length b)) (swrap target_ctx (decoder t no_tags))"
    using decoder_returns(1) [OF assms] keeps_errors(2) by (rule returns_swrap)
  moreover have "left ?s < Suc (length b)" "sane ?s" by (simp_all add: left_def sane_def NewStream_def Stream_Reset_def)
  ultimately have "fst (swrap target_ctx (decoder t no_tags) ?s) \<noteq> Err Diverges" unfolding returns_def by blast
  then show ?thesis using genTypeInfo_not_Diverges(1) [of t]
    by (auto simp: DecodeBytes_def Stream_Decode_def split: prod.splits outcome.splits)
qed

section \<open>Arrays of one byte\<close>

lemma ByteArray_Bytes:
  assumes "Stream_Bytes s = (Ok [b], s')" "b \<noteq> 0"
  shows "decodeByteArray 1 s = (Ok (VBytes [b]), s')"
proof -
  obtain k sz s1 where k: "Stream_Kind s = (Ok (k, sz), s1)" using assms(1) by (auto simp: Stream_Bytes_def sbind_Ok_iff)
  then have s1: "skind s1 = Some k" "kinderr s1 = None" using Kind_keeps [OF k] by auto
  show ?thesis
  proof (cases k)
    case KByte
    then have "byteval s1 = b" "s' = rearm s1" using assms(1) k by (auto simp: Stream_Bytes_def sbind_def)
    moreover have "ucast (ucast b :: u64) = b" by (rule bit_word_eqI) (simp add: bit_simps)
    ultimately show ?thesis using k s1 assms(2) KByte
      by (simp add: decodeByteArray_def sbind_def Stream_Uint_def Stream_uint_def Stream_Kind_def [of s1] cached_Kind_def)
  next
    case KString
    then have "readFull sz s1 = (Ok [b], s')" "\<not> (sz = 1 \<and> b < 128)"
      using assms(1) k by (auto simp: Stream_Bytes_def sbind_Ok_iff sreturn_def sfail_def split: if_splits)
    moreover from this(1) obtain x where "unat sz \<le> length x" "take (unat sz) x = [b]" by (auto simp: readFull_def sbind_Ok_iff split: if_splits)
    then have "unat sz = 1" by (metis One_nat_def length_Cons length_take list.size(3) min.absorb2)
    then have "sz = 1" by (metis unat_1 word_unat_eq_iff)
    ultimately show ?thesis using k KString by (simp add: decodeByteArray_def sbind_def sreturn_def sfail_def)
  next
    case KList
    then show ?thesis using assms(1) k by (auto simp: Stream_Bytes_def sbind_def sfail_def)
  qed
qed

lemma one_byte_decoder: "decoder (TArray 1 (TUint 8)) no_tags = decodeByteArray 1"
  by (simp add: decoder_eqs isByte_def)

lemma zero_stuck:
  assumes "in_list (0 # r) s"
  shows "\<exists>s1. decodeByteArray 1 s = (Ok (VBytes [0]), s1) \<and> decodeByteArray 1 s1 = (Ok (VBytes [0]), s1)"
proof -
  obtain q where s: "stream_ok s" "skind s = None" "inp s = [0] @ (r @ q)" "length [0 :: byte] + unat (0 :: u64) \<le> avail s"
    using assms by (auto simp: in_list_def)
  have h: "header KByte 0 0 [0]" by (simp add: header_def)
  let ?s1 = "kind_state KByte 0 0 1 s"
  have k: "Stream_Kind s = (Ok (KByte, 0), ?s1)" using Stream_Kind_ok [OF s(1,2) h s(3,4)] by simp
  have k1: "Stream_Kind ?s1 = (Ok (KByte, 0), ?s1)" by (simp add: kind_state_def Stream_Kind_def cached_Kind_def)
  have "Stream_Uint ?s1 = (Err ErrCanonInt, ?s1)" using k1 by (simp add: Stream_Uint_def Stream_uint_def sbind_def kind_state_def)
  then show ?thesis using k k1 by (simp add: decodeByteArray_def sbind_def)
qed

lemma zero_in_list_diverges:
  "0 \<notin> set bs \<Longrightarrow> in_list (concat (map (\<lambda>b. rlp_str [b]) bs) @ 0 # r) s \<Longrightarrow> fst (decodeSliceElems_loop n (decodeByteArray 1) i s) = Err Diverges"
proof (induction bs arbitrary: n i s)
  case Nil
  then obtain s1 where s1: "decodeByteArray 1 s = (Ok (VBytes [0]), s1)" "decodeByteArray 1 s1 = (Ok (VBytes [0]), s1)"
    using zero_stuck by force
  show ?case
  proof (cases n)
    case (Suc m)
    show ?thesis unfolding Suc loop_Suc_Ok [of "decodeByteArray 1" s "VBytes [0]" s1, OF s1(1)] sbind_Diverges
      by (rule loop_stuck [of "decodeByteArray 1" s1 "VBytes [0]", OF s1(2)])
  qed simp
next
  case (Cons b bs)
  let ?c = "concat (map (\<lambda>b. rlp_str [b]) bs) @ 0 # r"
  have l: "in_list (rlp_str [b] @ ?c) s" using Cons.prems(2) by simp
  then obtain q where "stream_ok s" "skind s = None" "inp s = rlp_str [b] @ (?c @ q)" "length (rlp_str [b]) \<le> avail s"
    by (auto simp: in_list_def)
  then obtain s1 where s1: "Stream_Bytes s = (Ok [b], s1)" "reads (rlp_str [b]) s s1" using acceptsD [OF accepts_Bytes] by blast
  then have d: "decodeByteArray 1 s = (Ok (VBytes [b]), s1)" using ByteArray_Bytes Cons.prems(1) by simp
  have "in_list ?c s1" using reads_in_list [OF l s1(2)] .
  then have IH: "fst (decodeSliceElems_loop m (decodeByteArray 1) j s1) = Err Diverges" for m j using Cons by simp
  show ?case
  proof (cases n)
    case (Suc m)
    show ?thesis unfolding Suc loop_Suc_Ok [of "decodeByteArray 1" s "VBytes [b]" s1, OF d] sbind_Diverges by (rule IH)
  qed simp
qed

text \<open>
  C14. When decoding ends: \<open>DecodeBytes\<close> returns for every input and every type in which no slice has elements that are arrays of one byte (or
  pointers to such). Into a slice of arrays of one byte it does not return for any list that contains the byte \<open>0\<close> as an element after elements that are not \<open>0\<close>: no number
  of rounds of \<open>decodeSliceElems\<close> is enough, because \<open>decodeByteArray\<close> drops the error \<open>ErrCanonInt\<close> of \<open>Uint\<close>, which leaves the byte unread.
\<close>
theorem decodeByteArray_zero_diverges:
  assumes "0 \<notin> set bs" "c = concat (map (\<lambda>b. rlp_str [b]) bs) @ 0 # r" "length (rlp_list c) < 2 ^ 64"
  shows "(always_ends t \<longrightarrow> DecodeBytes inpt t \<noteq> Err Diverges) \<and>
    DecodeBytes (rlp_list c) (TSlice (TArray 1 (TUint 8))) = Err Diverges \<and>
    fst (sbind Stream_List (\<lambda>_. decodeSliceElems_loop n (decoder (TArray 1 (TUint 8)) no_tags) 0) (byte_stream (rlp_list c))) = Err Diverges"
proof -
  let ?s = "byte_stream (rlp_list c)"
  obtain s where s: "Stream_List ?s = (Ok (word_of_nat (length c)), s)" "stream_ok s" "skind s = None" "inp s = c @ []" "avail s = length c" "stack s \<noteq> []"
    using Stream_List_ok [of ?s c "[]"] byte_stream [OF assms(3)] by (metis append_Nil2 list.distinct(1) order_refl)
  then have "in_list c s" by (auto simp: in_list_def)
  then have d: "fst (decodeSliceElems_loop m (decodeByteArray 1) 0 s) = Err Diverges" for m
    using zero_in_list_diverges [OF assms(1), of r s m 0] unfolding assms(2) by blast
  have "length c < 2 ^ 64" using assms(3) by (simp add: rlp_list_def)
  then have "unat (word_of_nat (length c) :: u64) = length c" by (simp add: unat_of_nat)
  moreover have "length c \<noteq> 0" using assms(2) by simp
  ultimately have "(word_of_nat (length c) :: u64) \<noteq> 0" by auto
  then have "fst (decodeListSlice (decodeByteArray 1) ?s) = Err Diverges"
    using s(1) d [of "Suc (Suc (length (inp s)))"] unfolding decodeListSlice_def
    by (cases "decodeSliceElems (decodeByteArray 1) s") (auto simp: sbind_def swrap_def decodeSliceElems_def simp del: decodeSliceElems_loop.simps)
  then have "DecodeBytes (rlp_list c) (TSlice (TArray 1 (TUint 8))) = Err Diverges"
    by (cases "decodeListSlice (decodeByteArray 1) ?s")
      (auto simp: DecodeBytes_def Stream_Decode_def genTypeInfo.simps isByte_def decoder_eqs no_tags_def swrap_def sbind_def target_ctx_def)
  moreover have "sbind Stream_List (\<lambda>_. m) ?s = m s" for m :: "rval list reading" using s(1) by (simp add: sbind_def)
  ultimately show ?thesis using DecodeBytes_ends d by (simp add: one_byte_decoder del: One_nat_def)
qed

lemma decodeByteArray_zero_diverges_witness:
  "DecodeBytes [0xC3, 5, 0, 7] (TSlice (TArray 1 (TUint 8))) = Err Diverges \<and> DecodeBytes [0xC3, 5, 0, 7] (TSlice (TSlice (TUint 8))) \<noteq> Err Diverges"
proof -
  have c: "rlp_list [5, 0, 7] = [0xC3, 5, 0, 7]" by (simp add: rlp_list_def rlp_head_def)
  have "always_ends (TSlice (TSlice (TUint 8)))" by (simp add: isByte_def)
  then show ?thesis using decodeByteArray_zero_diverges [of "[5]" "[5, 0, 7]" "[7]" "TSlice (TSlice (TUint 8))" "[0xC3, 5, 0, 7]"] unfolding c
    by (simp add: rlp_str_def)
qed

end
