(* ===== verification/TrieEncoding.thy ===== *)
theory TrieEncoding
  imports GoPrelude
begin

text \<open>
  The key encodings of the trie, \<open>chain/space/trie/encoding.go\<close>: key bytes, hex keys (one nibble per
  byte, with the terminator 16 at the end of a leaf's key) and the compact encoding of the stored
  nodes. Panics of the source (an index out of range, the explicit \<open>panic\<close>) are the outcome
  \<open>Panic\<close>.
\<close>

section \<open>Conversions\<close>

definition hasTerm :: "bytes \<Rightarrow> bool" where
  "hasTerm s \<longleftrightarrow> length s > 0 \<and> s ! (length s - 1) = 16"

text \<open>\<open>decodeNibbles\<close> fills the slice it is given, which its two callers make exactly long enough;
  the model returns the bytes written. An odd number of nibbles reads past the end.\<close>

fun decodeNibbles :: "bytes \<Rightarrow> ('e, bytes) outcome" where
  "decodeNibbles [] = Ok []"
| "decodeNibbles [n] = Panic"
| "decodeNibbles (n0 # n1 # nibbles) =
     obind (decodeNibbles nibbles) (\<lambda>bs. Ok ((push_bit 4 n0 OR n1) # bs))"

definition hexToCompact :: "bytes \<Rightarrow> ('e, bytes) outcome" where
  "hexToCompact hex =
    (let terminator = (if hasTerm hex then 1 else 0) :: byte;
         hex = (if hasTerm hex then take (length hex - 1) hex else hex);
         flag = push_bit 5 terminator;
         odd = length hex mod 2 = 1;
         flag = (if odd then flag OR push_bit 4 1 OR (hex ! 0) else flag);
         hex = (if odd then drop 1 hex else hex)
     in obind (decodeNibbles hex) (\<lambda>bs. Ok (flag # bs)))"

definition keybytesToHex :: "bytes \<Rightarrow> bytes" where
  "keybytesToHex str = concat (map (\<lambda>b. [b div 16, b mod 16]) str) @ [16]"

definition compactToHex :: "bytes \<Rightarrow> ('e, bytes) outcome" where
  "compactToHex compact =
    (let base = keybytesToHex compact;
         base = take (length base - 1) base
     in case base of
          [] \<Rightarrow> Panic
        | b0 # _ \<Rightarrow>
            let base = (if b0 \<ge> 2 then base @ [16] else base);
                chop = 2 - (b0 AND 1)
            in slice base (unat chop) (length base))"

definition hexToKeybytes :: "bytes \<Rightarrow> ('e, bytes) outcome" where
  "hexToKeybytes hex =
    (let hex = (if hasTerm hex then take (length hex - 1) hex else hex)
     in if length hex mod 2 \<noteq> 0 then Panic else decodeNibbles hex)"

text \<open>The length of the common prefix of two keys: the loop from index \<open>i\<close>.\<close>

function prefixLen_loop :: "bytes \<Rightarrow> bytes \<Rightarrow> nat \<Rightarrow> nat \<Rightarrow> nat" where
  "prefixLen_loop a b i len =
    (if i < len then if a ! i \<noteq> b ! i then i else prefixLen_loop a b (i + 1) len else i)"
  by pat_completeness auto
termination
  by (relation "measure (\<lambda>(a, b, i, len). len - i)") auto

declare prefixLen_loop.simps [simp del]

definition prefixLen :: "bytes \<Rightarrow> bytes \<Rightarrow> nat" where
  "prefixLen a b =
    prefixLen_loop a b 0 (if length b < length a then length b else length a)"

section \<open>Nibbles\<close>

definition nibbles :: "bytes \<Rightarrow> bool" where
  "nibbles ns \<longleftrightarrow> (\<forall>n \<in> set ns. n < 16)"

text \<open>A hex key: nibbles, with or without the terminator.\<close>

definition hexkey :: "bytes \<Rightarrow> bool" where
  "hexkey hex \<longleftrightarrow> (if hasTerm hex then nibbles (butlast hex) else nibbles hex)"

lemma nibbles_simps [simp]:
  "nibbles []" "nibbles (n # ns) \<longleftrightarrow> n < 16 \<and> nibbles ns" "nibbles (xs @ ys) \<longleftrightarrow> nibbles xs \<and> nibbles ys"
  by (auto simp: nibbles_def)

lemma hasTerm_simps [simp]:
  "hasTerm (xs @ [x]) \<longleftrightarrow> x = 16" "\<not> hasTerm []" "hasTerm [x] \<longleftrightarrow> x = 16"
  by (auto simp: hasTerm_def nth_append)

lemma nibbles_not_hasTerm: "nibbles ns \<Longrightarrow> \<not> hasTerm ns"
  by (cases ns rule: rev_cases) auto

lemma hasTerm_iff: "hasTerm hex \<longleftrightarrow> (\<exists>ns. hex = ns @ [16])"
  by (cases hex rule: rev_cases) auto

lemma hexkey_cases:
  assumes "hexkey hex"
  obtains (leaf) ns where "nibbles ns" "hex = ns @ [16]" | (ext) "nibbles hex" "\<not> hasTerm hex"
  using assms by (auto simp: hexkey_def hasTerm_iff split: if_splits)

lemma byte_div_mod: "push_bit 4 (b div 16) OR b mod 16 = (b :: byte)"
proof -
  have *: "b div 16 = drop_bit 4 b" "b mod 16 = take_bit 4 b"
    by (simp_all add: drop_bit_eq_div take_bit_eq_mod)
  show ?thesis unfolding * by (auto simp: bit_eq_iff bit_simps not_le dest: bit_imp_le_length)
qed

lemma nibble_take_bit: "n < 16 \<Longrightarrow> take_bit 4 n = (n :: byte)"
  by (simp add: word_unat_eq_iff unat_mod take_bit_eq_mod word_less_nat_alt)

lemma nibble_pack:
  fixes m n :: byte
  assumes "m < 16" "n < 16"
  shows "(push_bit 4 m OR n) div 16 = m" "(push_bit 4 m OR n) mod 16 = n"
proof -
  have *: "(push_bit 4 m OR n) div 16 = drop_bit 4 (push_bit 4 m OR n)"
     "(push_bit 4 m OR n) mod 16 = take_bit 4 (push_bit 4 m OR n)"
    by (simp_all add: drop_bit_eq_div take_bit_eq_mod)
  have m: "m = take_bit 4 m" and n: "n = take_bit 4 n" using assms by (simp_all add: nibble_take_bit)
  show "(push_bit 4 m OR n) div 16 = m"
    unfolding * by (subst (1 2) m, subst n) (auto simp: bit_eq_iff bit_simps)
  show "(push_bit 4 m OR n) mod 16 = n"
    unfolding * by (subst (1 2) n) (auto simp: bit_eq_iff bit_simps)
qed

lemma byte_nibbles: "b div 16 < 16" "b mod 16 < (16 :: byte)"
proof -
  have "unat b < 2 ^ LENGTH(8)" by (rule unsigned_less)
  then show "b div 16 < 16" "b mod 16 < (16 :: byte)"
    by (simp_all add: word_less_nat_alt unat_div unat_mod)
qed

section \<open>Bytes and nibbles\<close>

text \<open>The two nibbles of every byte.\<close>

abbreviation nibbles_of :: "bytes \<Rightarrow> bytes" where
  "nibbles_of bs \<equiv> concat (map (\<lambda>b. [b div 16, b mod 16]) bs)"

lemma nibbles_nibbles_of [simp]: "nibbles (nibbles_of bs)"
  by (induction bs) (simp_all add: byte_nibbles)

lemma length_nibbles_of [simp]: "length (nibbles_of bs) = 2 * length bs"
  by (induction bs) simp_all

lemma decodeNibbles_nibbles_of [simp]: "decodeNibbles (nibbles_of bs) = Ok bs"
  by (induction bs) (simp_all add: byte_div_mod)

lemma nibbles_of_decodeNibbles:
  assumes "nibbles ns" "even (length ns)"
  obtains bs where "ns = nibbles_of bs"
proof -
  have "\<exists>bs. ns = nibbles_of bs"
    using assms
  proof (induction ns rule: decodeNibbles.induct)
    case (3 m n ns)
    then obtain bs where "ns = nibbles_of bs" by auto
    then have "m # n # ns = nibbles_of ((push_bit 4 m OR n) # bs)"
      using 3 by (simp add: nibble_pack)
    then show ?case by blast
  qed auto
  then show thesis using that by blast
qed

lemma decodeNibbles_even: "even (length ns) \<Longrightarrow> \<exists>bs. decodeNibbles ns = Ok bs"
  by (induction ns rule: decodeNibbles.induct) auto

lemma nibbles_of_inject [simp]: "nibbles_of a = nibbles_of b \<longleftrightarrow> a = b"
proof
  assume "nibbles_of a = nibbles_of b"
  then have "decodeNibbles (nibbles_of a) = decodeNibbles (nibbles_of b)" by (rule arg_cong)
  then show "a = b" by (simp only: decodeNibbles_nibbles_of outcome.inject)
qed simp

section \<open>Round trips\<close>

lemma keybytesToHex_inject [simp]: "keybytesToHex a = keybytesToHex b \<longleftrightarrow> a = b"
  by (simp add: keybytesToHex_def)

lemma hasTerm_keybytesToHex [simp]: "hasTerm (keybytesToHex k)"
  by (simp add: keybytesToHex_def)

lemma hexkey_keybytesToHex [simp]: "hexkey (keybytesToHex k)"
  by (simp add: hexkey_def) (simp add: keybytesToHex_def)

text \<open>
  C12. \<open>hexToKeybytes\<close> inverts \<open>keybytesToHex\<close>, and conversely every terminated hex key of an even
  number of nibbles is the hex form of the bytes it decodes to: hex keys with a terminator and byte
  keys are in bijection.
\<close>
theorem hexToKeybytes_iff:
  "hexToKeybytes hex = Ok key \<and> hasTerm hex \<and> hexkey hex \<longleftrightarrow> hex = keybytesToHex key"
proof
  assume asm: "hexToKeybytes hex = Ok key \<and> hasTerm hex \<and> hexkey hex"
  then obtain ns where ns: "nibbles ns" "hex = ns @ [16]" by (auto elim!: hexkey_cases)
  with asm have "even (length ns)" by (auto simp: hexToKeybytes_def split: if_splits)
  then obtain bs where "ns = nibbles_of bs" using ns nibbles_of_decodeNibbles by blast
  then show "hex = keybytesToHex key" using asm ns by (auto simp: hexToKeybytes_def keybytesToHex_def)
next
  assume "hex = keybytesToHex key"
  then show "hexToKeybytes hex = Ok key \<and> hasTerm hex \<and> hexkey hex"
    by (simp add: hexToKeybytes_def) (simp add: keybytesToHex_def)
qed

text \<open>The compact form of a key of nibbles \<open>ns\<close>, terminated or not, by the parity of its length.\<close>

lemma hexToCompact_even:
  "hexToCompact (nibbles_of bs @ [16]) = Ok (32 # bs)"
  "hexToCompact (nibbles_of bs) = Ok (0 # bs)"
  using nibbles_not_hasTerm [OF nibbles_nibbles_of, of bs]
  by (simp_all add: hexToCompact_def)

lemma hexToCompact_odd:
  assumes "n < 16"
  shows "hexToCompact (n # nibbles_of bs @ [16]) = Ok ((48 OR n) # bs)"
    and "hexToCompact (n # nibbles_of bs) = Ok ((16 OR n) # bs)"
proof -
  have "hasTerm (n # nibbles_of bs @ [16])" "\<not> hasTerm (n # nibbles_of bs)"
    using hasTerm_simps(1) [of "n # nibbles_of bs" 16] nibbles_not_hasTerm [of "n # nibbles_of bs"] assms
    by simp_all
  then show "hexToCompact (n # nibbles_of bs @ [16]) = Ok ((48 OR n) # bs)"
    "hexToCompact (n # nibbles_of bs) = Ok ((16 OR n) # bs)"
    by (simp_all add: hexToCompact_def flip: or.assoc)
qed

lemma hexkey_parity:
  assumes "hexkey hex"
  obtains (even) bs where "hex = nibbles_of bs" | (even_term) bs where "hex = nibbles_of bs @ [16]"
    | (odd) n bs where "n < 16" "hex = n # nibbles_of bs"
    | (odd_term) n bs where "n < 16" "hex = n # nibbles_of bs @ [16]"
proof -
  have split: "(\<exists>bs. ns = nibbles_of bs) \<or> (\<exists>n bs. n < 16 \<and> ns = n # nibbles_of bs)" if nib: "nibbles ns" for ns
  proof (cases "even (length ns)")
    case True
    then show ?thesis by (rule nibbles_of_decodeNibbles [OF nib]) blast
  next
    case False
    then obtain n ms where ns: "ns = n # ms" "even (length ms)" by (cases ns) auto
    then have "nibbles ms" using nib by simp
    then obtain bs where "ms = nibbles_of bs" using ns(2) by (rule nibbles_of_decodeNibbles)
    then show ?thesis using nib ns by auto
  qed
  show thesis using assms
  proof (cases rule: hexkey_cases)
    case (leaf ns)
    from split [OF this(1)] show thesis
      by (elim disjE exE conjE) (rule even_term odd_term, use leaf(2) in simp_all)+
  next
    case ext
    from split [OF this(1)] show thesis by (elim disjE exE conjE) (rule even odd, assumption+)+
  qed
qed

lemma hexToCompact_total: "\<exists>c. hexToCompact hex = (Ok c :: ('e, bytes) outcome)"
proof -
  define h where "h = (if hasTerm hex then take (length hex - 1) hex else hex)"
  have "even (length (if length h mod 2 = 1 then drop 1 h else h))"
    by (cases "length h mod 2 = 1") (simp_all, presburger+)
  then obtain bs where "decodeNibbles (if length h mod 2 = 1 then drop 1 h else h) = (Ok bs :: ('e, bytes) outcome)"
    using decodeNibbles_even by blast
  then show ?thesis unfolding hexToCompact_def Let_def h_def [symmetric] by (simp only: obind.simps) blast
qed

lemma compactToHex_Cons:
  "compactToHex (f # bs) =
    Ok ((if odd (f div 16) then [f mod 16] else []) @ nibbles_of bs @ (if f div 16 \<ge> 2 then [16] else []))"
proof -
  have "f div 16 AND 1 = (if odd (f div 16) then 1 else 0)" by (simp only: and_one_eq mod2_eq_if) simp
  then show ?thesis by (simp add: compactToHex_def keybytesToHex_def slice_def Let_def)
qed

text \<open>The canonical compact keys: a flag nibble below 4, and a zero padding nibble in an even key.\<close>

definition compact_canonical :: "bytes \<Rightarrow> bool" where
  "compact_canonical c \<longleftrightarrow>
    (case c of [] \<Rightarrow> False | f # _ \<Rightarrow> f div 16 < 4 \<and> (even (f div 16) \<longrightarrow> f mod 16 = 0))"

lemma nibble_below_4: "m < 4 \<longleftrightarrow> m = 0 \<or> m = 1 \<or> m = 2 \<or> m = (3 :: byte)"
proof
  assume "m < 4"
  then have "unat m < 4" by (simp add: word_less_nat_alt)
  then have "unat m = unat (0 :: byte) \<or> unat m = unat (1 :: byte) \<or> unat m = unat (2 :: byte)
      \<or> unat m = unat (3 :: byte)" by simp arith
  then show "m = 0 \<or> m = 1 \<or> m = 2 \<or> m = 3" by (simp only: word_unat_eq_iff)
qed auto

lemma flag_nibbles:
  assumes "n < (16 :: byte)"
  shows "(16 OR n) div 16 = 1" "(16 OR n) mod 16 = n" "(48 OR n) div 16 = 3" "(48 OR n) mod 16 = n"
  using nibble_pack [of 1 n] nibble_pack [of 3 n] assms by simp_all

lemma flag_of_nibbles:
  "f div 16 = 0 \<Longrightarrow> f mod 16 = 0 \<Longrightarrow> f = (0 :: byte)" "f div 16 = 2 \<Longrightarrow> f mod 16 = 0 \<Longrightarrow> f = (32 :: byte)"
  "f div 16 = 1 \<Longrightarrow> 16 OR f mod 16 = (f :: byte)" "f div 16 = 3 \<Longrightarrow> 48 OR f mod 16 = (f :: byte)"
  using byte_div_mod [of f] by simp_all

lemma not_2_le_1: "\<not> (2 :: byte) \<le> 1"
  by (simp add: word_le_nat_alt)

lemma hexkey_nibbles:
  "nibbles ns \<Longrightarrow> hexkey ns" "nibbles ns \<Longrightarrow> hexkey (ns @ [16])"
  by (simp_all add: hexkey_def nibbles_not_hasTerm)

lemma compactToHex_hexToCompact:
  assumes "hexkey hex" "hexToCompact hex = Ok c"
  shows "compact_canonical c \<and> compactToHex c = Ok hex"
  using assms(1)
  by (cases rule: hexkey_parity)
    (use assms(2) in \<open>auto simp: hexToCompact_even hexToCompact_odd compactToHex_Cons flag_nibbles
      compact_canonical_def not_2_le_1\<close>)

text \<open>The compact key as a total function.\<close>

definition compact :: "bytes \<Rightarrow> bytes" where
  "compact hex = (case hexToCompact hex :: (unit, bytes) outcome of Ok c \<Rightarrow> c | _ \<Rightarrow> [])"

lemma decodeNibbles_unit:
  "decodeNibbles ns = (Ok b :: (unit, bytes) outcome) \<Longrightarrow> decodeNibbles ns = Ok b"
  by (induction ns arbitrary: b rule: decodeNibbles.induct) (auto simp: obind_Ok_iff)

lemma hexToCompact_compact: "hexToCompact hex = Ok (compact hex)"
proof -
  obtain c where c: "hexToCompact hex = (Ok c :: (unit, bytes) outcome)" using hexToCompact_total by blast
  then have "hexToCompact hex = Ok c"
    by (auto simp: hexToCompact_def Let_def obind_Ok_iff dest!: decodeNibbles_unit)
  then show ?thesis using c by (simp add: compact_def)
qed

lemma compactToHex_compact: "hexkey hex \<Longrightarrow> compactToHex (compact hex) = Ok hex"
  using compactToHex_hexToCompact hexToCompact_compact by blast

text \<open>
  C13. The compact encoding is a bijection between hex keys and canonical compact keys: on every hex
  key \<open>hexToCompact\<close> returns, without a panic, the one canonical compact key that \<open>compactToHex\<close>
  maps back to it.
\<close>
theorem hexToCompact_iff:
  "hexkey hex \<and> hexToCompact hex = Ok c \<longleftrightarrow> compact_canonical c \<and> compactToHex c = Ok hex"
proof
  assume "hexkey hex \<and> hexToCompact hex = Ok c"
  then show "compact_canonical c \<and> compactToHex c = Ok hex" using compactToHex_hexToCompact by blast
next
  assume asm: "compact_canonical c \<and> compactToHex c = Ok hex"
  then obtain f bs where c: "c = f # bs" by (auto simp: compact_canonical_def split: list.splits)
  have *: "f mod 16 < 16" by (rule byte_nibbles)
  have hex: "hex = (if odd (f div 16) then [f mod 16] else []) @ nibbles_of bs @ (if f div 16 \<ge> 2 then [16] else [])"
    and pad: "even (f div 16) \<Longrightarrow> f mod 16 = 0" and flag: "f div 16 < 4"
    using asm by (simp_all add: c compactToHex_Cons compact_canonical_def)
  from flag have "f div 16 = 0 \<or> f div 16 = 1 \<or> f div 16 = 2 \<or> f div 16 = 3"
    by (simp only: nibble_below_4)
  then have "hexToCompact hex = Ok c"
  proof (elim disjE)
    assume "f div 16 = 0"
    then show ?thesis using hex pad flag_of_nibbles(1) [of f] hexToCompact_even [of bs] c by simp
  next
    assume "f div 16 = 1"
    then show ?thesis using hex flag_of_nibbles(3) [of f] hexToCompact_odd [OF *, of bs] c
      by (simp add: not_2_le_1)
  next
    assume "f div 16 = 2"
    then show ?thesis using hex pad flag_of_nibbles(2) [of f] hexToCompact_even [of bs] c by simp
  next
    assume "f div 16 = 3"
    then show ?thesis using hex flag_of_nibbles(4) [of f] hexToCompact_odd [OF *, of bs] c by simp
  qed
  moreover have "hexkey hex"
    unfolding hex using hexkey_nibbles [of "nibbles_of bs"] hexkey_nibbles [of "f mod 16 # nibbles_of bs"] *
    by simp
  ultimately show "hexkey hex \<and> hexToCompact hex = Ok c" by simp
qed

section \<open>The common prefix\<close>

lemma prefixLen_loop_spec:
  assumes "i \<le> len" "len \<le> length a" "len \<le> length b" "take i a = take i b"
  shows "let p = prefixLen_loop a b i len in
    p \<le> len \<and> take p a = take p b \<and> (p < len \<longrightarrow> a ! p \<noteq> b ! p)"
  using assms
proof (induction a b i len rule: prefixLen_loop.induct)
  case (1 a b i len)
  then show ?case
    by (subst (1) prefixLen_loop.simps) (auto simp: Let_def take_Suc_conv_app_nth)
qed

text \<open>\<open>prefixLen\<close> splits two keys at the first position where they differ.\<close>

lemma prefixLen_le: "prefixLen a b \<le> length a" "prefixLen a b \<le> length b"
  and take_prefixLen: "take (prefixLen a b) b = take (prefixLen a b) a"
  and drop_prefixLen: "drop (prefixLen a b) a = [] \<or> drop (prefixLen a b) b = [] \<or>
    hd (drop (prefixLen a b) a) \<noteq> hd (drop (prefixLen a b) b)"
proof -
  let ?p = "prefixLen a b"
  have p: "?p \<le> min (length a) (length b)" "take ?p a = take ?p b"
      "?p < min (length a) (length b) \<Longrightarrow> a ! ?p \<noteq> b ! ?p"
    using prefixLen_loop_spec [of 0 "min (length a) (length b)" a b]
    by (auto simp: prefixLen_def min_def Let_def split: if_splits)
  then show "?p \<le> length a" "?p \<le> length b" "take ?p b = take ?p a" by simp_all
  show "drop ?p a = [] \<or> drop ?p b = [] \<or> hd (drop ?p a) \<noteq> hd (drop ?p b)"
    using p by (auto simp: hd_drop_conv_nth not_le)
qed

lemma prefixLen_append_left [simp]: "prefixLen (xs @ a) xs = length xs"
proof (rule ccontr)
  assume "prefixLen (xs @ a) xs \<noteq> length xs"
  then have "prefixLen (xs @ a) xs < length xs" using prefixLen_le(2) [of "xs @ a" xs] by simp
  then show False using drop_prefixLen [of "xs @ a" xs] by (simp add: hd_append)
qed

lemma prefixLen_append_right [simp]: "prefixLen xs (xs @ a) = length xs"
proof (rule ccontr)
  assume "prefixLen xs (xs @ a) \<noteq> length xs"
  then have "prefixLen xs (xs @ a) < length xs" using prefixLen_le(1) [of xs "xs @ a"] by simp
  then show False using drop_prefixLen [of xs "xs @ a"] by (simp add: hd_append)
qed

end
