(* ===== verification/TrieNode.thy ===== *)
theory TrieNode
  imports TrieEncoding RlpRoundtrip
begin

text \<open>
  The nodes of the trie and the parsing of their stored form, \<open>chain/space/trie/node.go\<close>. A node is
  parsed from the input that starts with its encoding; a child is a hash, an embedded node or empty.
  Every node that serves as encoding is parsed back (\<open>decodeNode_node_enc\<close>).
\<close>

section \<open>Nodes\<close>

text \<open>The cached hash may be nil.\<close>

record nodeFlag =
  fhash :: "bytes option"
  fgen :: u16
  fdirty :: bool

text \<open>\<open>NilN\<close> is the nil interface; \<open>FullN\<close> has 17 children.\<close>

datatype node =
    NilN
  | FullN (Children: "node list") (flags: nodeFlag)
  | ShortN (Key: bytes) (Val: node) (flags: nodeFlag)
  | HashN bytes
  | ValueN bytes

definition nodeFlag_canUnload :: "nodeFlag \<Rightarrow> u16 \<Rightarrow> u16 \<Rightarrow> bool" where
  "nodeFlag_canUnload n cachegen cachelimit \<longleftrightarrow> \<not> fdirty n \<and> cachegen - fgen n \<ge> cachelimit"

text \<open>The methods of the interface panic on nil.\<close>

definition canUnload :: "node \<Rightarrow> u16 \<Rightarrow> u16 \<Rightarrow> ('e, bool) outcome" where
  "canUnload n gen limit =
    (case n of
       FullN _ f \<Rightarrow> Ok (nodeFlag_canUnload f gen limit)
     | ShortN _ _ f \<Rightarrow> Ok (nodeFlag_canUnload f gen limit)
     | HashN _ \<Rightarrow> Ok False
     | ValueN _ \<Rightarrow> Ok False
     | NilN \<Rightarrow> Panic)"

definition cache :: "node \<Rightarrow> ('e, bytes option \<times> bool) outcome" where
  "cache n =
    (case n of
       FullN _ f \<Rightarrow> Ok (fhash f, fdirty f)
     | ShortN _ _ f \<Rightarrow> Ok (fhash f, fdirty f)
     | HashN _ \<Rightarrow> Ok (None, True)
     | ValueN _ \<Rightarrow> Ok (None, True)
     | NilN \<Rightarrow> Panic)"

section \<open>Parsing\<close>

text \<open>The errors: the underlying ones, and \<open>decodeError\<close> with the path to the bad child.\<close>

datatype node_error =
    NUnexpectedEOF
  | NRlp rlp_error
  | NDecode rlp_error
  | NCount nat
  | NInvalidValue rlp_error
  | NOversized nat
  | NStringSize nat
  | NPath node_error "string list"

definition wrapError :: "string \<Rightarrow> node_error \<Rightarrow> node_error" where
  "wrapError ctx err =
    (case err of NPath what stk \<Rightarrow> NPath what (stk @ [ctx]) | _ \<Rightarrow> NPath err [ctx])"

definition hashLen :: nat where
  "hashLen = 32"

text \<open>The parser \<open>dn\<close> of embedded nodes is a parameter of the functions that \<open>decodeNode\<close> calls.\<close>

type_synonym node_parser = "bytes option \<Rightarrow> bytes \<Rightarrow> u16 \<Rightarrow> (node_error, node) outcome"

definition decodeRef :: "node_parser \<Rightarrow> bytes \<Rightarrow> u16 \<Rightarrow> (node_error, node \<times> bytes) outcome" where
  "decodeRef dn buf cachegen =
    obind (omap_err NRlp (Split buf)) (\<lambda>(kind, val, rest).
      if kind = KList then
        let sz = length buf - length rest
        in if sz > hashLen then Err (NOversized sz)
           else obind (dn None buf cachegen) (\<lambda>n. Ok (n, rest))
      else if kind = KString \<and> length val = 0 then Ok (NilN, rest)
      else if kind = KString \<and> length val = 32 then Ok (HashN val, rest)
      else Err (NStringSize (length val)))"

definition decodeShort :: "node_parser \<Rightarrow> bytes option \<Rightarrow> bytes \<Rightarrow> u16 \<Rightarrow> (node_error, node) outcome" where
  "decodeShort dn hash els cachegen =
    obind (omap_err NRlp (SplitString els)) (\<lambda>(kbuf, rest).
      let flag = \<lparr>fhash = hash, fgen = cachegen, fdirty = False\<rparr>
      in obind (compactToHex kbuf) (\<lambda>key.
        if hasTerm key then
          obind (omap_err NInvalidValue (SplitString rest)) (\<lambda>(val, _). Ok (ShortN key (ValueN val) flag))
        else
          obind (omap_err (wrapError ''val'') (decodeRef dn rest cachegen)) (\<lambda>(r, _). Ok (ShortN key r flag))))"

text \<open>The loop over the first 16 children, \<open>k\<close> of which are missing.\<close>

primrec decodeFull_loop :: "nat \<Rightarrow> node_parser \<Rightarrow> bytes \<Rightarrow> u16 \<Rightarrow> (node_error, node list \<times> bytes) outcome" where
  "decodeFull_loop 0 dn els cachegen = Ok ([], els)"
| "decodeFull_loop (Suc k) dn els cachegen =
     obind (omap_err (wrapError (index_ctx (16 - Suc k))) (decodeRef dn els cachegen)) (\<lambda>(cld, rest).
     obind (decodeFull_loop k dn rest cachegen) (\<lambda>(clds, rest). Ok (cld # clds, rest)))"

definition decodeFull :: "node_parser \<Rightarrow> bytes option \<Rightarrow> bytes \<Rightarrow> u16 \<Rightarrow> (node_error, node) outcome" where
  "decodeFull dn hash els cachegen =
    obind (decodeFull_loop 16 dn els cachegen) (\<lambda>(clds, els).
    obind (omap_err NRlp (SplitString els)) (\<lambda>(val, _).
      Ok (FullN (clds @ [if length val > 0 then ValueN val else NilN])
        \<lparr>fhash = hash, fgen = cachegen, fdirty = False\<rparr>)))"

text \<open>
  \<open>decodeNode\<close> with a bound on the nesting of embedded nodes. An embedded node is a part of the content
  of a list, so the length of the input bounds the nesting (\<open>decodeNode_depth_enough\<close>).
\<close>

primrec decodeNode_depth :: "nat \<Rightarrow> node_parser" where
  "decodeNode_depth 0 hash buf cachegen = Panic"
| "decodeNode_depth (Suc d) hash buf cachegen =
    (if length buf = 0 then Err NUnexpectedEOF
     else obind (omap_err NDecode (SplitList buf)) (\<lambda>(els, _).
       case CountValues els of
         Ok c \<Rightarrow>
           if c = 2 then omap_err (wrapError ''short'') (decodeShort (decodeNode_depth d) hash els cachegen)
           else if c = 17 then omap_err (wrapError ''full'') (decodeFull (decodeNode_depth d) hash els cachegen)
           else Err (NCount c)
       | Err _ \<Rightarrow> Err (NCount 0)
       | Panic \<Rightarrow> Panic))"

definition decodeNode :: node_parser where
  "decodeNode hash buf cachegen = decodeNode_depth (Suc (length buf)) hash buf cachegen"

definition mustDecodeNode :: "bytes option \<Rightarrow> bytes \<Rightarrow> u16 \<Rightarrow> ('e, node) outcome" where
  "mustDecodeNode hash buf cachegen =
    (case decodeNode hash buf cachegen of Ok n \<Rightarrow> Ok n | _ \<Rightarrow> Panic)"

section \<open>The bound on the nesting is enough\<close>

lemma Split_lengths:
  assumes "Split b = Ok (k, c, r)"
  shows "length r \<le> length b" "length c \<le> length b" "k = KList \<Longrightarrow> length c < length b"
  using assms by (auto simp: Split_def obind_Ok_iff slice_Ok_iff dest!: readKind_tagsize)

lemma SplitString_lengths: "SplitString b = Ok (c, r) \<Longrightarrow> length r \<le> length b"
  by (auto simp: SplitString_def obind_Ok_iff Split_lengths split: if_splits)

lemma SplitList_lengths: "SplitList b = Ok (c, r) \<Longrightarrow> length c < length b"
  by (auto simp: SplitList_def obind_Ok_iff Split_lengths split: if_splits)

lemma obind_cong': "m = m' \<Longrightarrow> (\<And>a. m' = Ok a \<Longrightarrow> f a = g a) \<Longrightarrow> obind m f = obind m' g"
  by (cases m') auto

lemma decodeRef_cong:
  assumes "\<And>h b g. length b \<le> length buf \<Longrightarrow> dn h b g = dn' h b g"
  shows "decodeRef dn buf gen = decodeRef dn' buf gen"
  unfolding decodeRef_def using assms by (intro obind_cong' refl) (auto simp: Let_def)

lemma decodeRef_length: "decodeRef dn buf gen = Ok (n, r) \<Longrightarrow> length r \<le> length buf"
  by (auto simp: decodeRef_def obind_Ok_iff omap_err_Ok_iff Let_def dest: Split_lengths split: if_splits)

lemma decodeFull_loop_cong:
  assumes "\<And>h b g. length b \<le> length els \<Longrightarrow> dn h b g = dn' h b g"
  shows "decodeFull_loop k dn els gen = decodeFull_loop k dn' els gen"
  using assms
proof (induction k arbitrary: els)
  case (Suc k)
  have "decodeRef dn els gen = decodeRef dn' els gen" using Suc.prems by (rule decodeRef_cong)
  moreover have "decodeFull_loop k dn r gen = decodeFull_loop k dn' r gen"
    if "decodeRef dn' els gen = Ok (n, r)" for n r
    using decodeRef_length [OF that] by (intro Suc.IH Suc.prems) simp
  ultimately show ?case by (auto simp: omap_err_Ok_iff intro!: obind_cong')
qed simp

lemma decodeShort_cong:
  assumes "\<And>h b g. length b \<le> length els \<Longrightarrow> dn h b g = dn' h b g"
  shows "decodeShort dn hash els gen = decodeShort dn' hash els gen"
proof -
  have "decodeRef dn r gen = decodeRef dn' r gen" if "SplitString els = Ok (k, r)" for k r
    using SplitString_lengths [OF that] by (intro decodeRef_cong assms) simp
  then show ?thesis unfolding decodeShort_def Let_def
    by (auto simp: omap_err_Ok_iff intro!: obind_cong')
qed

lemma decodeNode_depth_enough:
  "length buf < d \<Longrightarrow> decodeNode_depth d hash buf gen = decodeNode hash buf gen"
proof (induction d arbitrary: buf hash gen rule: less_induct)
  case (less d)
  obtain d' where d: "d = Suc d'" using less.prems by (cases d) auto
  have eq: "decodeNode_depth d' h b g = decodeNode_depth (length buf) h b g"
    if "length b < length buf" for h b g
    using less.IH [of d' b h g] less.IH [of "length buf" b h g] that less.prems by (auto simp: d)
  have "decodeShort (decodeNode_depth d') hash els gen = decodeShort (decodeNode_depth (length buf)) hash els gen"
    "decodeFull (decodeNode_depth d') hash els gen = decodeFull (decodeNode_depth (length buf)) hash els gen"
    if "length els < length buf" for els
    using that eq unfolding decodeFull_def
    by (auto intro!: decodeShort_cong decodeFull_loop_cong arg_cong2 [where f = obind])
  then show ?case unfolding d decodeNode_def decodeNode_depth.simps
    by (intro if_cong refl obind_cong')
      (auto simp: omap_err_Ok_iff dest!: SplitList_lengths split: outcome.splits)
qed

lemma decodeNode_simps:
  "decodeNode hash buf gen =
    (if length buf = 0 then Err NUnexpectedEOF
     else obind (omap_err NDecode (SplitList buf)) (\<lambda>(els, _).
       case CountValues els of
         Ok c \<Rightarrow>
           if c = 2 then omap_err (wrapError ''short'') (decodeShort decodeNode hash els gen)
           else if c = 17 then omap_err (wrapError ''full'') (decodeFull decodeNode hash els gen)
           else Err (NCount c)
       | Err _ \<Rightarrow> Err (NCount 0)
       | Panic \<Rightarrow> Panic))"
proof -
  have "decodeShort (decodeNode_depth (length buf)) hash els gen = decodeShort decodeNode hash els gen"
    "decodeFull (decodeNode_depth (length buf)) hash els gen = decodeFull decodeNode hash els gen"
    if "length els < length buf" for els
    using that unfolding decodeFull_def
    by (auto intro!: decodeShort_cong decodeFull_loop_cong arg_cong2 [where f = obind] decodeNode_depth_enough)
  then show ?thesis unfolding decodeNode_def [of hash buf] decodeNode_depth.simps
    by (intro if_cong refl obind_cong')
      (auto simp: omap_err_Ok_iff dest!: SplitList_lengths split: outcome.splits)
qed

section \<open>Parsing inverts encoding\<close>

text \<open>The encoding of a node whose keys are hex keys.\<close>

fun node_enc :: "node \<Rightarrow> bytes" where
  "node_enc NilN = rlp_str []"
| "node_enc (ValueN v) = rlp_str v"
| "node_enc (HashN h) = rlp_str h"
| "node_enc (ShortN k v f) = rlp_list (rlp_str (compact k) @ node_enc v)"
| "node_enc (FullN cs f) = rlp_list (concat (map node_enc cs))"

definition is_branch :: "node \<Rightarrow> bool" where
  "is_branch n \<longleftrightarrow> (case n of ShortN _ _ _ \<Rightarrow> True | FullN _ _ \<Rightarrow> True | _ \<Rightarrow> False)"

text \<open>The nodes that are stored: children are empty, hashes or embedded nodes of at most 32 bytes.\<close>

function (sequential) storable :: "node \<Rightarrow> bool" where
  "storable NilN = False"
| "storable (ValueN v) = False"
| "storable (HashN h) = False"
| "storable (ShortN k v f) =
    (hexkey k \<and>
     (if hasTerm k then (case v of ValueN _ \<Rightarrow> True | _ \<Rightarrow> False)
      else case v of
          NilN \<Rightarrow> True
        | HashN h \<Rightarrow> length h = 32
        | ValueN _ \<Rightarrow> False
        | n \<Rightarrow> storable n \<and> length (node_enc n) \<le> 32))"
| "storable (FullN cs f) =
    (length cs = 17 \<and>
     (case cs ! 16 of NilN \<Rightarrow> True | ValueN v \<Rightarrow> v \<noteq> [] | _ \<Rightarrow> False) \<and>
     (\<forall>c \<in> set (take 16 cs). case c of
          NilN \<Rightarrow> True
        | HashN h \<Rightarrow> length h = 32
        | ValueN _ \<Rightarrow> False
        | n \<Rightarrow> storable n \<and> length (node_enc n) \<le> 32))"
  by pat_completeness auto
termination
  by (relation "measure size") (auto simp: less_Suc_eq_le dest!: in_set_takeD intro: size_list_estimation' trans_le_add1)

definition child_ok :: "node \<Rightarrow> bool" where
  "child_ok v \<longleftrightarrow> (case v of NilN \<Rightarrow> True | HashN h \<Rightarrow> length h = 32 | ValueN _ \<Rightarrow> False
    | n \<Rightarrow> storable n \<and> length (node_enc n) \<le> 32)"

lemma storable_Short:
  "storable (ShortN k v f) \<longleftrightarrow> hexkey k \<and> (if hasTerm k then \<exists>x. v = ValueN x else child_ok v)"
  by (auto simp: child_ok_def split: node.splits)

lemma storable_Full:
  "storable (FullN cs f) \<longleftrightarrow> length cs = 17 \<and> (cs ! 16 = NilN \<or> (\<exists>v. cs ! 16 = ValueN v \<and> v \<noteq> [])) \<and>
    (\<forall>c \<in> set (take 16 cs). child_ok c)"
  by (auto simp: child_ok_def split: node.splits)

declare storable.simps(4,5) [simp del]

text \<open>What parsing does to the flags.\<close>

fun reflag :: "bytes option \<Rightarrow> u16 \<Rightarrow> node \<Rightarrow> node" where
  "reflag h g (ShortN k v f) = ShortN k (reflag None g v) \<lparr>fhash = h, fgen = g, fdirty = False\<rparr>"
| "reflag h g (FullN cs f) = FullN (map (reflag None g) cs) \<lparr>fhash = h, fgen = g, fdirty = False\<rparr>"
| "reflag h g n = n"

lemma rlp_str_frame: "rlp_str b = rlp_frame (if length b = 1 \<and> hd b < 128 then KByte else KString) b"
  by (auto simp: rlp_str_def rlp_frame_def rlp_frame_head_def)

lemma rlp_list_frame: "rlp_list c = rlp_frame KList c"
  by (simp add: rlp_list_def rlp_frame_def rlp_frame_head_def)

lemma Split_str:
  assumes "length (rlp_str b @ r) < 2 ^ 64"
  shows "Split (rlp_str b @ r) = Ok (if length b = 1 \<and> hd b < 128 then KByte else KString, b, r)"
  using Split_frame [of _ b r] assms unfolding rlp_str_frame by (simp add: canonical_def)

lemma Split_list:
  assumes "length (rlp_list c @ r) < 2 ^ 64"
  shows "Split (rlp_list c @ r) = Ok (KList, c, r)"
  using Split_frame [of KList c r] assms unfolding rlp_list_frame by (simp add: canonical_def)

lemma SplitString_str: "length (rlp_str b @ r) < 2 ^ 64 \<Longrightarrow> SplitString (rlp_str b @ r) = Ok (b, r)"
  by (simp add: SplitString_def Split_str)

lemma SplitList_list: "length (rlp_list c @ r) < 2 ^ 64 \<Longrightarrow> SplitList (rlp_list c @ r) = Ok (c, r)"
  by (simp add: SplitList_def Split_list)

lemma node_enc_frame: "\<exists>f. canonical (fst f) (snd f) \<and> node_enc n = rlp_frame (fst f) (snd f)"
proof -
  have s: "\<exists>f. canonical (fst f) (snd f) \<and> rlp_str b = rlp_frame (fst f) (snd f)" for b
    by (rule exI [of _ "(if length b = 1 \<and> hd b < 128 then KByte else KString, b)"])
      (simp add: rlp_str_frame canonical_def)
  have l: "\<exists>f. canonical (fst f) (snd f) \<and> rlp_list b = rlp_frame (fst f) (snd f)" for b
    by (rule exI [of _ "(KList, b)"]) (simp add: rlp_list_frame canonical_def)
  show ?thesis by (cases n) (simp_all only: node_enc.simps s l)
qed

lemma CountValues_nodes:
  assumes "length (concat (map node_enc ns)) < 2 ^ 64"
  shows "CountValues (concat (map node_enc ns)) = Ok (length ns)"
proof -
  obtain f where f: "\<And>n. canonical (fst (f n)) (snd (f n)) \<and> node_enc n = rlp_frame (fst (f n)) (snd (f n))"
    using node_enc_frame by metis
  then have "node_enc = (\<lambda>n. rlp_frame (fst (f n)) (snd (f n)))" by blast
  then have "concat (map node_enc ns) = concat (map (\<lambda>(k, c). rlp_frame k c) (map f ns))"
    by (simp only: map_map case_prod_beta comp_def)
  then show ?thesis using CountValues_loop_frames [of "map f ns" 0] f assms
    by (simp add: CountValues_def case_prod_beta)
qed

lemma decodeRef_child:
  assumes "child_ok c" "length (node_enc c @ r) < 2 ^ 64"
    and "\<And>h r. storable c \<Longrightarrow> length (node_enc c @ r) < 2 ^ 64 \<Longrightarrow> decodeNode h (node_enc c @ r) g = Ok (reflag h g c)"
  shows "decodeRef decodeNode (node_enc c @ r) g = Ok (reflag None g c, r)"
proof (cases c)
  case (HashN h)
  then show ?thesis using assms(1,2) Split_str [of h r] by (auto simp: decodeRef_def child_ok_def)
next
  case NilN
  then show ?thesis using assms(2) Split_str [of "[]" r] by (auto simp: decodeRef_def)
next
  case (FullN cs f)
  then show ?thesis using assms Split_list [of "concat (map node_enc cs)" r]
    by (auto simp: decodeRef_def child_ok_def hashLen_def)
next
  case (ShortN k v f)
  then show ?thesis using assms Split_list [of "rlp_str (compact k) @ node_enc v" r]
    by (auto simp: decodeRef_def child_ok_def hashLen_def)
qed (use assms(1) in \<open>simp add: child_ok_def\<close>)

lemma decodeFull_loop_children:
  assumes "\<And>c r. c \<in> set cs \<Longrightarrow> length (node_enc c @ r) < 2 ^ 64 \<Longrightarrow>
      decodeRef decodeNode (node_enc c @ r) g = Ok (reflag None g c, r)"
    and "length (concat (map node_enc cs) @ r) < 2 ^ 64" "length cs = k"
  shows "decodeFull_loop k decodeNode (concat (map node_enc cs) @ r) g = Ok (map (reflag None g) cs, r)"
  using assms
proof (induction cs arbitrary: k)
  case (Cons c cs)
  then obtain k' where "k = Suc k'" "length cs = k'" by auto
  then show ?case using Cons.IH [of k'] Cons.prems(1) [of c "concat (map node_enc cs) @ r"] Cons.prems by simp
qed simp

lemma decodeNode_list:
  assumes "length (rlp_list (concat (map node_enc ns)) @ r) < 2 ^ 64"
  shows "decodeNode h (rlp_list (concat (map node_enc ns)) @ r) g =
    (if length ns = 2 then omap_err (wrapError ''short'') (decodeShort decodeNode h (concat (map node_enc ns)) g)
     else if length ns = 17 then omap_err (wrapError ''full'') (decodeFull decodeNode h (concat (map node_enc ns)) g)
     else Err (NCount (length ns)))"
proof -
  have "length (concat (map node_enc ns)) < 2 ^ 64" "rlp_list (concat (map node_enc ns)) \<noteq> []"
    using assms by (auto simp: rlp_list_def rlp_head_def)
  then show ?thesis using SplitList_list [OF assms] CountValues_nodes [of ns]
    by (subst decodeNode_simps) simp
qed

text \<open>The encoding of a storable node is parsed to that node.\<close>

lemma decodeNode_node_enc:
  assumes "storable n" "length (node_enc n @ r) < 2 ^ 64"
  shows "decodeNode h (node_enc n @ r) g = Ok (reflag h g n)"
  using assms
proof (induction n arbitrary: h r rule: measure_induct_rule [of size])
  case (less n)
  show ?case
  proof (cases n)
    case (ShortN k v f)
    note s = less.prems(1) [unfolded ShortN storable_Short]
    let ?e = "rlp_str (compact k) @ node_enc v"
    have l: "length ?e < 2 ^ 64" using less.prems(2) by (simp add: ShortN rlp_list_def)
    have sh: "decodeNode h (node_enc n @ r) g = omap_err (wrapError ''short'') (decodeShort decodeNode h ?e g)"
      using decodeNode_list [of "[ValueN (compact k), v]" r h g] less.prems(2) by (simp add: ShortN)
    have key: "SplitString ?e = Ok (compact k, node_enc v)" "compactToHex (compact k) = (Ok k :: (node_error, bytes) outcome)"
      using SplitString_str [OF l] compactToHex_compact s by blast+
    show ?thesis
    proof (cases "hasTerm k")
      case True
      with s obtain x where v: "v = ValueN x" by auto
      have "SplitString (rlp_str x) = Ok (x, [])" using SplitString_str [of x "[]"] l v by simp
      then show ?thesis using sh key True v by (simp add: ShortN decodeShort_def)
    next
      case False
      have "decodeRef decodeNode (node_enc v @ []) g = Ok (reflag None g v, [])"
        using l False s less.IH [of v] by (intro decodeRef_child) (auto simp: ShortN)
      then show ?thesis using sh key False by (simp add: ShortN decodeShort_def)
    qed
  next
    case (FullN cs f)
    note s = less.prems(1) [unfolded FullN storable_Full]
    have cs: "cs = take 16 cs @ [cs ! 16]" using s by (simp add: id_take_nth_drop [of 16 cs, symmetric] take_Suc_conv_app_nth [symmetric])
    let ?a = "concat (map node_enc (take 16 cs))" and ?b = "node_enc (cs ! 16)"
    have e: "concat (map node_enc cs) = ?a @ ?b" using arg_cong [OF cs, of "\<lambda>x. concat (map node_enc x)"] by simp
    have l: "length (?a @ ?b) < 2 ^ 64" using less.prems(2) by (simp add: FullN rlp_list_def e)
    have full: "decodeNode h (node_enc n @ r) g = omap_err (wrapError ''full'') (decodeFull decodeNode h (?a @ ?b) g)"
      using decodeNode_list [of cs r h g] less.prems(2) s by (simp add: FullN e)
    have "decodeFull_loop 16 decodeNode (?a @ ?b) g = Ok (map (reflag None g) (take 16 cs), ?b)"
    proof (rule decodeFull_loop_children)
      fix c r assume c: "c \<in> set (take 16 cs)" "length (node_enc c @ r) < 2 ^ 64"
      then have "size c < size n" using size_list_estimation' [OF in_set_takeD [OF c(1)], of "size c" size] by (simp add: FullN)
      then show "decodeRef decodeNode (node_enc c @ r) g = Ok (reflag None g c, r)"
        using c s by (intro decodeRef_child less.IH) auto
    qed (use l s in simp_all)
    moreover obtain v where "?b = rlp_str v" "(if length v > 0 then ValueN v else NilN) = reflag None g (cs ! 16)"
      using s by force
    moreover have "SplitString (rlp_str v @ []) = Ok (v, [])" if "?b = rlp_str v" for v
      using l that by (intro SplitString_str) simp
    ultimately show ?thesis using full arg_cong [OF cs, of "map (reflag None g)"] by (simp add: FullN decodeFull_def)
  qed (use less.prems(1) in simp_all)
qed

section \<open>Empty keys\<close>

text \<open>
  C15. An empty compact key makes \<open>decodeNode\<close> panic: every list of two elements whose first element is the empty string is taken for a short
  node, and \<open>compactToHex\<close> reads the first nibble of its key, whatever the second element is.
\<close>
theorem decodeNode_empty_key_panics:
  assumes "SplitList b = Ok (els, rest)" "CountValues els = Ok 2" "SplitString els = Ok ([], val)"
  shows "decodeNode h b g = Panic"
proof -
  have "b \<noteq> []" using assms(1) by (auto simp: SplitList_def Split_def readKind_def)
  then show ?thesis using assms
    by (subst decodeNode_simps) (simp add: decodeShort_def compactToHex_def keybytesToHex_def)
qed

lemma decodeNode_empty_key_panics_witness: "decodeNode None [0xC3, 0x80, 0x81, 200] 0 = Panic"
proof -
  have "SplitList [0xC3, 0x80, 0x81, 200] = Ok ([0x80, 0x81, 200], [])" "CountValues [0x80, 0x81, 200] = Ok 2"
    "SplitString [0x80, 0x81, 200] = Ok ([], [0x81, 200])" by code_simp+
  then show ?thesis by (rule decodeNode_empty_key_panics)
qed

end
