(* ===== verification/TrieOps.thy ===== *)
theory TrieOps
  imports TrieNode
begin

text \<open>
  The operations of the trie, \<open>chain/space/trie/trie.go\<close>: lookup, insertion and deletion with the lazy
  loading of nodes from the database. The recursion of the source follows the hashes stored in the
  database and need not end on a corrupt one, so the operations are partial (\<open>None\<close> for a call that does
  not return).
\<close>

section \<open>The trie\<close>

text \<open>\<open>MissingNodeError\<close>. The methods \<open>Get\<close>, \<open>Update\<close> and \<open>Delete\<close> only log it.\<close>

datatype trie_error = MissingNode (NodeHash: bytes) (Path: bytes)

text \<open>The method \<open>Get\<close> of a database: \<open>None\<close> when there is an error or no value.\<close>

type_synonym reader = "bytes \<Rightarrow> bytes option"

text \<open>A trie without its database, which is shared and an argument of the operations; \<open>None\<close> is the nil
  database.\<close>

record Trie =
  root :: node
  originalRoot :: bytes
  cachegen :: u16
  cachelimit :: u16

definition BytesToHash :: "bytes \<Rightarrow> bytes" where
  "BytesToHash b =
    (let b = (if length b > 32 then drop (length b - 32) b else b)
     in replicate (32 - length b) 0 @ b)"

definition emptyRoot :: bytes where
  "emptyRoot =
    [0x56, 0xe8, 0x1f, 0x17, 0x1b, 0xcc, 0x55, 0xa6, 0xff, 0x83, 0x45, 0xe6, 0x92, 0xc0, 0xf8, 0x6e,
     0x5b, 0x48, 0xe0, 0x1b, 0x99, 0x6c, 0xad, 0xc0, 0x01, 0x62, 0x2f, 0xb5, 0xe3, 0x63, 0xb4, 0x21]"

definition SetCacheLimit :: "u16 \<Rightarrow> Trie \<Rightarrow> Trie" where
  "SetCacheLimit l t = t\<lparr>cachelimit := l\<rparr>"

definition newFlag :: "u16 \<Rightarrow> nodeFlag" where
  "newFlag gen = \<lparr>fhash = None, fgen = gen, fdirty = True\<rparr>"

definition resolveHash :: "reader option \<Rightarrow> u16 \<Rightarrow> bytes \<Rightarrow> bytes \<Rightarrow> (trie_error, node) outcome" where
  "resolveHash db gen n prefx =
    (case db of
       None \<Rightarrow> Panic
     | Some Get \<Rightarrow>
         (case Get n of
            None \<Rightarrow> Err (MissingNode (BytesToHash n) prefx)
          | Some ebuf \<Rightarrow> mustDecodeNode (Some n) ebuf gen))"

definition resolve :: "reader option \<Rightarrow> u16 \<Rightarrow> node \<Rightarrow> bytes \<Rightarrow> (trie_error, node) outcome" where
  "resolve db gen n prefx = (case n of HashN h \<Rightarrow> resolveHash db gen h prefx | _ \<Rightarrow> Ok n)"

definition New :: "bytes \<Rightarrow> reader option \<Rightarrow> (trie_error, Trie) outcome" where
  "New rt db =
    (let trie = \<lparr>root = NilN, originalRoot = rt, cachegen = 0, cachelimit = 0\<rparr>
     in if rt \<noteq> replicate 32 0 \<and> rt \<noteq> emptyRoot then
          if db = None then Panic
          else obind (resolveHash db (cachegen trie) rt []) (\<lambda>rootnode. Ok (trie\<lparr>root := rootnode\<rparr>))
        else Ok trie)"

section \<open>Lookup\<close>

text \<open>An element of the array of children, and its assignment.\<close>

definition child :: "node list \<Rightarrow> byte \<Rightarrow> ('e, node) outcome" where
  "child cs i = index cs (unat i)"

definition set_child :: "node list \<Rightarrow> byte \<Rightarrow> node \<Rightarrow> ('e, node list) outcome" where
  "set_child cs i c = (if unat i < length cs then Ok (cs[unat i := c]) else Panic)"

partial_function (option) tryGet ::
  "reader option \<Rightarrow> u16 \<Rightarrow> node \<Rightarrow> bytes \<Rightarrow> nat \<Rightarrow> (trie_error, bytes option \<times> node \<times> bool) run" where
  "tryGet db gen origNode key pos =
    (case origNode of
       NilN \<Rightarrow> Some (Ok (None, NilN, False))
     | ValueN v \<Rightarrow> Some (Ok (Some v, ValueN v, False))
     | ShortN k v f \<Rightarrow>
         if length key < pos + length k \<or> k \<noteq> take (length k) (drop pos key)
         then Some (Ok (None, ShortN k v f, False))
         else rbind (tryGet db gen v key (pos + length k)) (\<lambda>(val, newnode, didResolve).
           Some (Ok (val, if didResolve then ShortN k newnode (f\<lparr>fgen := gen\<rparr>) else ShortN k v f, didResolve)))
     | FullN cs f \<Rightarrow>
         rbind (Some (index key pos)) (\<lambda>i.
         rbind (Some (child cs i)) (\<lambda>c.
         rbind (tryGet db gen c key (pos + 1)) (\<lambda>(val, newnode, didResolve).
           if didResolve then
             rbind (Some (set_child cs i newnode)) (\<lambda>cs'. Some (Ok (val, FullN cs' (f\<lparr>fgen := gen\<rparr>), True)))
           else Some (Ok (val, FullN cs f, False)))))
     | HashN h \<Rightarrow>
         rbind (Some (resolveHash db gen h (take pos key))) (\<lambda>c.
         rbind (tryGet db gen c key pos) (\<lambda>(val, newnode, _). Some (Ok (val, newnode, True)))))"

definition TryGet :: "reader option \<Rightarrow> bytes \<Rightarrow> Trie \<Rightarrow> (trie_error, bytes option \<times> Trie) run" where
  "TryGet db key t =
    rbind (tryGet db (cachegen t) (root t) (keybytesToHex key) 0) (\<lambda>(val, newroot, didResolve).
      Some (Ok (val, if didResolve then t\<lparr>root := newroot\<rparr> else t)))"

text \<open>\<open>Get\<close> logs an error and returns nil.\<close>

definition Trie_Get :: "reader option \<Rightarrow> bytes \<Rightarrow> Trie \<Rightarrow> (trie_error, bytes option \<times> Trie) run" where
  "Trie_Get db key t =
    (case TryGet db key t of Some (Err e) \<Rightarrow> Some (Ok (None, t)) | r \<Rightarrow> r)"

section \<open>Insertion\<close>

partial_function (option) trie_insert ::
  "reader option \<Rightarrow> u16 \<Rightarrow> node \<Rightarrow> bytes \<Rightarrow> bytes \<Rightarrow> node \<Rightarrow> (trie_error, bool \<times> node) run" where
  "trie_insert db gen n prefx key val =
    (if length key = 0 then
       (case n of
          ValueN v \<Rightarrow> (case val of ValueN w \<Rightarrow> Some (Ok (v \<noteq> w, val)) | _ \<Rightarrow> Some Panic)
        | _ \<Rightarrow> Some (Ok (True, val)))
     else case n of
       ShortN k v f \<Rightarrow>
         let matchlen = prefixLen key k
         in if matchlen = length k then
              rbind (trie_insert db gen v (prefx @ take matchlen key) (drop matchlen key) val) (\<lambda>(dirty, nn).
                if \<not> dirty then Some (Ok (False, ShortN k v f))
                else Some (Ok (True, ShortN k nn (newFlag gen))))
            else
              rbind (Some (index k matchlen)) (\<lambda>i.
              rbind (trie_insert db gen NilN (prefx @ take (matchlen + 1) k) (drop (matchlen + 1) k) v) (\<lambda>(_, c).
              rbind (Some (set_child (replicate 17 NilN) i c)) (\<lambda>cs.
              rbind (Some (index key matchlen)) (\<lambda>j.
              rbind (trie_insert db gen NilN (prefx @ take (matchlen + 1) key) (drop (matchlen + 1) key) val) (\<lambda>(_, c).
              rbind (Some (set_child cs j c)) (\<lambda>cs.
                if matchlen = 0 then Some (Ok (True, FullN cs (newFlag gen)))
                else Some (Ok (True, ShortN (take matchlen key) (FullN cs (newFlag gen)) (newFlag gen)))))))))
     | FullN cs f \<Rightarrow>
         rbind (Some (child cs (key ! 0))) (\<lambda>c.
         rbind (trie_insert db gen c (prefx @ [key ! 0]) (drop 1 key) val) (\<lambda>(dirty, nn).
           if \<not> dirty then Some (Ok (False, FullN cs f))
           else rbind (Some (set_child cs (key ! 0) nn)) (\<lambda>cs. Some (Ok (True, FullN cs (newFlag gen))))))
     | NilN \<Rightarrow> Some (Ok (True, ShortN key val (newFlag gen)))
     | HashN h \<Rightarrow>
         rbind (Some (resolveHash db gen h prefx)) (\<lambda>rn.
         rbind (trie_insert db gen rn prefx key val) (\<lambda>(dirty, nn).
           if \<not> dirty then Some (Ok (False, rn)) else Some (Ok (True, nn))))
     | ValueN _ \<Rightarrow> Some Panic)"

section \<open>Deletion\<close>

text \<open>The loop that finds the only child: -1 for none, -2 for more than one.\<close>

primrec only_child :: "int \<Rightarrow> nat \<Rightarrow> node list \<Rightarrow> int" where
  "only_child pos i [] = pos"
| "only_child pos i (cld # clds) =
     (if cld \<noteq> NilN then if pos = -1 then only_child (int i) (i + 1) clds else -2
      else only_child pos (i + 1) clds)"

definition concat_keys :: "bytes \<Rightarrow> bytes \<Rightarrow> bytes" where
  "concat_keys s1 s2 = s1 @ s2"

partial_function (option) trie_delete ::
  "reader option \<Rightarrow> u16 \<Rightarrow> node \<Rightarrow> bytes \<Rightarrow> bytes \<Rightarrow> (trie_error, bool \<times> node) run" where
  "trie_delete db gen n prefx key =
    (case n of
       ShortN k v f \<Rightarrow>
         let matchlen = prefixLen key k
         in if matchlen < length k then Some (Ok (False, ShortN k v f))
            else if matchlen = length key then Some (Ok (True, NilN))
            else
              rbind (trie_delete db gen v (prefx @ take (length k) key) (drop (length k) key)) (\<lambda>(dirty, c).
                if \<not> dirty then Some (Ok (False, ShortN k v f))
                else (case c of
                    ShortN ck cv _ \<Rightarrow> Some (Ok (True, ShortN (concat_keys k ck) cv (newFlag gen)))
                  | _ \<Rightarrow> Some (Ok (True, ShortN k c (newFlag gen)))))
     | FullN cs f \<Rightarrow>
         rbind (Some (index key 0)) (\<lambda>i.
         rbind (Some (child cs i)) (\<lambda>c.
         rbind (trie_delete db gen c (prefx @ [i]) (drop 1 key)) (\<lambda>(dirty, nn).
           if \<not> dirty then Some (Ok (False, FullN cs f))
           else
             rbind (Some (set_child cs i nn)) (\<lambda>cs.
               let pos = only_child (-1) 0 cs
               in if pos \<ge> 0 then
                    if pos \<noteq> 16 then
                      rbind (Some (resolve db gen (cs ! nat pos) prefx)) (\<lambda>cnode.
                        case cnode of
                          ShortN ck cv _ \<Rightarrow> Some (Ok (True, ShortN (word_of_int pos # ck) cv (newFlag gen)))
                        | _ \<Rightarrow> Some (Ok (True, ShortN [word_of_int pos] (cs ! nat pos) (newFlag gen))))
                    else Some (Ok (True, ShortN [word_of_int pos] (cs ! nat pos) (newFlag gen)))
                  else Some (Ok (True, FullN cs (newFlag gen)))))))
     | ValueN _ \<Rightarrow> Some (Ok (True, NilN))
     | NilN \<Rightarrow> Some (Ok (False, NilN))
     | HashN h \<Rightarrow>
         rbind (Some (resolveHash db gen h prefx)) (\<lambda>rn.
         rbind (trie_delete db gen rn prefx key) (\<lambda>(dirty, nn).
           if \<not> dirty then Some (Ok (False, rn)) else Some (Ok (True, nn)))))"

section \<open>The methods\<close>

definition TryUpdate :: "reader option \<Rightarrow> bytes \<Rightarrow> bytes \<Rightarrow> Trie \<Rightarrow> (trie_error, Trie) run" where
  "TryUpdate db key val t =
    (if length val \<noteq> 0 then
       rbind (trie_insert db (cachegen t) (root t) [] (keybytesToHex key) (ValueN val)) (\<lambda>(_, n). Some (Ok (t\<lparr>root := n\<rparr>)))
     else
       rbind (trie_delete db (cachegen t) (root t) [] (keybytesToHex key)) (\<lambda>(_, n). Some (Ok (t\<lparr>root := n\<rparr>))))"

definition TryDelete :: "reader option \<Rightarrow> bytes \<Rightarrow> Trie \<Rightarrow> (trie_error, Trie) run" where
  "TryDelete db key t =
    rbind (trie_delete db (cachegen t) (root t) [] (keybytesToHex key)) (\<lambda>(_, n). Some (Ok (t\<lparr>root := n\<rparr>)))"

definition Trie_Update :: "reader option \<Rightarrow> bytes \<Rightarrow> bytes \<Rightarrow> Trie \<Rightarrow> (trie_error, Trie) run" where
  "Trie_Update db key val t = (case TryUpdate db key val t of Some (Err e) \<Rightarrow> Some (Ok t) | r \<Rightarrow> r)"

definition Trie_Delete :: "reader option \<Rightarrow> bytes \<Rightarrow> Trie \<Rightarrow> (trie_error, Trie) run" where
  "Trie_Delete db key t = (case TryDelete db key t of Some (Err e) \<Rightarrow> Some (Ok t) | r \<Rightarrow> r)"

end
