(* ===== verification/TrieMap.thy ===== *)
theory TrieMap
  imports TrieOps
begin

text \<open>
  What the trie operations do. A node in memory stands for a tree without unloaded parts (\<open>loads\<close>), the
  tree for a map from hex keys to values (\<open>content\<close>). On trees in canonical form (\<open>wft\<close>) lookup, insertion
  and deletion return and are the operations of the map, and they keep the canonical form.
\<close>

section \<open>Trees and their maps\<close>

definition blank :: nodeFlag where
  "blank = \<lparr>fhash = None, fgen = 0, fdirty = False\<rparr>"

function (sequential) content :: "node \<Rightarrow> bytes \<Rightarrow> bytes option" where
  "content (ValueN v) q = (if q = [] then Some v else None)"
| "content (ShortN k v f) q = (if take (length k) q = k then content v (drop (length k) q) else None)"
| "content (FullN cs f) (x # r) = (if unat x < length cs then content (cs ! unat x) r else None)"
| "content _ q = None"
  by pat_completeness auto
termination
  by (relation "measure (\<lambda>(n, q). size n)") (auto simp: less_Suc_eq_le intro!: size_list_estimation' trans_le_add1)

text \<open>The hex keys of whole keys: nibbles and the terminator.\<close>

fun tkey :: "bytes \<Rightarrow> bool" where
  "tkey [] = False"
| "tkey (x # r) = (x < 16 \<and> tkey r \<or> x = 16 \<and> r = [])"

text \<open>The indices of the children that are there.\<close>

definition live :: "node list \<Rightarrow> nat list" where
  "live cs = filter (\<lambda>i. cs ! i \<noteq> NilN) [0..<length cs]"

definition is_full :: "node \<Rightarrow> bool" where
  "is_full n = (case n of FullN _ _ \<Rightarrow> True | _ \<Rightarrow> False)"

definition is_value :: "node \<Rightarrow> bool" where
  "is_value n = (case n of ValueN x \<Rightarrow> x \<noteq> [] | _ \<Rightarrow> False)"

text \<open>Nonempty trees in canonical form: no short node below a short node, at least two children in
  every full node, values only at the end of a key.\<close>

function (sequential) wft :: "node \<Rightarrow> bool" where
  "wft (ShortN k v f) = (f = blank \<and> (tkey k \<and> is_value v \<or> nibbles k \<and> k \<noteq> [] \<and> is_full v \<and> wft v))"
| "wft (FullN cs f) =
    (f = blank \<and> length cs = 17 \<and> (\<forall>i < 16. cs ! i = NilN \<or> (i < length cs \<longrightarrow> wft (cs ! i))) \<and>
     (cs ! 16 = NilN \<or> is_value (cs ! 16)) \<and> 2 \<le> length (live cs))"
| "wft _ = False"
  by pat_completeness auto
termination
  by (relation "measure size") (auto simp: less_Suc_eq_le intro!: size_list_estimation' trans_le_add1)

declare wft.simps(2) [simp del]

lemma wft_FullN:
  "wft (FullN cs f) \<longleftrightarrow> f = blank \<and> length cs = 17 \<and> (\<forall>i < 16. cs ! i = NilN \<or> wft (cs ! i)) \<and>
     (cs ! 16 = NilN \<or> is_value (cs ! 16)) \<and> 2 \<le> length (live cs)"
  by (auto simp: wft.simps)

lemma is_value_iff: "is_value n \<longleftrightarrow> (\<exists>x. n = ValueN x \<and> x \<noteq> [])"
  by (cases n) (auto simp: is_value_def)

lemma is_full_iff: "is_full n \<longleftrightarrow> (\<exists>cs f. n = FullN cs f)"
  by (cases n) (auto simp: is_full_def)

text \<open>A tree at the position where the rest of the key is \<open>q\<close>.\<close>

definition at_key :: "bytes \<Rightarrow> node \<Rightarrow> bool" where
  "at_key q t \<longleftrightarrow> t = NilN \<and> (q = [] \<or> tkey q) \<or> q = [] \<and> is_value t \<or> tkey q \<and> wft t"

section \<open>Keys\<close>

lemma tkey_iff: "tkey q \<longleftrightarrow> (\<exists>ns. nibbles ns \<and> q = ns @ [16])"
proof (induction q)
  case (Cons x r)
  show ?case
  proof
    assume "tkey (x # r)"
    then consider "x < 16" "tkey r" | "x = 16" "r = []" by auto
    then show "\<exists>ns. nibbles ns \<and> x # r = ns @ [16]"
    proof cases
      case 1
      then obtain ns where "nibbles ns" "r = ns @ [16]" using Cons by auto
      then show ?thesis using 1 by (intro exI [of _ "x # ns"]) simp
    qed auto
  next
    assume "\<exists>ns. nibbles ns \<and> x # r = ns @ [16]"
    then obtain ns where "nibbles ns" "x # r = ns @ [16]" by blast
    then show "tkey (x # r)" using Cons by (cases ns) auto
  qed
qed simp

lemma tkey_keybytesToHex [simp]: "tkey (keybytesToHex k)"
  by (auto simp: tkey_iff keybytesToHex_def)

lemma tkey_append: "nibbles k \<Longrightarrow> tkey (k @ r) \<longleftrightarrow> tkey r"
  by (induction k) auto

lemma tkey_appendD: "tkey (c @ r) \<Longrightarrow> r \<noteq> [] \<Longrightarrow> nibbles c \<and> tkey r"
  by (induction c) auto

lemma tkey_prefix: "tkey k \<Longrightarrow> tkey (k @ r) \<Longrightarrow> r = []"
  by (induction k) auto

lemma nibble_index: "x < (16 :: byte) \<Longrightarrow> unat x < 16" "x = 16 \<Longrightarrow> unat (x :: byte) = 16"
  by (simp_all add: word_less_nat_alt)

lemma tkey_hd: "tkey (x # r) \<Longrightarrow> unat x < 17"
  using nibble_index by fastforce

lemma take_length_eq: "take (length k) q = k \<longleftrightarrow> (\<exists>r. q = k @ r)"
  by (auto simp: append_eq_conv_conj) (metis append_take_drop_id)

section \<open>Positions\<close>

lemma at_Short:
  assumes "at_key q (ShortN k v f)"
  shows "tkey q" "k \<noteq> []" "v \<noteq> NilN" "f = blank" "q = k @ r \<Longrightarrow> at_key r v" "q = k @ r \<Longrightarrow> r \<noteq> [] \<Longrightarrow> is_full v \<and> wft v"
    "is_value v \<and> tkey k \<or> is_full v \<and> wft v \<and> nibbles k"
proof -
  have w: "tkey q" "f = blank" and s: "tkey k \<and> is_value v \<or> nibbles k \<and> k \<noteq> [] \<and> is_full v \<and> wft v"
    using assms by (auto simp: at_key_def is_value_def)
  show "tkey q" "f = blank" by fact+
  show "k \<noteq> []" "v \<noteq> NilN" "is_value v \<and> tkey k \<or> is_full v \<and> wft v \<and> nibbles k"
    using s by (auto simp: is_value_def is_full_def)
  show "at_key r v" if "q = k @ r" using s w tkey_prefix tkey_append that by (auto simp: at_key_def)
  show "is_full v \<and> wft v" if "q = k @ r" "r \<noteq> []" using s w tkey_prefix that by auto
qed

lemma at_Full:
  assumes "at_key q (FullN cs f)"
  obtains x r where "q = x # r" "unat x < 17" "at_key r (cs ! unat x)" "length cs = 17" "tkey q" "wft (FullN cs f)"
proof -
  have w: "tkey q" "wft (FullN cs f)" using assms by (auto simp: at_key_def is_value_def)
  obtain x r where q: "q = x # r" using w(1) by (cases q) auto
  have "at_key r (cs ! unat x)"
    using w nibble_index [of x] unfolding q wft_FullN at_key_def by auto
  then show thesis using that [OF q] w tkey_hd [of x r] by (simp add: q wft_FullN)
qed

lemma at_Nil [simp]: "at_key q NilN \<longleftrightarrow> q = [] \<or> tkey q"
  by (auto simp: at_key_def is_value_def)

lemma at_Value [simp]: "at_key q (ValueN x) \<longleftrightarrow> q = [] \<and> x \<noteq> []"
  by (auto simp: at_key_def is_value_def)

section \<open>Changing one key\<close>

lemma content_Nil [simp]: "content NilN = Map.empty"
  by (auto simp: fun_eq_iff)

lemma content_Short_prefix: "content (ShortN k v f) (k @ r) = content v r"
  by simp

lemma content_Short_no: "(\<nexists>r. q = k @ r) \<Longrightarrow> content (ShortN k v f) q = None"
  by (auto simp: take_length_eq)

lemma content_Short_cases:
  assumes "\<And>r. q = k @ r \<Longrightarrow> y = content v r" "\<nexists>r. q = k @ r \<Longrightarrow> y = None"
  shows "content (ShortN k v f) q = y"
proof (cases "\<exists>r. q = k @ r")
  case True
  then obtain r where "q = k @ r" by blast
  then show ?thesis using assms(1) by simp
qed (use assms(2) content_Short_no in simp)

lemma content_Short_upd:
  assumes "content w = (content v)(r := y)"
  shows "content (ShortN k w f) = (content (ShortN k v g))(k @ r := y)"
proof
  fix q show "content (ShortN k w f) q = ((content (ShortN k v g))(k @ r := y)) q"
    using assms by (intro content_Short_cases) (auto simp: take_length_eq)
qed

lemma content_Short_Nil [simp]: "content (ShortN [] v f) = content v"
  by (auto simp: fun_eq_iff)

lemma content_Short_append: "content (ShortN (a @ b) v f) = content (ShortN a (ShortN b v g) h)"
proof
  fix q show "content (ShortN (a @ b) v f) q = content (ShortN a (ShortN b v g) h) q"
  proof (rule content_Short_cases)
    assume no: "\<nexists>r. q = (a @ b) @ r"
    have "content (ShortN a (ShortN b v g) h) q = None"
      using no by (intro content_Short_cases) (auto simp: take_length_eq)
    then show "content (ShortN a (ShortN b v g) h) q = None" .
  qed simp
qed

lemma content_Full_upd:
  assumes "unat x < length cs" "content c = (content (cs ! unat x))(r := y)"
  shows "content (FullN (cs[unat x := c]) f) = (content (FullN cs g))(x # r := y)"
proof
  fix q show "content (FullN (cs[unat x := c]) f) q = ((content (FullN cs g))(x # r := y)) q"
    using assms by (cases q) (auto simp: nth_list_update word_unat_eq_iff)
qed

lemma content_flags: "content (ShortN k v f) = content (ShortN k v g)" "content (FullN cs f) = content (FullN cs g)"
proof -
  show "content (ShortN k v f) = content (ShortN k v g)" by (auto simp: fun_eq_iff)
  have "content (FullN cs f) q = content (FullN cs g) q" for q by (cases q) auto
  then show "content (FullN cs f) = content (FullN cs g)" by blast
qed

section \<open>Nodes in memory\<close>

text \<open>
  The node \<open>n\<close> stands for the tree \<open>t\<close>: hashes are looked up in the database. \<open>H tp h d t\<close> is a condition on
  the flags: the cached hash may be \<open>h\<close> and the dirty flag \<open>d\<close> in a node for \<open>t\<close>; \<open>tp\<close> is true at the root. New
  nodes, which are dirty and have no hash, need no condition.
\<close>

definition flag_ok :: "(bytes option \<Rightarrow> bool \<Rightarrow> node \<Rightarrow> bool) \<Rightarrow> nodeFlag \<Rightarrow> node \<Rightarrow> bool" where
  "flag_ok P f t \<longleftrightarrow> fdirty f \<and> fhash f = None \<or> P (fhash f) (fdirty f) t"

inductive loads :: "(bool \<Rightarrow> bytes option \<Rightarrow> bool \<Rightarrow> node \<Rightarrow> bool) \<Rightarrow> reader \<Rightarrow> bool \<Rightarrow> node \<Rightarrow> node \<Rightarrow> bool" for H Get where
  loads_Nil: "loads H Get tp NilN NilN"
| loads_Value: "loads H Get tp (ValueN v) (ValueN v)"
| loads_Short: "loads H Get False v t \<Longrightarrow> flag_ok (H tp) f (ShortN k t blank) \<Longrightarrow>
    loads H Get tp (ShortN k v f) (ShortN k t blank)"
| loads_Full: "length cs = length ts \<Longrightarrow> (\<And>i. i < length ts \<Longrightarrow> loads H Get False (cs ! i) (ts ! i)) \<Longrightarrow>
    flag_ok (H tp) f (FullN ts blank) \<Longrightarrow> loads H Get tp (FullN cs f) (FullN ts blank)"
| loads_Hash: "Get h = Some b \<Longrightarrow> H tp (Some h) False t \<Longrightarrow> is_branch t \<Longrightarrow>
    (\<And>g. \<exists>n. decodeNode (Some h) b g = Ok n \<and> loads H Get tp n t) \<Longrightarrow> loads H Get tp (HashN h) t"

inductive_simps loads_simps [simp]:
  "loads H Get tp NilN t" "loads H Get tp (ValueN v) t"

inductive_cases loads_ShortE: "loads H Get tp (ShortN k v f) t"
inductive_cases loads_FullE: "loads H Get tp (FullN cs f) t"
inductive_cases loads_HashE: "loads H Get tp (HashN h) t"

lemma loads_Nil_iff: "loads H Get tp n t \<Longrightarrow> n = NilN \<longleftrightarrow> t = NilN"
  by (erule loads.cases) (auto simp: is_branch_def)

lemma flag_ok_simps [simp]:
  "flag_ok P (newFlag g) t" "flag_ok P (f\<lparr>fgen := g\<rparr>) t \<longleftrightarrow> flag_ok P f t"
  by (auto simp: flag_ok_def newFlag_def)

lemma decodeShort_branch: "decodeShort dn h b g = Ok n \<Longrightarrow> is_branch n"
  unfolding decodeShort_def Let_def
  by (auto simp: obind_Ok_iff is_branch_def split: if_splits)

lemma decodeFull_branch: "decodeFull dn h b g = Ok n \<Longrightarrow> is_branch n"
  by (auto simp: decodeFull_def obind_Ok_iff is_branch_def)

lemma decodeNode_branch:
  assumes "decodeNode h b g = Ok n"
  shows "is_branch n"
proof -
  obtain els rest where "(case CountValues els of
         Ok c \<Rightarrow>
           if c = 2 then omap_err (wrapError ''short'') (decodeShort decodeNode h els g)
           else if c = 17 then omap_err (wrapError ''full'') (decodeFull decodeNode h els g)
           else Err (NCount c)
       | Err _ \<Rightarrow> Err (NCount 0)
       | Panic \<Rightarrow> Panic) = Ok n"
    using assms by (subst (asm) decodeNode_simps) (auto simp: obind_Ok_iff split: if_split_asm)
  then show ?thesis using decodeShort_branch decodeFull_branch
    by (auto simp: omap_err_Ok_iff split: outcome.split_asm if_split_asm)
qed

lemma drop_Cons: "drop i xs = x # r \<Longrightarrow> i < length xs \<and> xs ! i = x \<and> drop (Suc i) xs = r"
  by (metis drop_eq_Nil drop_Suc list.distinct(1) list.sel(3) not_le nth_via_drop tl_drop)

lemma drop_append_eq:
  assumes "drop i xs = k @ r" "i \<le> length xs"
  shows "i + length k \<le> length xs \<and> drop (i + length k) xs = r"
proof -
  have "length xs - i = length k + length r" using assms(1) by (metis length_append length_drop)
  moreover have "drop (length k) (drop i xs) = r" by (simp only: assms(1) append_eq_conv_conj) simp
  ultimately show ?thesis using assms(2) by (simp add: add.commute)
qed

lemma resolveHash_loads:
  assumes "Get h = Some b" "decodeNode (Some h) b g = Ok n"
  shows "resolveHash (Some Get) g h p = Ok n"
  using assms by (simp add: resolveHash_def mustDecodeNode_def)

section \<open>Lookup\<close>

lemma tryGet_content:
  assumes "loads H Get tp n t" "pos \<le> length key" "at_key (drop pos key) t"
  shows "\<exists>n' r. tryGet (Some Get) gen n key pos = Some (Ok (content t (drop pos key), n', r)) \<and> loads H Get tp n' t"
  using assms
proof (induction arbitrary: pos rule: loads.induct)
  case (loads_Nil tp)
  then show ?case by (subst tryGet.simps) (auto intro: loads.intros)
next
  case (loads_Value tp v)
  then show ?case by (subst tryGet.simps) auto
next
  case (loads_Short v t tp f k)
  note a = at_Short [OF loads_Short.prems(2)]
  show ?case
  proof (cases "\<exists>r. drop pos key = k @ r")
    case True
    then obtain r where r: "drop pos key = k @ r" by blast
    then have l: "pos + length k \<le> length key" "drop (pos + length k) key = r"
      using drop_append_eq [OF r loads_Short.prems(1)] by simp_all
    then obtain n' d where "tryGet (Some Get) gen v key (pos + length k) = Some (Ok (content t r, n', d))" "loads H Get False n' t"
      using loads_Short.IH [of "pos + length k"] a(5) [OF r] by auto
    then show ?thesis using l r loads_Short.hyps by (subst tryGet.simps) (auto intro!: loads.intros)
  next
    case False
    then have "take (length k) (drop pos key) \<noteq> k" by (simp add: take_length_eq)
    moreover have "content (ShortN k t blank) (drop pos key) = None" using False by (rule content_Short_no)
    ultimately show ?thesis using loads_Short.hyps by (subst tryGet.simps) (auto intro!: loads.intros simp del: content.simps)
  qed
next
  case (loads_Full cs ts tp f)
  from loads_Full.prems(2) obtain x r where x: "drop pos key = x # r" "unat x < 17" "at_key r (ts ! unat x)" "length ts = 17"
    by (rule at_Full)
  then have k: "pos < length key" "key ! pos = x" "drop (pos + 1) key = r" using drop_Cons [of pos key] by auto
  obtain n' d where n': "tryGet (Some Get) gen (cs ! unat x) key (pos + 1) = Some (Ok (content (ts ! unat x) r, n', d))"
      "loads H Get False n' (ts ! unat x)"
    using loads_Full.IH [of "unat x" "pos + 1"] x k by auto
  have "loads H Get tp (FullN (cs[unat x := n']) (f\<lparr>fgen := gen\<rparr>)) (FullN ts blank)"
    using loads_Full.hyps n'(2) x(2,4) by (intro loads.intros) (auto simp: nth_list_update)
  then show ?case using n' x k loads_Full.hyps
    by (subst tryGet.simps) (auto simp: index_def child_def set_child_def intro: loads.intros)
next
  case (loads_Hash h b tp t)
  then obtain n where n: "decodeNode (Some h) b gen = Ok n" "loads H Get tp n t"
      "\<exists>n' r. tryGet (Some Get) gen n key pos = Some (Ok (content t (drop pos key), n', r)) \<and> loads H Get tp n' t"
    by blast
  then show ?case using resolveHash_loads [of Get h b gen n] loads_Hash.hyps(1) by (subst tryGet.simps) auto
qed

section \<open>Insertion\<close>

text \<open>A tree at the child of a full node, from the rest of a key.\<close>

definition leaf_or :: "bytes \<Rightarrow> node \<Rightarrow> node" where
  "leaf_or k v = (if k = [] then v else ShortN k v blank)"

lemma content_leaf_or: "content (leaf_or k v) = content (ShortN k v f)"
  using content_flags(1) by (auto simp: leaf_or_def)

text \<open>The subtree for the rest \<open>x # ks\<close> of a key, at index \<open>x\<close> of a full node.\<close>

definition sub_ok :: "byte \<Rightarrow> node \<Rightarrow> bool" where
  "sub_ok x t \<longleftrightarrow> x < 16 \<and> wft t \<or> x = 16 \<and> is_value t"

lemma sub_ok_leaf: "tkey (x # ks) \<Longrightarrow> is_value v \<Longrightarrow> sub_ok x (leaf_or ks v)"
  by (auto simp: sub_ok_def leaf_or_def)

lemma sub_ok_ext: "nibbles (x # ks) \<Longrightarrow> is_full v \<Longrightarrow> wft v \<Longrightarrow> sub_ok x (leaf_or ks v)"
  by (auto simp: sub_ok_def leaf_or_def)

lemma sub_ok_not_Nil: "sub_ok x t \<Longrightarrow> t \<noteq> NilN \<and> unat x < 17"
  using nibble_index [of x] by (auto simp: sub_ok_def is_value_def)

lemma live_two:
  assumes "i < length cs" "j < length cs" "i \<noteq> j" "cs ! i \<noteq> NilN" "cs ! j \<noteq> NilN"
  shows "2 \<le> length (live cs)"
proof -
  have "card {i, j} \<le> card (set (live cs))" using assms by (intro card_mono) (auto simp: live_def)
  then show ?thesis using assms(3) card_length [of "live cs"] by simp
qed

text \<open>The full node that replaces a short node at the point where the keys part.\<close>

definition fork :: "byte \<Rightarrow> node \<Rightarrow> byte \<Rightarrow> node \<Rightarrow> node list" where
  "fork a ta b tb = (replicate 17 NilN)[unat a := ta, unat b := tb]"

lemma wft_fork:
  assumes "sub_ok a ta" "sub_ok b tb" "a \<noteq> b"
  shows "wft (FullN (fork a ta b tb) blank)"
proof -
  have n: "unat a \<noteq> unat b" using assms(3) by (simp add: word_unat_eq_iff)
  have l: "unat a < 17" "unat b < 17" "ta \<noteq> NilN" "tb \<noteq> NilN" using sub_ok_not_Nil assms by blast+
  have i: "unat x = 16 \<longleftrightarrow> x = 16" "unat x < 16 \<longleftrightarrow> x < 16" for x :: byte
    by (simp_all add: word_unat_eq_iff word_less_nat_alt)
  have "2 \<le> length (live (fork a ta b tb))"
    using l n by (intro live_two [of "unat a" _ "unat b"]) (auto simp: fork_def)
  then show ?thesis
    using assms l n i [of a] i [of b]
    by (auto simp: wft_FullN fork_def nth_list_update sub_ok_def)
qed

lemma content_fork:
  assumes "unat a < 17" "unat b < 17" "a \<noteq> b"
  shows "content (FullN (fork a ta b tb) f) (y # r) = (if y = a then content ta r else if y = b then content tb r else None)"
  using assms by (auto simp: fork_def nth_list_update word_unat_eq_iff)

lemma content_branch:
  assumes "unat a < 17" "unat b < 17" "a \<noteq> b"
  shows "content (ShortN c (FullN (fork a (leaf_or ks tv) b (leaf_or qs (ValueN x))) g) f) =
    (content (ShortN (c @ a # ks) tv h))(c @ b # qs \<mapsto> x)"
proof -
  have "content (FullN (fork a (leaf_or ks tv) b (leaf_or qs (ValueN x))) g) = (content (ShortN (a # ks) tv h))(b # qs \<mapsto> x)"
  proof
    fix q show "content (FullN (fork a (leaf_or ks tv) b (leaf_or qs (ValueN x))) g) q =
        ((content (ShortN (a # ks) tv h))(b # qs \<mapsto> x)) q"
      using assms by (cases q) (auto simp: content_fork content_leaf_or [of _ _ blank] take_length_eq simp del: content.simps(3))
  qed
  from content_Short_upd [OF this, of c f h] show ?thesis using content_Short_append [of c "a # ks" tv h h h] by simp
qed

lemma keys_part:
  assumes "at_key q (ShortN k v f)" "prefixLen q k \<noteq> length k"
  obtains c a ks b qs where "k = c @ a # ks" "q = c @ b # qs" "a \<noteq> b" "prefixLen q k = length c"
proof -
  let ?m = "prefixLen q k"
  have m: "?m < length k" using prefixLen_le(2) [of q k] assms(2) by simp
  have "?m < length q"
  proof (rule ccontr)
    assume "\<not> ?m < length q"
    then have "?m = length q" using prefixLen_le(1) [of q k] by simp
    then obtain r where r: "k = q @ r" using take_prefixLen [of q k] by (metis append_take_drop_id take_all_iff order_refl)
    then have "r \<noteq> []" using m \<open>?m = length q\<close> by auto
    then show False using at_Short(1,7) [OF assms(1)] r tkey_prefix [of q r] by (auto simp: tkey_iff)
  qed
  with m have d: "drop ?m k = k ! ?m # drop (Suc ?m) k" "drop ?m q = q ! ?m # drop (Suc ?m) q"
    by (simp_all add: Cons_nth_drop_Suc)
  then have "k ! ?m \<noteq> q ! ?m" using drop_prefixLen [of q k] by simp
  moreover have "k = take ?m q @ k ! ?m # drop (Suc ?m) k"
    using append_take_drop_id [of ?m k] d(1) take_prefixLen [of q k] by metis
  moreover have "q = take ?m q @ q ! ?m # drop (Suc ?m) q" using append_take_drop_id [of ?m q] d(2) by metis
  ultimately show thesis using that [of "take ?m q" "k ! ?m" "drop (Suc ?m) k" "q ! ?m" "drop (Suc ?m) q"] prefixLen_le(1) [of q k]
    by simp
qed

lemma trie_insert_Nil:
  "trie_insert db gen NilN p k v = Some (Ok (True, if k = [] then v else ShortN k v (newFlag gen)))"
  by (subst trie_insert.simps) simp

lemma loads_leaf_or: "loads H Get tp v t \<Longrightarrow> loads H Get False v t \<Longrightarrow> loads H Get tp (if k = [] then v else ShortN k v (newFlag gen)) (leaf_or k t)"
  by (auto simp: leaf_or_def intro!: loads.intros)

lemma loads_fork:
  assumes "loads H Get False n t" "loads H Get False m u" "unat a < 17" "unat b < 17"
  shows "loads H Get tp (FullN (fork a n b m) (newFlag gen)) (FullN (fork a t b u) blank)"
  using assms by (intro loads.intros) (auto simp: fork_def nth_list_update intro: loads.intros)

text \<open>What insertion of \<open>x\<close> at \<open>q\<close> does to a node that stands for \<open>t\<close>.\<close>

definition inserted :: "(bool \<Rightarrow> bytes option \<Rightarrow> bool \<Rightarrow> node \<Rightarrow> bool) \<Rightarrow> reader \<Rightarrow> bool \<Rightarrow> node \<Rightarrow> bytes \<Rightarrow> bytes \<Rightarrow> (trie_error, bool \<times> node) run \<Rightarrow> bool" where
  "inserted H Get tp t q x r \<longleftrightarrow>
    (\<exists>d n' t'. r = Some (Ok (d, n')) \<and> loads H Get tp n' t' \<and> at_key q t' \<and> t' \<noteq> NilN \<and>
       content t' = (content t)(q \<mapsto> x) \<and> (is_full t \<longrightarrow> is_full t') \<and> (\<not> d \<longrightarrow> t' = t))"

lemma insertedI:
  assumes "r = Some (Ok (d, n'))" "loads H Get tp n' t'" "at_key q t'" "t' \<noteq> NilN" "content t' = (content t)(q \<mapsto> x)"
    "is_full t \<Longrightarrow> is_full t'" "\<not> d \<Longrightarrow> t' = t"
  shows "inserted H Get tp t q x r"
  using assms unfolding inserted_def by blast

lemma inserted_same: "inserted H Get tp t q x (Some (Ok (d, n))) \<Longrightarrow> \<not> d \<Longrightarrow> content t q = Some x"
  by (auto simp: inserted_def dest!: fun_cong [of "content t" _ q])


lemma wft_other_child:
  assumes "wft (FullN ts f)"
  shows "\<exists>j \<in> set (live ts). j \<noteq> i"
proof -
  have "\<not> set (live ts) \<subseteq> {i}"
    using assms card_mono [of "{i}" "set (live ts)"] distinct_card [of "live ts"]
    by (auto simp: wft_FullN live_def)
  then show ?thesis by blast
qed

lemma at_key_Full_upd:
  assumes "at_key q (FullN ts f)" "q = y # r" "at_key r t'" "t' \<noteq> NilN"
  shows "at_key q (FullN (ts[unat y := t']) f)"
proof -
  have w: "tkey q" "wft (FullN ts f)" using assms(1) by (auto simp: at_key_def is_value_def)
  have l: "unat y < 17" using w(1) tkey_hd by (simp add: assms(2))
  obtain j where j: "j \<in> set (live ts)" "j \<noteq> unat y" using wft_other_child [OF w(2)] by blast
  have "2 \<le> length (live (ts[unat y := t']))"
    using j l assms(4) w(2) by (intro live_two [of j _ "unat y"]) (auto simp: live_def wft_FullN)
  moreover have "unat y < 16 \<longleftrightarrow> y < 16" "unat y = 16 \<longleftrightarrow> y = 16" by (simp_all add: word_unat_eq_iff word_less_nat_alt)
  ultimately show ?thesis
    using w assms(3,4) unfolding at_key_def wft_FullN assms(2) by (auto simp: nth_list_update) blast+
qed

lemma trie_insert_Short:
  assumes "loads H Get False v t" "flag_ok (H tp) f (ShortN k t blank)" "at_key q (ShortN k t blank)" "x \<noteq> []"
    and IH: "\<And>p r. at_key r t \<Longrightarrow> inserted H Get False t r x (trie_insert (Some Get) gen v p r (ValueN x))"
  shows "inserted H Get tp (ShortN k t blank) q x (trie_insert (Some Get) gen (ShortN k v f) p q (ValueN x))"
proof (cases "prefixLen q k = length k")
  case True
  note a = at_Short [OF assms(3)]
  obtain r where r: "q = k @ r" using True take_prefixLen [of q k] by (metis append_take_drop_id take_all order_refl)
  from IH [OF a(5) [OF r], of "p @ k"] obtain d n' t' where
    i: "trie_insert (Some Get) gen v (p @ k) r (ValueN x) = Some (Ok (d, n'))" "loads H Get False n' t'" "at_key r t'" "t' \<noteq> NilN"
      "content t' = (content t)(r \<mapsto> x)" "is_full t \<longrightarrow> is_full t'" "\<not> d \<longrightarrow> t' = t" by (auto simp: inserted_def)
  have wf: "at_key q (ShortN k t' blank)"
    using a(1,2,7) i(3,4,6) r tkey_prefix [of k r]
    by (auto simp: at_key_def is_full_iff is_value_def tkey_append)
  have c: "content (ShortN k t' blank) = (content (ShortN k t blank))(q \<mapsto> x)"
    unfolding r using i(5) by (rule content_Short_upd)
  have e: "trie_insert (Some Get) gen (ShortN k v f) p q (ValueN x) =
      Some (Ok (d, if d then ShortN k n' (newFlag gen) else ShortN k v f))"
    using i(1) r a(2) True by (subst trie_insert.simps) simp
  have "loads H Get tp (if d then ShortN k n' (newFlag gen) else ShortN k v f) (ShortN k t' blank)"
    using i(2,7) assms(1,2) by (auto intro!: loads.intros)
  then show ?thesis using wf _ c by (rule insertedI [OF e]) (use i(7) in \<open>auto simp: is_full_def\<close>)
next
  case False
  obtain c a ks b qs where s: "k = c @ a # ks" "q = c @ b # qs" "a \<noteq> b" "prefixLen q k = length c"
    by (rule keys_part [OF assms(3) False])
  note at = at_Short [OF assms(3)]
  have q: "nibbles c" "tkey (b # qs)" using at(1) tkey_appendD [of c "b # qs"] s(2) by auto
  let ?ta = "leaf_or ks t" and ?tb = "leaf_or qs (ValueN x)"
  have ok: "sub_ok a ?ta" "sub_ok b ?tb"
    using at(7) q(2) assms(4) tkey_appendD [of c "a # ks"]
    by (auto simp: s(1) is_value_def intro: sub_ok_leaf sub_ok_ext)
  have lt: "unat a < 17" "unat b < 17" using sub_ok_not_Nil ok by blast+
  let ?na = "if ks = [] then v else ShortN ks v (newFlag gen)"
    and ?nb = "if qs = [] then ValueN x else ShortN qs (ValueN x) (newFlag gen)"
  let ?t = "leaf_or c (FullN (fork a ?ta b ?tb) blank)"
    and ?n = "if c = [] then FullN (fork a ?na b ?nb) (newFlag gen) else ShortN c (FullN (fork a ?na b ?nb) (newFlag gen)) (newFlag gen)"
  have e: "trie_insert (Some Get) gen (ShortN k v f) p q (ValueN x) = Some (Ok (True, ?n))"
    using s lt by (subst trie_insert.simps) (simp add: trie_insert_Nil index_def set_child_def fork_def Let_def)
  have "loads H Get tp ?n ?t" using assms(1) lt by (intro loads_leaf_or loads_fork) (auto intro: loads.intros)
  moreover have "at_key q ?t"
    using wft_fork [OF ok s(3)] q(1) at(1) by (auto simp: at_key_def leaf_or_def is_full_def)
  moreover have "content ?t = (content (ShortN k t blank))(q \<mapsto> x)"
    unfolding content_leaf_or [of _ _ blank] s(1,2) by (rule content_branch [OF lt s(3)])
  ultimately show ?thesis by (intro insertedI [OF e, where t' = ?t]) (auto simp: is_full_def leaf_or_def)
qed

lemma trie_insert_content:
  assumes "loads H Get tp n t" "at_key q t" "x \<noteq> []"
  shows "inserted H Get tp t q x (trie_insert (Some Get) gen n p q (ValueN x))"
  using assms
proof (induction arbitrary: q p rule: loads.induct)
  case (loads_Nil tp)
  then have "loads H Get tp (if q = [] then ValueN x else ShortN q (ValueN x) (newFlag gen)) (leaf_or q (ValueN x))"
    by (intro loads_leaf_or) (simp_all add: loads.intros)
  moreover have "content (leaf_or q (ValueN x)) = [q \<mapsto> x]"
    unfolding content_leaf_or [of _ _ blank] by (auto simp: fun_eq_iff take_length_eq)
  moreover have "at_key q (leaf_or q (ValueN x))" using loads_Nil by (auto simp: leaf_or_def at_key_def is_value_def)
  ultimately show ?case
    by (intro insertedI [OF trie_insert_Nil, where t' = "leaf_or q (ValueN x)"]) (auto simp: is_full_def leaf_or_def)
next
  case (loads_Value tp v)
  then show ?case by (subst trie_insert.simps) (auto simp: inserted_def is_full_def fun_eq_iff)
next
  case (loads_Short v t tp f k)
  show ?case using loads_Short.hyps loads_Short.prems by (rule trie_insert_Short) (use loads_Short.IH loads_Short.prems(2) in blast)
next
  case (loads_Full cs ts tp f)
  from loads_Full.prems(1) obtain y r where y: "q = y # r" "unat y < 17" "at_key r (ts ! unat y)" "length ts = 17" "tkey q"
    "wft (FullN ts blank)" by (rule at_Full)
  from loads_Full.IH [of "unat y" r "p @ [y]"] y loads_Full.prems(2) obtain d n' t' where
    i: "trie_insert (Some Get) gen (cs ! unat y) (p @ [y]) r (ValueN x) = Some (Ok (d, n'))" "loads H Get False n' t'" "at_key r t'"
      "t' \<noteq> NilN" "content t' = (content (ts ! unat y))(r \<mapsto> x)" "\<not> d \<longrightarrow> t' = ts ! unat y" by (auto simp: inserted_def)
  let ?t = "FullN (ts[unat y := t']) blank"
  have e: "trie_insert (Some Get) gen (FullN cs f) p q (ValueN x) =
      Some (Ok (d, if d then FullN (cs[unat y := n']) (newFlag gen) else FullN cs f))"
    using i(1) y loads_Full.hyps(1) by (subst trie_insert.simps) (simp add: child_def set_child_def index_def)
  have "at_key q ?t" using at_key_Full_upd [OF loads_Full.prems(1) y(1) i(3,4)] .
  moreover have "loads H Get tp (if d then FullN (cs[unat y := n']) (newFlag gen) else FullN cs f) ?t"
    using loads_Full.hyps i(2,6) y(2,4) by (auto simp: nth_list_update intro!: loads.intros)
  moreover have "content ?t = (content (FullN ts blank))(q \<mapsto> x)"
    unfolding y(1) using y(2,4) i(5) by (intro content_Full_upd) auto
  ultimately show ?case using i(6) by (intro insertedI [OF e, where t' = ?t]) (auto simp: is_full_def)
next
  case (loads_Hash h b tp t)
  then obtain n where n: "decodeNode (Some h) b gen = Ok n" "loads H Get tp n t"
      "inserted H Get tp t q x (trie_insert (Some Get) gen n p q (ValueN x))" by blast
  then obtain d n' where r: "trie_insert (Some Get) gen n p q (ValueN x) = Some (Ok (d, n'))" by (auto simp: inserted_def)
  have "q \<noteq> []" using loads_Hash.prems loads_Hash.hyps(3) by (cases t) (auto simp: at_key_def is_branch_def is_value_def)
  then have e: "trie_insert (Some Get) gen (HashN h) p q (ValueN x) = Some (Ok (d, if d then n' else n))"
    using resolveHash_loads [of Get h b gen n] loads_Hash.hyps(1) n(1) r by (subst trie_insert.simps) simp
  then show ?case using n(2,3) r by (cases d) (auto simp: inserted_def)
qed

end
