(* ===== verification/TrieDelete.thy ===== *)
theory TrieDelete
  imports TrieMap
begin

text \<open>
  Deletion from the trie: it removes the key from the map and restores the canonical form, merging short
  nodes and replacing a full node with one child left. The child that is left may have to be loaded.
\<close>

section \<open>The only child\<close>

lemma live_Cons: "live (c # cs) = (if c \<noteq> NilN then [0] else []) @ map Suc (live cs)"
  by (simp add: live_def upt_conv_Cons map_Suc_upt [symmetric] filter_map comp_def del: upt_Suc)

lemma only_child_live:
  "only_child pos i cs = (case live cs of [] \<Rightarrow> pos | [j] \<Rightarrow> if pos = -1 then int (i + j) else -2 | _ \<Rightarrow> -2)"
proof (induction cs arbitrary: pos i)
  case Nil
  then show ?case by (simp add: live_def)
next
  case (Cons c cs)
  show ?case by (auto simp: live_Cons Cons.IH split: list.splits)
qed

lemma live_set: "j \<in> set (live cs) \<longleftrightarrow> j < length cs \<and> cs ! j \<noteq> NilN"
  by (auto simp: live_def)

lemma live_loads:
  assumes "length cs = length ts" "\<And>i. i < length ts \<Longrightarrow> loads H Get tp (cs ! i) (ts ! i)"
  shows "live cs = live ts"
  unfolding live_def assms(1) using loads_Nil_iff [OF assms(2)] by (intro filter_cong refl) auto

lemma live_single: "live cs = [j] \<Longrightarrow> j < length cs \<and> cs ! j \<noteq> NilN \<and> (\<forall>i < length cs. i \<noteq> j \<longrightarrow> cs ! i = NilN)"
  using live_set [of _ cs] by auto

text \<open>A full node with one child left.\<close>

lemma content_single:
  assumes "live ts = [j]" "length ts = 17"
  shows "content (ShortN [word_of_nat j] (ts ! j) f) = content (FullN ts g)"
proof
  have j: "j < 17" "\<forall>i < 17. i \<noteq> j \<longrightarrow> ts ! i = NilN" using live_single [OF assms(1)] assms(2) by auto
  have u: "unat (word_of_nat j :: byte) = j" using j(1) by (simp add: unat_of_nat)
  have x: "x = word_of_nat j \<longleftrightarrow> unat x = j" for x :: byte by (simp add: word_unat_eq_iff u)
  fix q show "content (ShortN [word_of_nat j] (ts ! j) f) q = content (FullN ts g) q"
    using j assms(2) by (cases q) (auto simp: x)
qed

lemma wft_single:
  assumes "wft (ShortN ck cv f) \<or> wft (FullN cs f)" "j < 16"
  shows "wft (ShortN ck cv f) \<Longrightarrow> wft (ShortN (word_of_nat j # ck) cv f)"
    "wft (FullN cs f) \<Longrightarrow> wft (ShortN [word_of_nat j] (FullN cs f) f)"
  using assms(2) by (auto simp: word_less_nat_alt unat_of_nat is_full_def wft_FullN)

section \<open>Deletion\<close>

definition deleted :: "(bool \<Rightarrow> bytes option \<Rightarrow> bool \<Rightarrow> node \<Rightarrow> bool) \<Rightarrow> reader \<Rightarrow> bool \<Rightarrow> node \<Rightarrow> bytes \<Rightarrow> (trie_error, bool \<times> node) run \<Rightarrow> bool" where
  "deleted H Get tp t q r \<longleftrightarrow>
    (\<exists>d n' t'. r = Some (Ok (d, n')) \<and> loads H Get tp n' t' \<and> at_key q t' \<and> content t' = (content t)(q := None) \<and>
       (d \<longrightarrow> (\<forall>h. n' \<noteq> HashN h)) \<and> (is_full t \<longrightarrow> t' \<noteq> NilN) \<and> (\<not> d \<longrightarrow> t' = t))"

lemma deletedI:
  assumes "r = Some (Ok (d, n'))" "loads H Get tp n' t'" "at_key q t'" "content t' = (content t)(q := None)"
    "d \<Longrightarrow> (\<And>h. n' \<noteq> HashN h)" "is_full t \<Longrightarrow> t' \<noteq> NilN" "\<not> d \<Longrightarrow> t' = t"
  shows "deleted H Get tp t q r"
  using assms unfolding deleted_def by blast

lemma not_deleted:
  assumes "loads H Get tp n t" "at_key q t" "content t q = None"
  shows "deleted H Get tp t q (Some (Ok (False, n)))"
  using assms by (intro deletedI [where t' = t]) (auto simp: is_full_def)

lemma trie_delete_Short:
  assumes "loads H Get False v t" "flag_ok (H tp) f (ShortN k t blank)" "at_key q (ShortN k t blank)"
    and IH: "\<And>p r. at_key r t \<Longrightarrow> deleted H Get False t r (trie_delete (Some Get) gen v p r)"
  shows "deleted H Get tp (ShortN k t blank) q (trie_delete (Some Get) gen (ShortN k v f) p q)"
proof -
  note a = at_Short [OF assms(3)]
  have l: "loads H Get tp (ShortN k v f) (ShortN k t blank)" using assms(1,2) by (rule loads.intros)
  show ?thesis
  proof (cases "prefixLen q k = length k")
    case True
    note pl = True
    obtain r where r: "q = k @ r" using True take_prefixLen [of q k] by (metis append_take_drop_id take_all order_refl)
    show ?thesis
    proof (cases "r = []")
      case True
      then have v: "is_value t" using a(3,5) r by (auto simp: at_key_def)
      have "content NilN = (content (ShortN k t blank))(q := None)"
        using v True r by (auto simp: fun_eq_iff is_value_iff take_length_eq split: if_splits)
      moreover have "trie_delete (Some Get) gen (ShortN k v f) p q = Some (Ok (True, NilN))"
        using pl True r by (subst trie_delete.simps) simp
      ultimately show ?thesis using a(1) by (intro deletedI [where d = True and n' = NilN and t' = NilN])
          (auto intro: loads.intros simp: is_full_def)
    next
      case False
      have full: "is_full t" "nibbles k" using a(6) [OF r False] a(7) False r tkey_prefix a(1) by blast+
      from IH [OF a(5) [OF r], of "p @ k"] obtain d n' t' where
        i: "trie_delete (Some Get) gen v (p @ k) r = Some (Ok (d, n'))" "loads H Get False n' t'" "at_key r t'"
          "content t' = (content t)(r := None)" "d \<longrightarrow> (\<forall>h. n' \<noteq> HashN h)" "t' \<noteq> NilN" "\<not> d \<longrightarrow> t' = t"
        using full(1) by (auto simp: deleted_def)
      have w: "wft t'" "tkey r" using i(3,6) False by (auto simp: at_key_def is_value_def)
      have c: "content (ShortN k t' blank) = (content (ShortN k t blank))(q := None)"
        unfolding r using i(4) by (rule content_Short_upd)
      show ?thesis
      proof (cases d)
        case True
        have nh: "n' \<noteq> HashN h" for h using i(5) True by blast
        show ?thesis
        proof (cases "is_full t'")
          case True
          obtain cs g where n': "n' = FullN cs g" using i(2) nh True by (cases rule: loads.cases) (auto simp: is_full_def)
          then have "trie_delete (Some Get) gen (ShortN k v f) p q = Some (Ok (True, ShortN k n' (newFlag gen)))"
            using i(1) r \<open>d\<close> False by (subst trie_delete.simps) simp
          then show ?thesis using i(2) c True w a(1,2) full(2)
            by (intro deletedI [where d = True and n' = "ShortN k n' (newFlag gen)" and t' = "ShortN k t' blank"])
              (auto intro!: loads.intros simp: at_key_def is_full_def)
        next
          case False
          obtain ck cv g tcv where n': "n' = ShortN ck cv g" "t' = ShortN ck tcv blank" "loads H Get False cv tcv"
            using i(2) nh w(1) False by (cases rule: loads.cases) (auto simp: is_full_def)
          then have "trie_delete (Some Get) gen (ShortN k v f) p q = Some (Ok (True, ShortN (k @ ck) cv (newFlag gen)))"
            using i(1) r \<open>d\<close> \<open>r \<noteq> []\<close> by (subst trie_delete.simps) (simp add: concat_keys_def)
          moreover have "wft (ShortN (k @ ck) tcv blank)" using w(1) full(2) by (auto simp: n'(2) tkey_append)
          moreover have "content (ShortN (k @ ck) tcv blank) = (content (ShortN k t blank))(q := None)"
            using c content_Short_append [of k ck tcv blank blank blank] by (simp add: n'(2))
          ultimately show ?thesis using n'(3) a(1)
            by (intro deletedI [where d = True and n' = "ShortN (k @ ck) cv (newFlag gen)" and t' = "ShortN (k @ ck) tcv blank"])
              (auto intro!: loads.intros simp: at_key_def is_full_def)
        qed
      next
        case False
        then have "content t r = None" using i(4,7) by (auto dest!: fun_cong [of "content t" _ r])
        moreover have "trie_delete (Some Get) gen (ShortN k v f) p q = Some (Ok (False, ShortN k v f))"
          using i(1) r False \<open>r \<noteq> []\<close> by (subst trie_delete.simps) simp
        ultimately show ?thesis using not_deleted [OF l assms(3)] r by simp
      qed
    qed
  next
    case False
    then have "prefixLen q k < length k" using prefixLen_le(2) [of q k] by simp
    then have "trie_delete (Some Get) gen (ShortN k v f) p q = Some (Ok (False, ShortN k v f))"
      by (subst trie_delete.simps) simp
    moreover have "content (ShortN k t blank) q = None" using False by (intro content_Short_no) auto
    ultimately show ?thesis using not_deleted [OF l assms(3)] by simp
  qed
qed

lemma resolve_loads:
  assumes "loads H Get tp n t" "is_branch t"
  shows "\<exists>m. resolve (Some Get) gen n p = Ok m \<and> loads H Get tp m t \<and> is_branch m"
  using assms
proof (cases rule: loads.cases)
  case (loads_Hash h b)
  then obtain m where m: "decodeNode (Some h) b gen = Ok m" "loads H Get tp m t" by blast
  then show ?thesis using loads_Hash resolveHash_loads [of Get h b gen m] decodeNode_branch [OF m(1)]
    by (auto simp: resolve_def)
qed (auto simp: resolve_def is_branch_def intro: loads.intros)

lemma wft_branch: "wft t \<Longrightarrow> is_branch t"
  by (cases t) (auto simp: is_branch_def)

text \<open>The conditions of \<open>wft\<close> on children, without their number.\<close>

definition children_ok :: "node list \<Rightarrow> bool" where
  "children_ok ts \<longleftrightarrow> length ts = 17 \<and> (\<forall>i < 16. ts ! i = NilN \<or> wft (ts ! i)) \<and> (ts ! 16 = NilN \<or> is_value (ts ! 16))"

lemma children_ok_upd:
  assumes "children_ok ts" "tkey (y # r)" "at_key r t'"
  shows "children_ok (ts[unat y := t'])"
proof -
  have y: "unat y < 16 \<longleftrightarrow> y < 16" "unat y = 16 \<longleftrightarrow> y = 16" by (simp_all add: word_unat_eq_iff word_less_nat_alt)
  show ?thesis using assms y tkey_hd [OF assms(2)] unfolding children_ok_def at_key_def
    by (auto simp: nth_list_update)
qed

text \<open>What deletion returns for a full node with the children \<open>cs\<close>, one of which was changed.\<close>

definition reduce_full :: "reader option \<Rightarrow> u16 \<Rightarrow> bytes \<Rightarrow> node list \<Rightarrow> (trie_error, bool \<times> node) run" where
  "reduce_full db gen prefx cs =
    (let pos = only_child (-1) 0 cs
     in if pos \<ge> 0 then
          if pos \<noteq> 16 then
            rbind (Some (resolve db gen (cs ! nat pos) prefx)) (\<lambda>cnode.
              case cnode of
                ShortN ck cv _ \<Rightarrow> Some (Ok (True, ShortN (word_of_int pos # ck) cv (newFlag gen)))
              | _ \<Rightarrow> Some (Ok (True, ShortN [word_of_int pos] (cs ! nat pos) (newFlag gen))))
          else Some (Ok (True, ShortN [word_of_int pos] (cs ! nat pos) (newFlag gen)))
        else Some (Ok (True, FullN cs (newFlag gen))))"

lemma reduce_single:
  assumes "live cs = [j]" "j < 16" "loads H Get False (cs ! j) t" "wft t"
  shows "\<exists>n' t'. reduce_full (Some Get) gen p cs = Some (Ok (True, n')) \<and> loads H Get tp n' t' \<and> wft t' \<and>
    content t' = content (ShortN [word_of_nat j] t blank) \<and> (\<forall>h. n' \<noteq> HashN h)"
proof -
  have pos: "only_child (-1) 0 cs = int j" using assms(1) by (simp add: only_child_live)
  obtain m where m: "resolve (Some Get) gen (cs ! j) p = Ok m" "loads H Get False m t" "is_branch m"
    using resolve_loads [OF assms(3) wft_branch [OF assms(4)]] by blast
  show ?thesis
  proof (cases "is_full t")
    case True
    have "\<exists>ms f. m = FullN ms f" using m(2,3) True by (cases rule: loads.cases) (auto simp: is_full_def is_branch_def)
    then have "reduce_full (Some Get) gen p cs = Some (Ok (True, ShortN [word_of_nat j] (cs ! j) (newFlag gen)))"
      using pos m(1) assms(2) by (auto simp: reduce_full_def)
    moreover have "wft (ShortN [word_of_nat j] t blank)"
      using True assms(2,4) by (auto simp: word_less_nat_alt unat_of_nat)
    ultimately show ?thesis using assms(3)
      by (intro exI [of _ "ShortN [word_of_nat j] (cs ! j) (newFlag gen)"] exI [of _ "ShortN [word_of_nat j] t blank"])
        (auto intro!: loads.intros)
  next
    case False
    obtain ck cv f tcv where s: "m = ShortN ck cv f" "t = ShortN ck tcv blank" "loads H Get False cv tcv"
      using m(2,3) assms(4) False by (cases rule: loads.cases) (auto simp: is_full_def is_branch_def)
    then have "reduce_full (Some Get) gen p cs = Some (Ok (True, ShortN (word_of_nat j # ck) cv (newFlag gen)))"
      using pos m(1) assms(2) by (auto simp: reduce_full_def)
    moreover have "wft (ShortN (word_of_nat j # ck) tcv blank)"
      using assms(2,4) by (auto simp: s(2) word_less_nat_alt unat_of_nat)
    moreover have "content (ShortN (word_of_nat j # ck) tcv blank) = content (ShortN [word_of_nat j] t blank)"
      using content_Short_append [of "[word_of_nat j]" ck tcv blank blank blank] by (simp add: s(2))
    ultimately show ?thesis using s(3)
      by (intro exI [of _ "ShortN (word_of_nat j # ck) cv (newFlag gen)"] exI [of _ "ShortN (word_of_nat j # ck) tcv blank"])
        (auto intro!: loads.intros)
  qed
qed

lemma reduce_full_content:
  assumes "length cs = length ts" "\<And>i. i < length ts \<Longrightarrow> loads H Get False (cs ! i) (ts ! i)" "children_ok ts" "live ts \<noteq> []"
  shows "\<exists>n' t'. reduce_full (Some Get) gen p cs = Some (Ok (True, n')) \<and> loads H Get tp n' t' \<and> wft t' \<and>
    content t' = content (FullN ts blank) \<and> (\<forall>h. n' \<noteq> HashN h)"
proof -
  have live: "live cs = live ts" using assms(1,2) by (rule live_loads)
  have l: "length ts = 17" using assms(3) by (simp add: children_ok_def)
  show ?thesis
  proof (cases "\<exists>j. live ts = [j]")
    case True
    then obtain j where j: "live ts = [j]" by blast
    note s = live_single [OF j]
    have lj: "loads H Get False (cs ! j) (ts ! j)" using assms(2) s by blast
    show ?thesis
    proof (cases "j = 16")
      case True
      have "reduce_full (Some Get) gen p cs = Some (Ok (True, ShortN [16] (cs ! 16) (newFlag gen)))"
        using True j live by (simp add: reduce_full_def only_child_live)
      moreover have "is_value (ts ! 16)" using s assms(3) True by (simp add: children_ok_def)
      moreover have "content (ShortN [16] (ts ! 16) blank) = content (FullN ts blank)"
        using content_single [OF j l, of blank blank] True by simp
      ultimately show ?thesis using lj True
        by (intro exI [of _ "ShortN [16] (cs ! 16) (newFlag gen)"] exI [of _ "ShortN [16] (ts ! 16) blank"])
          (auto intro!: loads.intros)
    next
      case False
      then have "j < 16" using s l by auto
      moreover have "wft (ts ! j)" using s assms(3) \<open>j < 16\<close> by (auto simp: children_ok_def)
      ultimately show ?thesis using reduce_single [OF _ _ lj, of gen p] j live content_single [OF j l, of blank blank] by auto
    qed
  next
    case False
    then have "2 \<le> length (live ts)" using assms(4) by (cases "live ts"; cases "tl (live ts)") auto
    moreover have "reduce_full (Some Get) gen p cs = Some (Ok (True, FullN cs (newFlag gen)))"
      using False live assms(4) by (auto simp: reduce_full_def only_child_live split: list.split)
    ultimately show ?thesis using assms(1-3)
      by (intro exI [of _ "FullN cs (newFlag gen)"] exI [of _ "FullN ts blank"])
        (auto intro!: loads.intros simp: wft_FullN children_ok_def)
  qed
qed

lemma trie_delete_content:
  assumes "loads H Get tp n t" "at_key q t"
  shows "deleted H Get tp t q (trie_delete (Some Get) gen n p q)"
  using assms
proof (induction arbitrary: q p rule: loads.induct)
  case (loads_Nil tp)
  then show ?case by (subst trie_delete.simps) (auto intro!: not_deleted loads.intros)
next
  case (loads_Value tp v)
  then show ?case by (subst trie_delete.simps) (auto intro!: deletedI [where t' = NilN] loads.intros simp: is_full_def)
next
  case (loads_Short v t tp f k)
  show ?case using loads_Short.hyps loads_Short.prems by (rule trie_delete_Short) (use loads_Short.IH in blast)
next
  case (loads_Full cs ts tp f)
  from loads_Full.prems obtain y r where y: "q = y # r" "unat y < 17" "at_key r (ts ! unat y)" "length ts = 17" "tkey q"
    "wft (FullN ts blank)" by (rule at_Full)
  from loads_Full.IH [of "unat y" r "p @ [y]"] y obtain d n' t' where
    i: "trie_delete (Some Get) gen (cs ! unat y) (p @ [y]) r = Some (Ok (d, n'))" "loads H Get False n' t'" "at_key r t'"
      "content t' = (content (ts ! unat y))(r := None)" "\<not> d \<longrightarrow> t' = ts ! unat y" by (auto simp: deleted_def)
  have e: "trie_delete (Some Get) gen (FullN cs f) p q =
      (if d then reduce_full (Some Get) gen p (cs[unat y := n']) else Some (Ok (False, FullN cs f)))"
    using i(1) y loads_Full.hyps(1)
    by (subst trie_delete.simps) (simp add: child_def set_child_def index_def reduce_full_def)
  show ?case
  proof (cases d)
    case True
    obtain j where j: "j \<in> set (live ts)" "j \<noteq> unat y"
      using wft_other_child [OF y(6)] by blast
    then have "j \<in> set (live (ts[unat y := t']))" using y(2,4) by (simp add: live_set)
    then have "live (ts[unat y := t']) \<noteq> []" by auto
    moreover have "children_ok (ts[unat y := t'])"
      using y(1,5,6) i(3) by (intro children_ok_upd) (auto simp: children_ok_def wft_FullN)
    moreover have "loads H Get False (cs[unat y := n'] ! i) (ts[unat y := t'] ! i)" if "i < length (ts[unat y := t'])" for i
      using loads_Full.hyps(1,2) i(2) y(2,4) that by (auto simp: nth_list_update)
    ultimately obtain m u where "reduce_full (Some Get) gen p (cs[unat y := n']) = Some (Ok (True, m))" "loads H Get tp m u"
        "wft u" "content u = content (FullN (ts[unat y := t']) blank)" "\<forall>h. m \<noteq> HashN h"
      using reduce_full_content [of "cs[unat y := n']" "ts[unat y := t']" H Get gen p tp] loads_Full.hyps(1) by auto
    moreover have "content (FullN (ts[unat y := t']) blank) = (content (FullN ts blank))(q := None)"
      unfolding y(1) using y(2,4) i(4) by (intro content_Full_upd) auto
    ultimately show ?thesis using True y(5)
      by (intro deletedI [where d = True and n' = m and t' = u]) (auto simp: e at_key_def)
  next
    case False
    then have "content (FullN ts blank) q = None"
      using i(4,5) y(1,2,4) by (auto dest!: fun_cong [of "content (ts ! unat y)" _ r])
    then show ?thesis using not_deleted [of H Get tp "FullN cs f" "FullN ts blank"] loads_Full False
      by (auto simp: e intro: loads.intros)
  qed
next
  case (loads_Hash h b tp t)
  then obtain n where n: "decodeNode (Some h) b gen = Ok n" "loads H Get tp n t"
      "deleted H Get tp t q (trie_delete (Some Get) gen n p q)" by blast
  then obtain d n' where r: "trie_delete (Some Get) gen n p q = Some (Ok (d, n'))" by (auto simp: deleted_def)
  then have e: "trie_delete (Some Get) gen (HashN h) p q = Some (Ok (d, if d then n' else n))"
    using resolveHash_loads [of Get h b gen n] loads_Hash.hyps(1) n(1) by (subst trie_delete.simps) simp
  then show ?case using n(2,3) r by (cases d) (auto simp: deleted_def)
qed

end
