(* ===== verification/TrieSpec.thy ===== *)
theory TrieSpec
  imports TrieDelete
begin

text \<open>
  The contract of a key/value map with operations that may load and cache (\<open>kv_map\<close>), sequences of
  operations over it, and the trie as an instance. The canonical tree is determined by its map.
\<close>

section \<open>Maps with state\<close>

datatype ('k, 'v) map_op = Look 'k | Put 'k 'v | Del 'k

text \<open>A sequence of operations and the values looked up, on a state and on a map.\<close>

fun exec_ops :: "('k \<Rightarrow> 's \<Rightarrow> ('e, 'v option \<times> 's) run) \<Rightarrow> ('k \<Rightarrow> 'v \<Rightarrow> 's \<Rightarrow> ('e, 's) run) \<Rightarrow>
    ('k \<Rightarrow> 's \<Rightarrow> ('e, 's) run) \<Rightarrow> ('k, 'v) map_op list \<Rightarrow> 's \<Rightarrow> ('e, 'v option list \<times> 's) run" where
  "exec_ops get put del [] s = Some (Ok ([], s))"
| "exec_ops get put del (Look k # ops) s =
     rbind (get k s) (\<lambda>(v, s). rbind (exec_ops get put del ops s) (\<lambda>(vs, s). Some (Ok (v # vs, s))))"
| "exec_ops get put del (Put k v # ops) s = rbind (put k v s) (exec_ops get put del ops)"
| "exec_ops get put del (Del k # ops) s = rbind (del k s) (exec_ops get put del ops)"

fun spec_ops :: "('v \<Rightarrow> 'v option) \<Rightarrow> ('k, 'v) map_op list \<Rightarrow> ('k \<rightharpoonup> 'v) \<Rightarrow> 'v option list \<times> ('k \<rightharpoonup> 'v)" where
  "spec_ops stored [] m = ([], m)"
| "spec_ops stored (Look k # ops) m = (case spec_ops stored ops m of (vs, m') \<Rightarrow> (m k # vs, m'))"
| "spec_ops stored (Put k v # ops) m = spec_ops stored ops (m(k := stored v))"
| "spec_ops stored (Del k # ops) m = spec_ops stored ops (m(k := None))"

primrec op_key :: "('k, 'v) map_op \<Rightarrow> 'k" where
  "op_key (Look k) = k"
| "op_key (Put k v) = k"
| "op_key (Del k) = k"

text \<open>\<open>keys\<close> are the keys in use; \<open>stored v\<close> is what a lookup returns after \<open>v\<close> was put.\<close>

locale kv_map =
  fixes keys :: "'k set"
    and repr :: "'s \<Rightarrow> ('k \<rightharpoonup> 'v) \<Rightarrow> bool"
    and get :: "'k \<Rightarrow> 's \<Rightarrow> ('e, 'v option \<times> 's) run"
    and put :: "'k \<Rightarrow> 'v \<Rightarrow> 's \<Rightarrow> ('e, 's) run"
    and del :: "'k \<Rightarrow> 's \<Rightarrow> ('e, 's) run"
    and stored :: "'v \<Rightarrow> 'v option"
  assumes get_repr: "k \<in> keys \<Longrightarrow> repr s m \<Longrightarrow> \<exists>s'. get k s = Some (Ok (m k, s')) \<and> repr s' m"
    and put_repr: "k \<in> keys \<Longrightarrow> repr s m \<Longrightarrow> \<exists>s'. put k v s = Some (Ok s') \<and> repr s' (m(k := stored v))"
    and del_repr: "k \<in> keys \<Longrightarrow> repr s m \<Longrightarrow> \<exists>s'. del k s = Some (Ok s') \<and> repr s' (m(k := None))"
begin

lemma exec_repr:
  "op_key ` set ops \<subseteq> keys \<Longrightarrow> repr s m \<Longrightarrow> \<exists>s'. exec_ops get put del ops s = Some (Ok (fst (spec_ops stored ops m), s')) \<and>
    repr s' (snd (spec_ops stored ops m))"
proof (induction ops arbitrary: s m)
  case (Cons c ops)
  have ops: "op_key ` set ops \<subseteq> keys" using Cons.prems(1) by simp
  show ?case
  proof (cases c)
    case (Look k)
    obtain s1 where s1: "get k s = Some (Ok (m k, s1))" "repr s1 m" using get_repr [OF _ Cons.prems(2), of k] Cons.prems(1) Look by auto
    show ?thesis using s1(1) Cons.IH [OF ops s1(2)] by (auto simp: Look split: prod.splits)
  next
    case (Put k v)
    obtain s1 where s1: "put k v s = Some (Ok s1)" "repr s1 (m(k := stored v))" using put_repr [OF _ Cons.prems(2), of k v] Cons.prems(1) Put by auto
    show ?thesis unfolding Put exec_ops.simps spec_ops.simps s1(1) rbind_simps by (rule Cons.IH [OF ops s1(2)])
  next
    case (Del k)
    obtain s1 where s1: "del k s = Some (Ok s1)" "repr s1 (m(k := None))" using del_repr [OF _ Cons.prems(2), of k] Cons.prems(1) Del by auto
    show ?thesis unfolding Del exec_ops.simps spec_ops.simps s1(1) rbind_simps by (rule Cons.IH [OF ops s1(2)])
  qed
qed simp

end

section \<open>The trie as a map\<close>

text \<open>The trie stands for the map \<open>m\<close> from keys to nonempty values.\<close>

definition tree_map :: "node \<Rightarrow> (bytes \<rightharpoonup> bytes) \<Rightarrow> bool" where
  "tree_map t m \<longleftrightarrow> (t = NilN \<or> wft t) \<and> (\<forall>q. content t q \<noteq> None \<longrightarrow> q \<in> range keybytesToHex) \<and>
    m = (\<lambda>k. content t (keybytesToHex k))"

definition Trie_repr :: "(bool \<Rightarrow> bytes option \<Rightarrow> bool \<Rightarrow> node \<Rightarrow> bool) \<Rightarrow> reader \<Rightarrow> Trie \<Rightarrow> (bytes \<rightharpoonup> bytes) \<Rightarrow> bool" where
  "Trie_repr H Get T m \<longleftrightarrow> (\<exists>t. loads H Get True (root T) t \<and> tree_map t m)"

definition stored_bytes :: "bytes \<Rightarrow> bytes option" where
  "stored_bytes v = (if v = [] then None else Some v)"

lemma at_root: "tkey q \<Longrightarrow> at_key q t \<longleftrightarrow> t = NilN \<or> wft t"
  by (auto simp: at_key_def is_value_def)

lemma tree_map_upd:
  assumes "tree_map t m" "t' = NilN \<or> wft t'" "content t' = (content t)(keybytesToHex k := y)"
  shows "tree_map t' (m(k := y))"
  using assms by (auto simp: tree_map_def fun_eq_iff)

lemma TryGet_repr:
  assumes "Trie_repr H Get T m"
  shows "\<exists>T'. TryGet (Some Get) k T = Some (Ok (m k, T')) \<and> Trie_repr H Get T' m"
proof -
  obtain t where t: "loads H Get True (root T) t" "tree_map t m" using assms by (auto simp: Trie_repr_def)
  obtain n' r where "tryGet (Some Get) (cachegen T) (root T) (keybytesToHex k) 0 = Some (Ok (m k, n', r))" "loads H Get True n' t"
    using tryGet_content [OF t(1), of 0 "keybytesToHex k" "cachegen T"] t(2) by (auto simp: tree_map_def at_root)
  then show ?thesis using t by (auto simp: TryGet_def Trie_repr_def)
qed

lemma trie_delete_repr:
  assumes "Trie_repr H Get T m"
  shows "\<exists>d n. trie_delete (Some Get) (cachegen T) (root T) [] (keybytesToHex k) = Some (Ok (d, n)) \<and>
    Trie_repr H Get (T\<lparr>root := n\<rparr>) (m(k := None))"
proof -
  obtain t where t: "loads H Get True (root T) t" "tree_map t m" using assms by (auto simp: Trie_repr_def)
  then have "deleted H Get True t (keybytesToHex k) (trie_delete (Some Get) (cachegen T) (root T) [] (keybytesToHex k))"
    by (intro trie_delete_content) (auto simp: tree_map_def at_root)
  then show ?thesis using tree_map_upd [OF t(2)] by (fastforce simp: deleted_def Trie_repr_def at_root)
qed

lemma TryDelete_repr:
  assumes "Trie_repr H Get T m"
  shows "\<exists>T'. TryDelete (Some Get) k T = Some (Ok T') \<and> Trie_repr H Get T' (m(k := None))"
  using trie_delete_repr [OF assms, of k] by (auto simp: TryDelete_def)

lemma TryUpdate_repr:
  assumes "Trie_repr H Get T m"
  shows "\<exists>T'. TryUpdate (Some Get) k v T = Some (Ok T') \<and> Trie_repr H Get T' (m(k := stored_bytes v))"
proof (cases "v = []")
  case True
  then show ?thesis using trie_delete_repr [OF assms, of k] by (auto simp: TryUpdate_def stored_bytes_def)
next
  case False
  obtain t where t: "loads H Get True (root T) t" "tree_map t m" using assms by (auto simp: Trie_repr_def)
  then have "inserted H Get True t (keybytesToHex k) v (trie_insert (Some Get) (cachegen T) (root T) [] (keybytesToHex k) (ValueN v))"
    using False by (intro trie_insert_content) (auto simp: tree_map_def at_root)
  then show ?thesis using False tree_map_upd [OF t(2)]
    by (fastforce simp: TryUpdate_def inserted_def Trie_repr_def at_root stored_bytes_def)
qed

interpretation trie: kv_map UNIV "Trie_repr H Get" "TryGet (Some Get)" "TryUpdate (Some Get)" "TryDelete (Some Get)" stored_bytes
  for H Get
  by unfold_locales (rule TryGet_repr TryUpdate_repr TryDelete_repr; assumption)+

text \<open>
  C3. The trie refines the finite map: on a trie that stands for the map \<open>m\<close>, whether loaded or only partly
  so, every sequence of \<open>TryGet\<close>, \<open>TryUpdate\<close> and \<open>TryDelete\<close> returns without error, the lookups see exactly
  the values the map has at that moment (an update with the empty value deletes), and the trie stands
  for the resulting map, in canonical form.
\<close>
theorem Trie_ops_refine:
  assumes "Trie_repr H Get T m"
  shows "\<exists>T'. exec_ops (TryGet (Some Get)) (TryUpdate (Some Get)) (TryDelete (Some Get)) ops T =
      Some (Ok (fst (spec_ops stored_bytes ops m), T')) \<and>
    Trie_repr H Get T' (snd (spec_ops stored_bytes ops m))"
  using subset_UNIV assms by (rule trie.exec_repr)

lemma New_empty:
  assumes "New rt (Some Get) = Ok T" "rt = replicate 32 0 \<or> rt = emptyRoot"
  shows "Trie_repr H Get T Map.empty"
  using assms by (auto simp: New_def Trie_repr_def tree_map_def intro: loads.intros)

lemma Trie_ops_refine_witness:
  "\<exists>T'. exec_ops (TryGet (Some Map.empty)) (TryUpdate (Some Map.empty)) (TryDelete (Some Map.empty))
      [Put [0x12, 0x34] [1], Put [0x12, 0x35] [2], Put [0x12] [3], Look [0x12, 0x34], Del [0x12, 0x35], Put [0x12] [],
       Look [0x12, 0x34], Look [0x12, 0x35], Look [0x12]]
      \<lparr>root = NilN, originalRoot = replicate 32 0, cachegen = 0, cachelimit = 0\<rparr> =
      Some (Ok ([Some [1], Some [1], None, None], T'))"
proof -
  have "Trie_repr (\<lambda>tp h d t. True) Map.empty \<lparr>root = NilN, originalRoot = replicate 32 0, cachegen = 0, cachelimit = 0\<rparr> Map.empty"
    by (rule New_empty [of "replicate 32 0"]) (simp_all add: New_def)
  from Trie_ops_refine [OF this, of "[Put [0x12, 0x34] [1], Put [0x12, 0x35] [2], Put [0x12] [3], Look [0x12, 0x34],
      Del [0x12, 0x35], Put [0x12] [], Look [0x12, 0x34], Look [0x12, 0x35], Look [0x12]]"]
  show ?thesis by (auto simp: stored_bytes_def)
qed

section \<open>The tree is determined by its map\<close>

lemma wft_dom: "wft t \<Longrightarrow> \<exists>q. content t q \<noteq> None"
proof (induction t rule: wft.induct)
  case (1 k v f)
  then consider "is_value v" | q where "content v q \<noteq> None" by auto
  then show ?case
  proof cases
    case 1
    then show ?thesis by (intro exI [of _ k]) (auto simp: is_value_iff)
  next
    case 2
    then show ?thesis by (intro exI [of _ "k @ q"]) simp
  qed
next
  case (2 cs f)
  then obtain j where j: "j < 17" "cs ! j \<noteq> NilN" "length cs = 17" using wft_other_child [of cs f 17] by (auto simp: live_def wft_FullN)
  have "\<exists>q. content (cs ! j) q \<noteq> None"
  proof (cases "j = 16")
    case True
    then show ?thesis using 2 j by (intro exI [of _ "[]"]) (auto simp: wft_FullN is_value_iff)
  next
    case False
    then have "j < 16" using j(1) by simp
    then show ?thesis using 2 j by (auto simp: wft_FullN)
  qed
  then obtain q where "content (cs ! j) q \<noteq> None" by blast
  then show ?case using j by (intro exI [of _ "word_of_nat j # q"]) (simp add: unat_of_nat)
qed simp_all

lemma wft_not_empty: "wft u \<Longrightarrow> content u \<noteq> content NilN"
  using wft_dom [of u] by (auto simp: fun_eq_iff)

lemma full_dom:
  assumes "wft (FullN cs f)"
  shows "\<exists>y q. y \<noteq> x \<and> content (FullN cs f) (y # q) \<noteq> None"
proof -
  obtain j where j: "j < 17" "cs ! j \<noteq> NilN" "j \<noteq> unat x" "length cs = 17"
    using wft_other_child [OF assms, of "unat x"] assms by (auto simp: live_def wft_FullN)
  have "\<exists>q. content (cs ! j) q \<noteq> None"
  proof (cases "j = 16")
    case True
    then show ?thesis using assms j by (intro exI [of _ "[]"]) (auto simp: wft_FullN is_value_iff)
  next
    case False
    then have "j < 16" using j(1) by simp
    then show ?thesis using assms j wft_dom [of "cs ! j"] by (auto simp: wft_FullN)
  qed
  then obtain q where "content (cs ! j) q \<noteq> None" by blast
  then show ?thesis using j by (intro exI [of _ "word_of_nat j"] exI [of _ q]) (auto simp: unat_of_nat)
qed

lemma full_content_Nil [simp]: "content (FullN cs f) [] = None"
  by simp

lemma short_key_prefix:
  assumes "wft (ShortN k v f)" "\<And>q. content (ShortN k v f) q \<noteq> None \<Longrightarrow> \<exists>r. q = k @ z @ r"
  shows "z = []"
proof (rule ccontr)
  assume "z \<noteq> []"
  then obtain x zs where z: "z = x # zs" by (cases z) auto
  have all: "\<exists>r. q = z @ r" if "content v q \<noteq> None" for q using assms(2) [of "k @ q"] that by simp
  from assms(1) consider "is_value v" | cs g where "v = FullN cs g" "wft v" by (auto simp: is_full_iff)
  then show False
  proof cases
    case 1
    then show False using all [of "[]"] \<open>z \<noteq> []\<close> by (auto simp: is_value_iff)
  next
    case 2
    then obtain y q where "y \<noteq> x" "content v (y # q) \<noteq> None" using full_dom [of cs g x] by blast
    then show False using all [of "y # q"] by (simp add: z)
  qed
qed

lemma wft_unique: "wft t \<Longrightarrow> wft t' \<Longrightarrow> content t = content t' \<Longrightarrow> t = t'"
proof (induction t arbitrary: t' rule: measure_induct_rule [of size])
  case (less t)
  have dom: "\<exists>r. q = k @ r" if "content t q \<noteq> None" "t = ShortN k v f \<or> t' = ShortN k v f" for q k v f
    using that less.prems(3) content_Short_no [of q k v f] by metis
  show ?case
  proof (cases t)
    case (ShortN k v f)
    show ?thesis
    proof (cases t')
      case (ShortN k' v' f')
      obtain q where q: "content t q \<noteq> None" using wft_dom [OF less.prems(1)] by blast
      obtain r r' where "q = k @ r" "q = k' @ r'"
        using dom [OF q, of k v f] dom [OF q, of k' v' f'] \<open>t = ShortN k v f\<close> ShortN by blast
      then consider z where "k' = k @ z" | z where "k = k' @ z" by (metis append_eq_append_conv2)
      then have k: "k = k'"
      proof cases
        case 1
        have "\<exists>r. q = k @ z @ r" if "content (ShortN k v f) q \<noteq> None" for q
          using dom [of q k' v' f'] that \<open>t = ShortN k v f\<close> ShortN 1 by (simp del: content.simps)
        then show ?thesis using short_key_prefix [of k v f z] less.prems(1) \<open>t = ShortN k v f\<close> 1 by blast
      next
        case 2
        have "\<exists>r. q = k' @ z @ r" if "content (ShortN k' v' f') q \<noteq> None" for q
          using dom [of q k v f] that less.prems(3) \<open>t = ShortN k v f\<close> ShortN 2 by (simp del: content.simps)
        then show ?thesis using short_key_prefix [of k' v' f' z] less.prems(2) ShortN 2 by blast
      qed
      have c: "content v = content v'"
      proof
        fix r show "content v r = content v' r"
          using fun_cong [OF less.prems(3), of "k @ r"] by (simp add: \<open>t = ShortN k v f\<close> ShortN k)
      qed
      have w: "is_value v \<or> is_full v \<and> wft v" "is_value v' \<or> is_full v' \<and> wft v'"
        using less.prems(1,2) unfolding \<open>t = ShortN k v f\<close> ShortN by auto
      have nil: "content v [] = content v' []" by (simp only: c)
      have "size v < size t" by (simp add: \<open>t = ShortN k v f\<close>)
      then have "wft v \<Longrightarrow> wft v' \<Longrightarrow> v = v'" using less.IH c by blast
      then have "v = v'" using w nil by (auto simp: is_value_iff is_full_iff)
      then show ?thesis using less.prems(1,2) k by (simp add: \<open>t = ShortN k v f\<close> ShortN)
    next
      case (FullN cs g)
      obtain x ks where k: "k = x # ks" using less.prems(1) ShortN by (cases k) auto
      obtain y q where "y \<noteq> x" "content t (y # q) \<noteq> None"
        using full_dom [of cs g x] less.prems(2) unfolding less.prems(3) FullN by blast
      then show ?thesis using dom [of "y # q" k v f] ShortN k by simp
    qed (use less.prems(2) in simp_all)
  next
    case (FullN cs f)
    show ?thesis
    proof (cases t')
      case (ShortN k' v' f')
      obtain x ks where k: "k' = x # ks" using less.prems(2) ShortN by (cases k') auto
      obtain y q where "y \<noteq> x" "content t (y # q) \<noteq> None"
        using full_dom [of cs f x] less.prems(1) unfolding FullN by blast
      then show ?thesis using dom [of "y # q" k' v' f'] ShortN k by simp
    next
      case F: (FullN cs' f')
      have l: "length cs = 17" "length cs' = 17" using less.prems FullN F by (auto simp: wft_FullN)
      have c: "content (cs ! i) = content (cs' ! i)" if "i < 17" for i
      proof
        fix r show "content (cs ! i) r = content (cs' ! i) r"
          using fun_cong [OF less.prems(3), of "word_of_nat i # r"] that l by (simp add: FullN F unat_of_nat)
      qed
      have "cs ! i = cs' ! i" if i: "i < 17" for i
      proof (cases "i = 16")
        case True
        then show ?thesis using less.prems(1,2) fun_cong [OF c [OF i], of "[]"]
          by (auto simp: FullN F wft_FullN is_value_iff)
      next
        case False
        then have w: "cs ! i = NilN \<or> wft (cs ! i)" "cs' ! i = NilN \<or> wft (cs' ! i)"
          using less.prems(1,2) i by (auto simp: FullN F wft_FullN)
        have "size (cs ! i) < size t" using size_list_estimation' [of "cs ! i" cs "size (cs ! i)" size] l i by (simp add: FullN)
        then have "wft (cs ! i) \<Longrightarrow> wft (cs' ! i) \<Longrightarrow> cs ! i = cs' ! i" using less.IH c [OF i] by blast
        then show ?thesis using w c [OF i] wft_not_empty by metis
      qed
      then have "cs = cs'" using l by (simp add: list_eq_iff_nth_eq)
      then show ?thesis using less.prems(1,2) by (simp add: FullN F wft_FullN)
    qed (use less.prems(2) in simp_all)
  qed (use less.prems(1) in simp_all)
qed

lemma tree_mapD: "tree_map t m \<Longrightarrow> content t (keybytesToHex k) = m k"
  by (simp add: tree_map_def)

lemma tree_map_unique:
  assumes "tree_map t m" "tree_map t' m"
  shows "t = t'"
proof -
  have "content t q = content t' q" for q
  proof (cases "q \<in> range keybytesToHex")
    case True
    then obtain k where "q = keybytesToHex k" by blast
    then show ?thesis using tree_mapD [OF assms(1), of k] tree_mapD [OF assms(2), of k] by simp
  next
    case False
    then have "content t q = None" "content t' q = None" using assms unfolding tree_map_def by blast+
    then show ?thesis by simp
  qed
  then have c: "content t = content t'" by blast
  have "wft t \<or> t = NilN" "wft t' \<or> t' = NilN" using assms by (auto simp: tree_map_def)
  then show ?thesis using wft_unique [of t t'] wft_not_empty c by metis
qed

end
