(* ===== verification/TrieHasher.thy ===== *)
theory TrieHasher
  imports TrieSpec
begin

text \<open>
  Hashing and committing, \<open>chain/space/trie/hasher.go\<close> and the rest of \<open>trie.go\<close>. The hash function
  (\<open>Keccak256\<close>) and the database writer are parameters.
\<close>

section \<open>Nodes as encoded values\<close>

text \<open>
  How reflection sees a node: \<open>*shortNode\<close> is a pointer to a struct with an unexported field,
  \<open>*fullNode\<close> implements \<open>Encoder\<close> and encodes its array of children, hashes and values are byte slices.
  A child is an interface value.
\<close>

definition shortNode_type :: rtype where
  "shortNode_type = TPtr (TStruct [Field ''Key'' True [] (TSlice (TUint 8)), Field ''Val'' True [] (TIface True),
     Field ''flags'' False [] TOther])"

definition fullNode_type :: rtype where
  "fullNode_type = TEnc False (TArray 17 (TIface True))"

definition node_type :: "node \<Rightarrow> rtype" where
  "node_type n =
    (case n of
       ShortN _ _ _ \<Rightarrow> shortNode_type
     | FullN _ _ \<Rightarrow> fullNode_type
     | _ \<Rightarrow> TSlice (TUint 8))"

fun node_val :: "node \<Rightarrow> rval"
  and node_iface :: "node \<Rightarrow> rval" where
  "node_val (ShortN k v f) = VPtr (VStruct [VBytes k, node_iface v, VNil])"
| "node_val (FullN cs f) = VEnc (VList (map node_iface cs))"
| "node_val (HashN h) = VBytes h"
| "node_val (ValueN v) = VBytes v"
| "node_val NilN = VNil"
| "node_iface NilN = VNil"
| "node_iface n = VIface (node_type n) (node_val n)"

section \<open>The hasher\<close>

text \<open>A database writer: \<open>Put\<close> changes the state of the database and may fail. \<open>None\<close> is the nil writer.\<close>

type_synonym 'd writer = "bytes \<Rightarrow> bytes \<Rightarrow> 'd \<Rightarrow> 'd \<times> string option"

definition store :: "(bytes \<Rightarrow> bytes) \<Rightarrow> 'd writer option \<Rightarrow> node \<Rightarrow> bool \<Rightarrow> 'd \<Rightarrow> 'd \<times> (string, node) outcome" where
  "store Keccak256 db n force d =
    (if n = NilN \<or> (case n of HashN _ \<Rightarrow> True | _ \<Rightarrow> False) then (d, Ok n)
     else case Encode buffer_Write [] (node_type n) (node_val n) of
       (buf, Ok _) \<Rightarrow>
         if length buf < 32 \<and> \<not> force then (d, Ok n)
         else (case (cache n :: (string, bytes option \<times> bool) outcome) of
             Ok (h, _) \<Rightarrow>
               let hash = (case h of Some h \<Rightarrow> h | None \<Rightarrow> Keccak256 buf)
               in (case db of
                     None \<Rightarrow> (d, Ok (HashN hash))
                   | Some put \<Rightarrow>
                       (case put hash buf d of
                          (d, None) \<Rightarrow> (d, Ok (HashN hash))
                        | (d, Some e) \<Rightarrow> (d, Err e)))
           | _ \<Rightarrow> (d, Panic))
     | (_, _) \<Rightarrow> (d, Panic))"

text \<open>The end of \<open>hash\<close>: the hash and, when committing, the cleared dirty flag go into the cached node.\<close>

definition set_cached :: "bool \<Rightarrow> node \<Rightarrow> node \<Rightarrow> node" where
  "set_cached commit hashed cached =
    (let cachedHash = (case hashed of HashN h \<Rightarrow> Some h | _ \<Rightarrow> None);
         upd = (\<lambda>f. f\<lparr>fhash := cachedHash, fdirty := if commit then False else fdirty f\<rparr>)
     in case cached of
          ShortN k v f \<Rightarrow> ShortN k v (upd f)
        | FullN cs f \<Rightarrow> FullN cs (upd f)
        | n \<Rightarrow> n)"

lemma size_list_take: "size_list f (take n xs) \<le> size_list f xs"
  by (induction xs arbitrary: n) (auto simp: take_Cons' split: if_splits)

text \<open>
  \<open>hash\<close>, \<open>hashChildren\<close> and the calls of \<open>hashChild\<close> for the first 16 children. The source starts them as
  goroutines at the first full node; they work on different children, and here they run in order. An
  error does not stop the other children, the last one is reported.
\<close>

function (sequential) hasher_hash :: "(bytes \<Rightarrow> bytes) \<Rightarrow> 'd writer option \<Rightarrow> u16 \<Rightarrow> u16 \<Rightarrow> node \<Rightarrow> bool \<Rightarrow> 'd \<Rightarrow>
    'd \<times> (string, node \<times> node) outcome"
  and hashChildren :: "(bytes \<Rightarrow> bytes) \<Rightarrow> 'd writer option \<Rightarrow> u16 \<Rightarrow> u16 \<Rightarrow> node \<Rightarrow> 'd \<Rightarrow>
    'd \<times> (string, node \<times> node) outcome"
  and hashChild_loop :: "(bytes \<Rightarrow> bytes) \<Rightarrow> 'd writer option \<Rightarrow> u16 \<Rightarrow> u16 \<Rightarrow> node list \<Rightarrow> 'd \<Rightarrow>
    'd \<times> (string, string option \<times> (node \<times> node) list) outcome"
where
  "hasher_hash K db gen limit n force d =
    (let walk =
       (case hashChildren K db gen limit n d of
          (d, Ok (collapsed, cached)) \<Rightarrow>
            (case store K db collapsed force d of
               (d, Ok hashed) \<Rightarrow> (d, Ok (hashed, set_cached (db \<noteq> None) hashed cached))
             | (d, Err e) \<Rightarrow> (d, Err e)
             | (d, Panic) \<Rightarrow> (d, Panic))
        | (d, Err e) \<Rightarrow> (d, Err e)
        | (d, Panic) \<Rightarrow> (d, Panic))
     in case (cache n :: (string, bytes option \<times> bool) outcome) of
          Ok (Some h, dirty) \<Rightarrow>
            if db = None then (d, Ok (HashN h, n))
            else if canUnload n gen limit = (Ok True :: (unit, bool) outcome) then (d, Ok (HashN h, HashN h))
            else if \<not> dirty then (d, Ok (HashN h, n))
            else walk
        | Ok (None, dirty) \<Rightarrow> walk
        | _ \<Rightarrow> (d, Panic))"
| "hashChildren K db gen limit (ShortN k v f) d =
    (case (hexToCompact k :: (string, bytes) outcome) of
       Ok ck \<Rightarrow>
         (case v of
            ValueN x \<Rightarrow> (d, Ok (ShortN ck v f, ShortN k v f))
          | _ \<Rightarrow>
              (case hasher_hash K db gen limit v False d of
                 (d, Ok (c, cc)) \<Rightarrow> (d, Ok (ShortN ck (if c = NilN then ValueN [] else c) f, ShortN k cc f))
               | (d, Err e) \<Rightarrow> (d, Err e)
               | (d, Panic) \<Rightarrow> (d, Panic)))
     | _ \<Rightarrow> (d, Panic))"
| "hashChildren K db gen limit (FullN cs f) d =
    (case hashChild_loop K db gen limit (take 16 cs) d of
       (d, Ok (None, ps)) \<Rightarrow>
         (case (index cs 16 :: (string, node) outcome) of
            Ok v \<Rightarrow> (d, Ok (FullN (map fst ps @ [if v = NilN then ValueN [] else v]) f, FullN (map snd ps @ [v]) f))
          | _ \<Rightarrow> (d, Panic))
     | (d, Ok (Some e, ps)) \<Rightarrow> (d, Err e)
     | (d, Err e) \<Rightarrow> (d, Err e)
     | (d, Panic) \<Rightarrow> (d, Panic))"
| "hashChildren K db gen limit n d = (d, Ok (n, n))"
| "hashChild_loop K db gen limit [] d = (d, Ok (None, []))"
| "hashChild_loop K db gen limit (c # cs) d =
    (case (if c = NilN then (d, Ok (ValueN [], NilN)) else hasher_hash K db gen limit c False d) of
       (d, Ok p) \<Rightarrow>
         (case hashChild_loop K db gen limit cs d of
            (d, Ok (e, ps)) \<Rightarrow> (d, Ok (e, p # ps))
          | r \<Rightarrow> r)
     | (d, Err e) \<Rightarrow>
         (case hashChild_loop K db gen limit cs d of
            (d, Ok (e', ps)) \<Rightarrow> (d, Ok (Some (case e' of Some e' \<Rightarrow> e' | None \<Rightarrow> e), (HashN [], c) # ps))
          | r \<Rightarrow> r)
     | (d, Panic) \<Rightarrow> (d, Panic))"
  by pat_completeness auto
termination
  by (relation "measure (\<lambda>x. case x of
      Inl (_, _, _, _, n, _, _) \<Rightarrow> 3 * size n + 2
    | Inr (Inl (_, _, _, _, n, _)) \<Rightarrow> 3 * size n + 1
    | Inr (Inr (_, _, _, _, cs, _)) \<Rightarrow> 3 * size_list size cs)")
    (auto simp: size_list_take less_Suc_eq_le intro: le_less_trans [OF mult_le_mono2 [OF size_list_take]])

declare hasher_hash.simps [simp del]

section \<open>The methods of the trie\<close>

definition hashRoot :: "(bytes \<Rightarrow> bytes) \<Rightarrow> 'd writer option \<Rightarrow> Trie \<Rightarrow> 'd \<Rightarrow> 'd \<times> (string, node \<times> node) outcome" where
  "hashRoot K db t d =
    (if root t = NilN then (d, Ok (HashN emptyRoot, NilN))
     else hasher_hash K db (cachegen t) (cachelimit t) (root t) True d)"

text \<open>\<open>Hash\<close> ignores the error, which a nil writer cannot raise.\<close>

definition Trie_Hash :: "(bytes \<Rightarrow> bytes) \<Rightarrow> Trie \<Rightarrow> (string, bytes \<times> Trie) outcome" where
  "Trie_Hash K t =
    (case snd (hashRoot K (None :: unit writer option) t ()) of
       Ok (HashN h, cached) \<Rightarrow> Ok (BytesToHash h, t\<lparr>root := cached\<rparr>)
     | _ \<Rightarrow> Panic)"

definition Trie_CommitTo :: "(bytes \<Rightarrow> bytes) \<Rightarrow> 'd writer \<Rightarrow> Trie \<Rightarrow> 'd \<Rightarrow> 'd \<times> (string, bytes) outcome \<times> Trie" where
  "Trie_CommitTo K db t d =
    (case hashRoot K (Some db) t d of
       (d, Ok (HashN h, cached)) \<Rightarrow> (d, Ok (BytesToHash h), t\<lparr>root := cached, cachegen := cachegen t + 1\<rparr>)
     | (d, Ok _) \<Rightarrow> (d, Panic, t)
     | (d, Err e) \<Rightarrow> (d, Err e, t)
     | (d, Panic) \<Rightarrow> (d, Panic, t))"

definition Trie_Commit :: "(bytes \<Rightarrow> bytes) \<Rightarrow> 'd writer option \<Rightarrow> Trie \<Rightarrow> 'd \<Rightarrow> 'd \<times> (string, bytes) outcome \<times> Trie" where
  "Trie_Commit K db t d = (case db of None \<Rightarrow> (d, Panic, t) | Some db \<Rightarrow> Trie_CommitTo K db t d)"

definition Trie_Root :: "(bytes \<Rightarrow> bytes) \<Rightarrow> Trie \<Rightarrow> (string, bytes \<times> Trie) outcome" where
  "Trie_Root K t = Trie_Hash K t"

end
