(* ===== verification/TrieCommit.thy ===== *)
theory TrieCommit
  imports TrieHasher
begin

text \<open>
  What hashing and committing do. The root hash is the hash of the encoding of the canonical tree, in
  which every subtree of 32 bytes or more is replaced by its hash (\<open>tree_hash\<close>); so it is determined by the
  map that the trie stands for. Committing stores the encodings, and a trie opened from the root hash
  stands for the same map.
\<close>

section \<open>Encodings of nodes\<close>

text \<open>The encoding of a node as it is, with compact keys.\<close>

fun raw_enc :: "node \<Rightarrow> bytes" where
  "raw_enc NilN = rlp_list []"
| "raw_enc (ValueN v) = rlp_str v"
| "raw_enc (HashN h) = rlp_str h"
| "raw_enc (ShortN k v f) = rlp_list (rlp_str k @ raw_enc v)"
| "raw_enc (FullN cs f) = rlp_list (concat (map raw_enc cs))"

lemma rlp_of_eqs:
  "rlp_of (TSlice (TUint 8)) ts a (VBytes b) = Ok (rlp_str b)"
  "rlp_of (TIface m) ts a VNil = Ok (rlp_list [])" "rlp_of (TIface m) ts a (VIface t v) = rlp_top t v"
  "rlp_of (TArray n (TIface m)) no_tags a (VList vs) = obind (rlp_elems (TIface m) a vs) (\<lambda>c. Ok (rlp_list c))"
  "rlp_of (TStruct fs) ts a (VStruct vs) = obind (structFields fs) (\<lambda>flds. obind (rlp_flds flds a vs) (\<lambda>c. Ok (rlp_list c)))"
  by (subst rlp_of.simps; simp add: isByte_def obytes_def no_tags_def)+

lemma shortNode_fields:
  "structFields [Field ''Key'' True [] (TSlice (TUint 8)), Field ''Val'' True [] (TIface True), Field ''flags'' False [] TOther] =
    Ok [(0, no_tags, TSlice (TUint 8)), (1, no_tags, TIface True)]"
  by (simp add: structFields_def tag_eval)

lemma genTypeInfo_nodes:
  "genTypeInfo shortNode_type = Ok ()" "genTypeInfo fullNode_type = Ok ()" "genTypeInfo (TSlice (TUint 8)) = Ok ()"
  "genTypeInfo (TArray 17 (TIface True)) = Ok ()"
  by (simp_all add: shortNode_type_def fullNode_type_def genTypeInfo.simps tag_eval)

lemma rlp_top_node: "n \<noteq> NilN \<Longrightarrow> rlp_top (node_type n) (node_val n) = Ok (raw_enc n)"
proof (induction n)
  case (FullN cs f)
  have "rlp_of (TIface True) no_tags a (node_iface c) = Ok (raw_enc c)" if "c \<in> set cs" for a c
    using FullN.IH [OF that] by (cases c) (simp_all add: rlp_of_eqs)
  then have "rlp_elems (TIface True) a (map node_iface cs) = Ok (concat (map raw_enc cs))" for a
    by (induction cs) simp_all
  then show ?case
    by (simp add: rlp_top.simps node_type_def genTypeInfo_nodes) (simp add: fullNode_type_def rlp_of_ptr genTypeInfo_nodes rlp_of_eqs)
next
  case (ShortN k v f)
  have "rlp_of (TIface True) no_tags a (node_iface v) = Ok (raw_enc v)" for a
    using ShortN.IH by (cases v) (simp_all add: rlp_of_eqs)
  then show ?case
    by (simp add: rlp_top.simps node_type_def genTypeInfo_nodes)
      (simp add: shortNode_type_def rlp_of_ptr rlp_of_eqs shortNode_fields)
qed (simp_all add: rlp_top.simps node_type_def genTypeInfo_nodes rlp_of_eqs)

lemma Encode_node:
  assumes "n \<noteq> NilN" "length (raw_enc n) < 2 ^ 64"
  shows "Encode buffer_Write [] (node_type n) (node_val n) = (raw_enc n, Ok ())"
proof -
  obtain w where w: "encbuf_encode (node_type n) (node_val n) encbuf_reset = Ok w" "holds w (raw_enc n)"
    using encbuf_encode_holds [OF rlp_top_node [OF assms(1)] assms(2)] .
  then show ?thesis by (simp add: Encode_def toWriter_def toWriter_loop_render holds_def)
qed

section \<open>The canonical encoding of a tree\<close>

text \<open>A tree with its subtrees of 32 bytes or more replaced by hashes.\<close>

function collapse :: "(bytes \<Rightarrow> bytes) \<Rightarrow> node \<Rightarrow> node" and cref :: "(bytes \<Rightarrow> bytes) \<Rightarrow> node \<Rightarrow> node" where
  "collapse K n =
    (case n of
       ShortN k v f \<Rightarrow> ShortN k (cref K v) f
     | FullN cs f \<Rightarrow> FullN (map (cref K) cs) f
     | _ \<Rightarrow> n)"
| "cref K n =
    (if is_branch n \<and> 32 \<le> length (node_enc (collapse K n)) then HashN (K (node_enc (collapse K n)))
     else collapse K n)"
  by pat_completeness auto
termination
  by (relation "measure (\<lambda>x. case x of Inl (_, n) \<Rightarrow> 2 * size n | Inr (_, n) \<Rightarrow> 2 * size n + 1)")
    (auto simp: less_Suc_eq_le intro!: trans_le_add1 dest: size_list_estimation' [OF _ order_refl, of _ _ size])

declare collapse.simps [simp del] cref.simps [simp del]

definition tree_enc :: "(bytes \<Rightarrow> bytes) \<Rightarrow> node \<Rightarrow> bytes" where
  "tree_enc K t = node_enc (collapse K t)"

definition tree_hash :: "(bytes \<Rightarrow> bytes) \<Rightarrow> node \<Rightarrow> bytes" where
  "tree_hash K t = K (tree_enc K t)"

definition big :: "(bytes \<Rightarrow> bytes) \<Rightarrow> node \<Rightarrow> bool" where
  "big K t \<longleftrightarrow> 32 \<le> length (tree_enc K t)"

lemma collapse_simps [simp]:
  "collapse K (ShortN k v f) = ShortN k (cref K v) f" "collapse K (FullN cs f) = FullN (map (cref K) cs) f"
  "collapse K NilN = NilN" "collapse K (ValueN x) = ValueN x" "collapse K (HashN h) = HashN h"
  by (subst collapse.simps; simp)+

lemma cref_simps:
  "cref K n = (if is_branch n \<and> big K n then HashN (tree_hash K n) else collapse K n)"
  by (subst cref.simps) (simp add: big_def tree_hash_def tree_enc_def)

lemma cref_leaf [simp]: "cref K NilN = NilN" "cref K (ValueN x) = ValueN x"
  by (simp_all add: cref_simps is_branch_def)

lemma is_branch_simps [simp]:
  "is_branch (ShortN k v f)" "is_branch (FullN cs f)" "\<not> is_branch NilN" "\<not> is_branch (ValueN x)" "\<not> is_branch (HashN h)"
  by (simp_all add: is_branch_def)

section \<open>What is stored\<close>

text \<open>The subtrees that are referred to by hash are in the database.\<close>

function (sequential) below :: "(bytes \<Rightarrow> bytes) \<Rightarrow> reader \<Rightarrow> node \<Rightarrow> bool" where
  "below K Get (ShortN k v f) = (is_branch v \<longrightarrow> (big K v \<longrightarrow> Get (tree_hash K v) = Some (tree_enc K v)) \<and> below K Get v)"
| "below K Get (FullN cs f) =
    (\<forall>c \<in> set cs. is_branch c \<longrightarrow> (big K c \<longrightarrow> Get (tree_hash K c) = Some (tree_enc K c)) \<and> below K Get c)"
| "below K Get n = True"
  by pat_completeness auto
termination
  by (relation "measure (\<lambda>(_, _, n). size n)") (auto simp: less_Suc_eq_le intro!: trans_le_add1 dest: size_list_estimation' [OF _ order_refl, of _ _ size])

definition stored :: "(bytes \<Rightarrow> bytes) \<Rightarrow> reader \<Rightarrow> node \<Rightarrow> bool" where
  "stored K Get t \<longleftrightarrow> Get (tree_hash K t) = Some (tree_enc K t) \<and> below K Get t"

lemma below_mono: "below K Get t \<Longrightarrow> Get \<subseteq>\<^sub>m Get' \<Longrightarrow> below K Get' t"
  by (induction K Get t rule: below.induct) (auto simp: map_le_def dom_def)

lemma stored_mono: "stored K Get t \<Longrightarrow> Get \<subseteq>\<^sub>m Get' \<Longrightarrow> stored K Get' t"
  using below_mono by (auto simp: stored_def map_le_def dom_def)

text \<open>The condition on flags: a cached hash is the hash of the tree, a node that is not dirty is in the
  database, either by itself or as part of its parent.\<close>

definition cached_ok :: "(bytes \<Rightarrow> bytes) \<Rightarrow> reader \<Rightarrow> bool \<Rightarrow> bytes option \<Rightarrow> bool \<Rightarrow> node \<Rightarrow> bool" where
  "cached_ok K Get tp h dirty t \<longleftrightarrow>
    (case h of
       None \<Rightarrow> \<not> tp \<and> \<not> big K t \<and> below K Get t
     | Some h \<Rightarrow> h = tree_hash K t \<and> (tp \<or> big K t) \<and> (\<not> dirty \<longrightarrow> stored K Get t))"

lemma loads_mono:
  assumes "loads H Get tp n t" "Get \<subseteq>\<^sub>m Get'" "\<And>tp h d t. H tp h d t \<Longrightarrow> H' tp h d t"
  shows "loads H' Get' tp n t"
  using assms(1)
proof (induction rule: loads.induct)
  case (loads_Hash h b tp t)
  then have "Get' h = Some b" using assms(2) by (auto simp: map_le_def dom_def)
  moreover have "H' tp (Some h) False t" using loads_Hash.hyps(2) assms(3) by blast
  ultimately show ?case using loads_Hash by (intro loads.intros) blast+
qed (use assms(3) in \<open>auto intro!: loads.intros simp: flag_ok_def\<close>)

lemma loads_cached_mono:
  assumes "loads (cached_ok K Get) Get tp n t" "Get \<subseteq>\<^sub>m Get'"
  shows "loads (cached_ok K Get') Get' tp n t"
  using assms by (rule loads_mono) (use below_mono [OF _ assms(2)] stored_mono [OF _ assms(2)] in
    \<open>auto simp: cached_ok_def split: option.splits\<close>)

section \<open>Loading what is stored\<close>

text \<open>The encodings of a tree and its subtrees.\<close>

function (sequential) encs :: "(bytes \<Rightarrow> bytes) \<Rightarrow> node \<Rightarrow> bytes set" where
  "encs K (ShortN k v f) = insert (tree_enc K (ShortN k v f)) (encs K v)"
| "encs K (FullN cs f) = insert (tree_enc K (FullN cs f)) (\<Union>c \<in> set cs. encs K c)"
| "encs K n = {}"
  by pat_completeness auto
termination
  by (relation "measure (\<lambda>(_, n). size n)") (auto simp: less_Suc_eq_le intro!: trans_le_add1 dest: size_list_estimation' [OF _ order_refl, of _ _ size])

lemma tree_enc_encs: "is_branch t \<Longrightarrow> tree_enc K t \<in> encs K t"
  by (cases t) auto

definition fits :: "(bytes \<Rightarrow> bytes) \<Rightarrow> node \<Rightarrow> bool" where
  "fits K t \<longleftrightarrow> (\<forall>e \<in> encs K t. length e < 2 ^ 64)"

lemma fits_simps:
  "fits K (ShortN k v f) \<longleftrightarrow> length (tree_enc K (ShortN k v f)) < 2 ^ 64 \<and> fits K v"
  "fits K (FullN cs f) \<longleftrightarrow> length (tree_enc K (FullN cs f)) < 2 ^ 64 \<and> (\<forall>c \<in> set cs. fits K c)"
  by (auto simp: fits_def)

definition hash_len :: "(bytes \<Rightarrow> bytes) \<Rightarrow> bool" where
  "hash_len K \<longleftrightarrow> (\<forall>b. length (K b) = 32)"

lemma hexkey_tkey: "tkey k \<Longrightarrow> hexkey k \<and> hasTerm k"
  by (auto simp: tkey_iff hexkey_def)

lemma hexkey_ext: "nibbles k \<Longrightarrow> hexkey k \<and> \<not> hasTerm k"
  by (simp add: hexkey_nibbles nibbles_not_hasTerm)

lemma child_ok_cref:
  assumes "hash_len K" "c = NilN \<or> is_branch c \<and> storable (collapse K c)"
  shows "child_ok (cref K c)"
  using assms by (cases c) (auto simp: cref_simps child_ok_def tree_hash_def tree_enc_def hash_len_def big_def)

lemma set_take_nth: "length cs = 17 \<Longrightarrow> c \<in> set (take 16 cs) \<Longrightarrow> \<exists>i < 16. c = cs ! i"
  by (auto simp: in_set_conv_nth)

lemma storable_collapse:
  assumes "hash_len K"
  shows "wft t \<Longrightarrow> storable (collapse K t)"
proof (induction t rule: wft.induct)
  case (1 k v f)
  then show ?case
    using hexkey_tkey [of k] hexkey_ext [of k] child_ok_cref [OF assms, of v]
    by (auto simp: storable_Short is_value_iff is_full_iff)
next
  case (2 cs f)
  have "child_ok (cref K c)" if c: "c \<in> set (take 16 cs)" for c
  proof -
    have "length cs = 17" using "2.prems" by (simp add: wft_FullN)
    then obtain i where i: "i < 16" "c = cs ! i" using set_take_nth [OF _ c] by blast
    then have "c = NilN \<or> wft c" using "2.prems" by (auto simp: wft_FullN)
    then show ?thesis using child_ok_cref [OF assms, of c] wft_branch [of c] "2.IH" [of i] i "2.prems" by (auto simp: wft_FullN)
  qed
  then show ?case using "2.prems" by (auto simp: storable_Full wft_FullN take_map is_value_iff)
qed simp_all

lemma decode_tree_enc:
  assumes "hash_len K" "wft t" "length (tree_enc K t) < 2 ^ 64"
  shows "decodeNode h (tree_enc K t) g = Ok (reflag h g (collapse K t))"
  using decodeNode_node_enc [OF storable_collapse [OF assms(1,2)], of "[]" h g] assms(3) by (simp add: tree_enc_def)

text \<open>A child that was parsed.\<close>

lemma loads_ref:
  assumes "hash_len K" "c = NilN \<or> is_value c \<or> wft c" "fits K c"
    and st: "is_branch c \<longrightarrow> (big K c \<longrightarrow> Get (tree_hash K c) = Some (tree_enc K c)) \<and> below K Get c"
    and IH: "\<And>tp h g. wft c \<Longrightarrow> cached_ok K Get tp h False c \<Longrightarrow> loads (cached_ok K Get) Get tp (reflag h g (collapse K c)) c"
  shows "loads (cached_ok K Get) Get False (reflag None g (cref K c)) c"
proof (cases "wft c")
  case True
  then have b: "is_branch c" by (rule wft_branch)
  show ?thesis
  proof (cases "big K c")
    case big: True
    have l: "length (tree_enc K c) < 2 ^ 64" using assms(3) tree_enc_encs [OF b] by (auto simp: fits_def)
    have ok: "cached_ok K Get False (Some (tree_hash K c)) False c" using st b big by (auto simp: cached_ok_def stored_def)
    have "loads (cached_ok K Get) Get False (HashN (tree_hash K c)) c"
      using st b big ok IH [OF True ok] decode_tree_enc [OF assms(1) True l] by (intro loads.intros) auto
    then show ?thesis using b big by (simp add: cref_simps)
  next
    case False
    then show ?thesis using IH [OF True, of False None] st b by (simp add: cref_simps cached_ok_def)
  qed
qed (use assms(2) in \<open>auto simp: is_value_iff intro: loads.intros\<close>)

lemma loads_parsed:
  assumes "hash_len K"
  shows "wft t \<Longrightarrow> below K Get t \<Longrightarrow> fits K t \<Longrightarrow> cached_ok K Get tp h False t \<Longrightarrow>
    loads (cached_ok K Get) Get tp (reflag h g (collapse K t)) t"
proof (induction t arbitrary: tp h g rule: measure_induct_rule [of size])
  case (less t)
  have flag: "flag_ok (cached_ok K Get tp) \<lparr>fhash = h, fgen = g, fdirty = False\<rparr> t"
    using less.prems(4) by (simp add: flag_ok_def)
  show ?case
  proof (cases t)
    case (ShortN k v f)
    have "v = NilN \<or> is_value v \<or> wft v" "fits K v" "f = blank" using less.prems by (auto simp: ShortN fits_simps)
    then have "loads (cached_ok K Get) Get False (reflag None g (cref K v)) v"
      using less.prems less.IH [of v] by (intro loads_ref [OF assms]) (auto simp: ShortN dest: wft_branch)
    then show ?thesis using flag \<open>f = blank\<close> by (auto simp: ShortN intro!: loads.intros)
  next
    case (FullN cs f)
    have l: "length cs = 17" "f = blank" using less.prems(1) by (auto simp: FullN wft_FullN)
    have "loads (cached_ok K Get) Get False (reflag None g (cref K (cs ! i))) (cs ! i)" if i: "i < 17" for i
    proof -
      have m: "cs ! i \<in> set cs" using l i by simp
      have "cs ! i = NilN \<or> is_value (cs ! i) \<or> wft (cs ! i)"
        using less.prems(1) i by (cases "i < 16") (auto simp: FullN wft_FullN not_less dest!: less_antisym)
      moreover have "size (cs ! i) < size t" using size_list_estimation' [OF m order_refl, of size] by (simp add: FullN)
      ultimately show ?thesis using less.prems less.IH [of "cs ! i"] m by (intro loads_ref [OF assms]) (auto simp: FullN fits_simps dest: wft_branch)
    qed
    then show ?thesis using flag l by (auto simp: FullN intro!: loads.intros)
  qed (use less.prems(1) in simp_all)
qed

lemma loads_stored:
  assumes "hash_len K" "wft t" "fits K t" "stored K Get t" "tp \<or> big K t"
  shows "loads (cached_ok K Get) Get tp (HashN (tree_hash K t)) t"
proof -
  have ok: "cached_ok K Get tp (Some (tree_hash K t)) False t" using assms by (simp add: cached_ok_def)
  have b: "is_branch t" using assms(2) by (rule wft_branch)
  then have "length (tree_enc K t) < 2 ^ 64" using assms(3) tree_enc_encs by (auto simp: fits_def)
  then show ?thesis using assms b ok decode_tree_enc [OF assms(1,2)] loads_parsed [OF assms(1,2) _ assms(3) ok]
    by (intro loads.intros) (auto simp: stored_def)
qed

section \<open>Hashing\<close>

text \<open>The documented behaviour of the database: a successful \<open>Put\<close> adds the entry; and here every \<open>Put\<close>
  succeeds.\<close>

definition puts_ok :: "('d \<Rightarrow> reader) \<Rightarrow> 'd writer \<Rightarrow> bool" where
  "puts_ok get put \<longleftrightarrow> (\<forall>k v d. \<exists>d'. put k v d = (d', None) \<and> get d' = (get d)(k \<mapsto> v))"

text \<open>No two of the encodings \<open>S\<close> have the same hash, and none has the hash of something else in the
  database.\<close>

definition clean :: "(bytes \<Rightarrow> bytes) \<Rightarrow> bytes set \<Rightarrow> reader \<Rightarrow> bool" where
  "clean K S Get \<longleftrightarrow> inj_on K S \<and> (\<forall>e \<in> S. Get (K e) = None \<or> Get (K e) = Some e)"

lemma clean_put:
  assumes "clean K S Get" "e \<in> S"
  shows "clean K S (Get(K e \<mapsto> e))" "Get \<subseteq>\<^sub>m Get(K e \<mapsto> e)"
  using assms by (auto simp: clean_def map_le_def inj_on_def)

definition with_flag :: "nodeFlag \<Rightarrow> node \<Rightarrow> node" where
  "with_flag f n = (case n of ShortN k v _ \<Rightarrow> ShortN k v f | FullN cs _ \<Rightarrow> FullN cs f | n \<Rightarrow> n)"

text \<open>What \<open>hash\<close> returns for a node that stands for \<open>t\<close>.\<close>

definition hashed_ok :: "(bytes \<Rightarrow> bytes) \<Rightarrow> ('d \<Rightarrow> reader) \<Rightarrow> bytes set \<Rightarrow> bool \<Rightarrow> bool \<Rightarrow> node \<Rightarrow> 'd \<Rightarrow>
    'd \<times> (string, node \<times> node) outcome \<Rightarrow> bool" where
  "hashed_ok K get S commit tp t d r \<longleftrightarrow>
    (\<exists>d' hashed cached. r = (d', Ok (hashed, cached)) \<and> get d \<subseteq>\<^sub>m get d' \<and> clean K S (get d') \<and>
       raw_enc hashed = node_enc (if tp \<or> big K t then HashN (tree_hash K t) else collapse K t) \<and>
       (tp \<or> big K t \<longrightarrow> hashed = HashN (tree_hash K t)) \<and> hashed \<noteq> NilN \<and>
       loads (cached_ok K (get d')) (get d') tp cached t \<and>
       (commit \<longrightarrow> below K (get d') t \<and> (tp \<or> big K t \<longrightarrow> get d' (tree_hash K t) = Some (tree_enc K t))) \<and>
       (\<not> commit \<longrightarrow> d' = d))"

text \<open>The node after its children have been hashed.\<close>

definition children_hashed :: "(bytes \<Rightarrow> bytes) \<Rightarrow> ('d \<Rightarrow> reader) \<Rightarrow> bytes set \<Rightarrow> bool \<Rightarrow> nodeFlag \<Rightarrow> node \<Rightarrow> 'd \<Rightarrow>
    'd \<times> (string, node \<times> node) outcome \<Rightarrow> bool" where
  "children_hashed K get S commit f t d r \<longleftrightarrow>
    (\<exists>d' collapsed cached. r = (d', Ok (collapsed, cached)) \<and> get d \<subseteq>\<^sub>m get d' \<and> clean K S (get d') \<and>
       is_branch collapsed \<and> is_branch cached \<and> flags collapsed = f \<and> flags cached = f \<and> raw_enc collapsed = tree_enc K t \<and>
       (\<forall>tp f' Get. get d' \<subseteq>\<^sub>m Get \<and> flag_ok (cached_ok K Get tp) f' t \<longrightarrow>
          loads (cached_ok K Get) Get tp (with_flag f' cached) t) \<and>
       (commit \<longrightarrow> below K (get d') t) \<and> (\<not> commit \<longrightarrow> d' = d))"

lemma cache_branch: "is_branch n \<Longrightarrow> cache n = Ok (fhash (flags n), fdirty (flags n))"
  by (cases n) (simp_all add: cache_def)

lemma set_cached_branch:
  "is_branch n \<Longrightarrow> set_cached commit h n = with_flag (flags n
    \<lparr>fhash := (case h of HashN h \<Rightarrow> Some h | _ \<Rightarrow> None), fdirty := if commit then False else fdirty (flags n)\<rparr>) n"
  by (cases n) (simp_all add: set_cached_def with_flag_def Let_def)

lemma hash_walk:
  fixes db :: "'d writer option"
  assumes db: "\<And>put. db = Some put \<Longrightarrow> puts_ok get put"
    and c: "children_hashed K get S (db \<noteq> None) f t d (hashChildren K db gen lim n d)"
    and t: "wft t" "tree_enc K t \<in> S" "length (tree_enc K t) < 2 ^ 64"
    and f: "flag_ok (cached_ok K (get d) tp) f t" "fhash f = None \<or> db \<noteq> None \<and> fdirty f"
  shows "hashed_ok K get S (db \<noteq> None) tp t d
    (case hashChildren K db gen lim n d of
          (d, Ok (collapsed, cached)) \<Rightarrow>
            (case store K db collapsed tp d of
               (d, Ok hashed) \<Rightarrow> (d, Ok (hashed, set_cached (db \<noteq> None) hashed cached))
             | (d, Err e) \<Rightarrow> (d, Err e)
             | (d, Panic) \<Rightarrow> (d, Panic))
        | (d, Err e) \<Rightarrow> (d, Err e)
        | (d, Panic) \<Rightarrow> (d, Panic))"
proof -
  obtain d1 col cac where h: "hashChildren K db gen lim n d = (d1, Ok (col, cac))" "get d \<subseteq>\<^sub>m get d1" "clean K S (get d1)"
      "is_branch col" "is_branch cac" "flags col = f" "flags cac = f" "raw_enc col = tree_enc K t"
      "\<And>tp f' Get. get d1 \<subseteq>\<^sub>m Get \<Longrightarrow> flag_ok (cached_ok K Get tp) f' t \<Longrightarrow>
          loads (cached_ok K Get) Get tp (with_flag f' cac) t"
      "db \<noteq> None \<Longrightarrow> below K (get d1) t" "db = None \<Longrightarrow> d1 = d"
    using c unfolding children_hashed_def by blast
  have enc: "Encode buffer_Write [] (node_type col) (node_val col) = (tree_enc K t, Ok ())"
    using Encode_node [of col] h(4,8) t(3) by (cases col) auto
  have st: "store K db col tp d1 =
     (if \<not> big K t \<and> \<not> tp then (d1, Ok col)
      else case db of
         None \<Rightarrow> (d1, Ok (HashN (tree_hash K t)))
       | Some put \<Rightarrow>
           (case put (tree_hash K t) (tree_enc K t) d1 of
              (d, None) \<Rightarrow> (d, Ok (HashN (tree_hash K t)))
            | (d, Some e) \<Rightarrow> (d, Err e)))"
  proof -
    have "(case fhash f of Some h \<Rightarrow> h | None \<Rightarrow> K (tree_enc K t)) = tree_hash K t"
      using f by (auto simp: flag_ok_def cached_ok_def tree_hash_def split: option.splits)
    then show ?thesis using h(4,6) enc
      by (cases col) (auto simp: store_def cache_branch big_def not_le Let_def split: option.splits)
  qed
  show ?thesis
  proof (cases "\<not> big K t \<and> \<not> tp")
    case True
    let ?f = "f\<lparr>fhash := None, fdirty := if db \<noteq> None then False else fdirty f\<rparr>"
    have "flag_ok (cached_ok K (get d1) tp) ?f t"
      using f h(10,11) True by (auto simp: flag_ok_def cached_ok_def split: option.splits)
    then have l: "loads (cached_ok K (get d1)) (get d1) tp (with_flag ?f cac) t" using h(9) by simp
    have "set_cached (db \<noteq> None) col cac = with_flag ?f cac"
      using set_cached_branch [OF h(5), of "db \<noteq> None" col] h(4,7) by (cases col) auto
    then show ?thesis using h True l st by (auto simp: hashed_ok_def tree_enc_def)
  next
    case False
    let ?h = "tree_hash K t"
    have sc: "set_cached (db \<noteq> None) (HashN ?h) cac = with_flag (f\<lparr>fhash := Some ?h, fdirty := if db \<noteq> None then False else fdirty f\<rparr>) cac"
      using set_cached_branch [OF h(5), of "db \<noteq> None" "HashN ?h"] h(7) by auto
    show ?thesis
    proof (cases db)
      case None
      have "flag_ok (cached_ok K (get d) tp) (f\<lparr>fhash := Some ?h\<rparr>) t"
        using f None False by (auto simp: flag_ok_def cached_ok_def split: option.splits)
      then have "loads (cached_ok K (get d)) (get d) tp (with_flag (f\<lparr>fhash := Some ?h\<rparr>) cac) t" using h(9,11) None by simp
      then show ?thesis using h(1,3,11) False st sc None by (auto simp: hashed_ok_def)
    next
      case (Some put)
      obtain d2 where d2: "put ?h (tree_enc K t) d1 = (d2, None)" "get d2 = (get d1)(?h \<mapsto> tree_enc K t)"
        using db [OF Some] unfolding puts_ok_def by blast
      have m: "clean K S (get d2)" "get d1 \<subseteq>\<^sub>m get d2"
        using clean_put [OF h(3) t(2)] by (simp_all add: d2(2) tree_hash_def)
      have s: "stored K (get d2) t" using below_mono [OF _ m(2)] h(10) Some d2(2) by (auto simp: stored_def)
      let ?f = "f\<lparr>fhash := Some ?h, fdirty := False\<rparr>"
      have "flag_ok (cached_ok K (get d2) tp) ?f t" using s False by (auto simp: flag_ok_def cached_ok_def)
      then have "loads (cached_ok K (get d2)) (get d2) tp (with_flag ?f cac) t" using h(9) m(2) by simp
      moreover have "get d \<subseteq>\<^sub>m get d2" using h(2) m(2) by (rule map_le_trans)
      ultimately show ?thesis using h(1) False st sc Some d2(1) m(1) s by (auto simp: hashed_ok_def stored_def)
    qed
  qed
qed

text \<open>The cached hash is used, or the node is walked.\<close>

lemma hash_branch:
  fixes db :: "'d writer option"
  assumes db: "\<And>put. db = Some put \<Longrightarrow> puts_ok get put"
    and K: "hash_len K" "clean K S (get d)" "encs K t \<subseteq> S" "fits K t" "wft t"
    and n: "is_branch n" "flags n = f" "flag_ok (cached_ok K (get d) tp) f t" "loads (cached_ok K (get d)) (get d) tp n t"
    and c: "children_hashed K get S (db \<noteq> None) f t d (hashChildren K db gen lim n d)"
  shows "hashed_ok K get S (db \<noteq> None) tp t d (hasher_hash K db gen lim n tp d)"
proof -
  have b: "is_branch t" using K(5) by (rule wft_branch)
  have S: "tree_enc K t \<in> S" "length (tree_enc K t) < 2 ^ 64" using tree_enc_encs [OF b] K(3,4) by (auto simp: fits_def)
  note walk = hash_walk [OF db c K(5) S n(3)]
  have ca: "cache n = (Ok (fhash f, fdirty f) :: (string, bytes option \<times> bool) outcome)" using cache_branch [OF n(1)] n(2) by simp
  have cu: "canUnload n gen lim = (Ok (nodeFlag_canUnload f gen lim) :: (unit, bool) outcome)" using n(1,2) by (cases n) (auto simp: canUnload_def)
  show ?thesis
  proof (cases "fhash f")
    case None
    then show ?thesis using walk ca by (subst hasher_hash.simps) (simp add: Let_def)
  next
    case (Some h)
    have h: "h = tree_hash K t" "tp \<or> big K t" "\<not> fdirty f \<Longrightarrow> stored K (get d) t"
      using n(3) Some by (auto simp: flag_ok_def cached_ok_def)
    have same: "hashed_ok K get S (db \<noteq> None) tp t d (d, Ok (HashN h, n))" if "db = None \<or> \<not> fdirty f"
      using that h n(4) K(2) by (auto simp: hashed_ok_def stored_def)
    have unload: "hashed_ok K get S (db \<noteq> None) tp t d (d, Ok (HashN h, HashN h))" if "\<not> fdirty f"
      using h(2,3) that loads_stored [OF K(1,5,4) h(3) [OF that] h(2)] K(2) by (auto simp: hashed_ok_def stored_def h(1))
    show ?thesis
      using Some ca cu same unload walk
      by (subst hasher_hash.simps) (auto simp: Let_def nodeFlag_canUnload_def)
  qed
qed

lemma hash_child_loop:
  fixes db :: "'d writer option"
  assumes "list_all2 (\<lambda>c t. c = NilN \<and> t = NilN \<or>
      c \<noteq> NilN \<and> is_branch t \<and> (\<forall>d. G \<subseteq>\<^sub>m get d \<and> clean K S (get d) \<longrightarrow>
        hashed_ok K get S (db \<noteq> None) False t d (hasher_hash K db gen lim c False d))) cs ts"
    and "G \<subseteq>\<^sub>m get d" "clean K S (get d)"
  shows "\<exists>d' ps. hashChild_loop K db gen lim cs d = (d', Ok (None, ps)) \<and> get d \<subseteq>\<^sub>m get d' \<and> clean K S (get d') \<and>
    map (\<lambda>p. raw_enc (fst p)) ps = map (\<lambda>t. node_enc (cref K t)) ts \<and>
    list_all2 (loads (cached_ok K (get d')) (get d') False) (map snd ps) ts \<and>
    (db \<noteq> None \<longrightarrow> (\<forall>t \<in> set ts. is_branch t \<longrightarrow> (big K t \<longrightarrow> get d' (tree_hash K t) = Some (tree_enc K t)) \<and> below K (get d') t)) \<and>
    (db = None \<longrightarrow> d' = d)"
  using assms
proof (induction arbitrary: d rule: list_all2_induct)
  case (Cons c cs t ts)
  from Cons.hyps(1) obtain d1 p where
    p: "(if c = NilN then (d, Ok (ValueN [], NilN)) else hasher_hash K db gen lim c False d) = (d1, Ok p)"
      "get d \<subseteq>\<^sub>m get d1" "clean K S (get d1)" "raw_enc (fst p) = node_enc (cref K t)"
      "loads (cached_ok K (get d1)) (get d1) False (snd p) t"
      "db \<noteq> None \<longrightarrow> is_branch t \<longrightarrow> (big K t \<longrightarrow> get d1 (tree_hash K t) = Some (tree_enc K t)) \<and> below K (get d1) t"
      "db = None \<longrightarrow> d1 = d"
  proof (elim disjE conjE)
    assume "c = NilN" "t = NilN"
    then show ?thesis using Cons.prems(2) by (intro that [of d "(ValueN [], NilN)"]) (auto intro: loads.intros)
  next
    assume c: "c \<noteq> NilN" "is_branch t" "\<forall>d. G \<subseteq>\<^sub>m get d \<and> clean K S (get d) \<longrightarrow>
        hashed_ok K get S (db \<noteq> None) False t d (hasher_hash K db gen lim c False d)"
    then have "hashed_ok K get S (db \<noteq> None) False t d (hasher_hash K db gen lim c False d)" using Cons.prems by blast
    then obtain d1 a b where "hasher_hash K db gen lim c False d = (d1, Ok (a, b))" "get d \<subseteq>\<^sub>m get d1" "clean K S (get d1)"
        "raw_enc a = node_enc (if big K t then HashN (tree_hash K t) else collapse K t)"
        "loads (cached_ok K (get d1)) (get d1) False b t"
        "db \<noteq> None \<longrightarrow> below K (get d1) t \<and> (big K t \<longrightarrow> get d1 (tree_hash K t) = Some (tree_enc K t))" "db = None \<longrightarrow> d1 = d"
      by (auto simp: hashed_ok_def)
    then show ?thesis using c(1,2) by (intro that [of d1 "(a, b)"]) (auto simp: cref_simps)
  qed
  have "G \<subseteq>\<^sub>m get d1" using Cons.prems(1) p(2) by (rule map_le_trans)
  from Cons.IH [OF this p(3)] obtain d2 ps where
    r: "hashChild_loop K db gen lim cs d1 = (d2, Ok (None, ps))" "get d1 \<subseteq>\<^sub>m get d2" "clean K S (get d2)"
      "map (\<lambda>p. raw_enc (fst p)) ps = map (\<lambda>t. node_enc (cref K t)) ts" "list_all2 (loads (cached_ok K (get d2)) (get d2) False) (map snd ps) ts"
      "db \<noteq> None \<longrightarrow> (\<forall>t \<in> set ts. is_branch t \<longrightarrow> (big K t \<longrightarrow> get d2 (tree_hash K t) = Some (tree_enc K t)) \<and> below K (get d2) t)"
      "db = None \<longrightarrow> d2 = d1" by blast
  have "get d \<subseteq>\<^sub>m get d2" using p(2) r(2) by (rule map_le_trans)
  moreover have "loads (cached_ok K (get d2)) (get d2) False (snd p) t" using p(5) r(2) by (rule loads_cached_mono)
  moreover have "get d2 (tree_hash K t) = Some (tree_enc K t)" if "get d1 (tree_hash K t) = Some (tree_enc K t)"
    using r(2) that by (auto simp: map_le_def dom_def)
  moreover have "hashChild_loop K db gen lim (c # cs) d = (d2, Ok (None, p # ps))"
    by (simp only: hashChild_loop.simps p(1) r(1) prod.case outcome.case)
  ultimately show ?case using p(4,6,7) r(3-7) below_mono [OF _ r(2)] by (intro exI [of _ d2] exI [of _ "p # ps"]) auto
qed simp

lemma flag_cached_mono:
  "flag_ok (cached_ok K G tp) f t \<Longrightarrow> G \<subseteq>\<^sub>m G' \<Longrightarrow> flag_ok (cached_ok K G' tp) f t"
  using below_mono [of K G t G'] stored_mono [of K G t G']
  by (auto simp: flag_ok_def cached_ok_def split: option.splits)

lemma loads_to_value: "loads H G tp n (ValueN x) \<Longrightarrow> n = ValueN x"
  by (erule loads.cases) auto

lemma children_hashed_Short:
  fixes db :: "'d writer option"
  assumes l: "loads (cached_ok K G) G False v t" and w: "wft (ShortN k t blank)"
    and G: "G \<subseteq>\<^sub>m get d" "clean K S (get d)"
    and IH: "wft t \<Longrightarrow> hashed_ok K get S (db \<noteq> None) False t d (hasher_hash K db gen lim v False d)"
  shows "children_hashed K get S (db \<noteq> None) f (ShortN k t blank) d (hashChildren K db gen lim (ShortN k v f) d)"
proof (cases "is_value t")
  case True
  then obtain x where x: "t = ValueN x" "v = ValueN x" using l loads_to_value by (auto simp: is_value_iff)
  then show ?thesis using G
    by (auto simp: children_hashed_def hexToCompact_compact tree_enc_def with_flag_def intro!: loads.intros)
next
  case False
  then have "wft t" using w by auto
  from IH [OF this] obtain d1 a b where r: "hasher_hash K db gen lim v False d = (d1, Ok (a, b))" "get d \<subseteq>\<^sub>m get d1"
      "clean K S (get d1)" "raw_enc a = node_enc (cref K t)" "a \<noteq> NilN" "loads (cached_ok K (get d1)) (get d1) False b t"
      "db \<noteq> None \<longrightarrow> below K (get d1) t \<and> (big K t \<longrightarrow> get d1 (tree_hash K t) = Some (tree_enc K t))" "db = None \<longrightarrow> d1 = d"
    using wft_branch [OF \<open>wft t\<close>] by (auto simp: hashed_ok_def cref_simps)
  have "hashChildren K db gen lim (ShortN k v f) d = (d1, Ok (ShortN (compact k) a f, ShortN k b f))"
    using r(1,5) l \<open>wft t\<close> by (cases v) (auto simp: hexToCompact_compact)
  moreover have "loads (cached_ok K Get) Get tp (with_flag f' (ShortN k b f)) (ShortN k t blank)"
    if "get d1 \<subseteq>\<^sub>m Get" "flag_ok (cached_ok K Get tp) f' (ShortN k t blank)" for tp f' Get
    using that loads_cached_mono [OF r(6)] by (auto simp: with_flag_def intro!: loads.intros)
  ultimately show ?thesis using r by (auto simp: children_hashed_def tree_enc_def)
qed

lemma children_hashed_Full:
  fixes db :: "'d writer option"
  assumes l: "length cs = 17" "\<And>i. i < 17 \<Longrightarrow> loads (cached_ok K G) G False (cs ! i) (ts ! i)" and w: "wft (FullN ts blank)"
    and G: "G \<subseteq>\<^sub>m get d" "clean K S (get d)"
    and IH: "\<And>i d. i < 17 \<Longrightarrow> wft (ts ! i) \<Longrightarrow> G \<subseteq>\<^sub>m get d \<Longrightarrow> clean K S (get d) \<Longrightarrow>
      hashed_ok K get S (db \<noteq> None) False (ts ! i) d (hasher_hash K db gen lim (cs ! i) False d)"
  shows "children_hashed K get S (db \<noteq> None) f (FullN ts blank) d (hashChildren K db gen lim (FullN cs f) d)"
proof -
  have lt: "length ts = 17" using w by (simp add: wft_FullN)
  have "list_all2 (\<lambda>c t. c = NilN \<and> t = NilN \<or>
      c \<noteq> NilN \<and> is_branch t \<and> (\<forall>d. G \<subseteq>\<^sub>m get d \<and> clean K S (get d) \<longrightarrow>
        hashed_ok K get S (db \<noteq> None) False t d (hasher_hash K db gen lim c False d))) (take 16 cs) (take 16 ts)"
  proof (rule list_all2_all_nthI)
    fix i assume "i < length (take 16 cs)"
    then have i: "i < 16" "i < 17" by simp_all
    then have "ts ! i = NilN \<or> wft (ts ! i)" using w by (simp add: wft_FullN)
    then show "take 16 cs ! i = NilN \<and> take 16 ts ! i = NilN \<or>
      take 16 cs ! i \<noteq> NilN \<and> is_branch (take 16 ts ! i) \<and> (\<forall>d. G \<subseteq>\<^sub>m get d \<and> clean K S (get d) \<longrightarrow>
        hashed_ok K get S (db \<noteq> None) False (take 16 ts ! i) d (hasher_hash K db gen lim (take 16 cs ! i) False d))"
      using loads_Nil_iff [OF l(2) [OF i(2)]] IH [OF i(2)] i wft_branch by auto
  qed (use l lt in simp)
  from hash_child_loop [OF this G] obtain d1 ps where
    r: "hashChild_loop K db gen lim (take 16 cs) d = (d1, Ok (None, ps))" "get d \<subseteq>\<^sub>m get d1" "clean K S (get d1)"
      "map (\<lambda>p. raw_enc (fst p)) ps = map (\<lambda>t. node_enc (cref K t)) (take 16 ts)"
      "list_all2 (loads (cached_ok K (get d1)) (get d1) False) (map snd ps) (take 16 ts)"
      "db \<noteq> None \<longrightarrow> (\<forall>t \<in> set (take 16 ts). is_branch t \<longrightarrow> (big K t \<longrightarrow> get d1 (tree_hash K t) = Some (tree_enc K t)) \<and> below K (get d1) t)"
      "db = None \<longrightarrow> d1 = d" by blast
  have ts: "ts = take 16 ts @ [ts ! 16]" using lt by (simp add: take_Suc_conv_app_nth [symmetric])
  obtain v where v: "cs ! 16 = v" "v = ts ! 16" "v = NilN \<or> is_value v"
    using w l(2) [of 16] loads_Nil_iff [OF l(2) [of 16]] by (auto simp: wft_FullN is_value_iff dest!: loads_to_value)
  let ?v = "if v = NilN then ValueN [] else v"
  have e: "hashChildren K db gen lim (FullN cs f) d = (d1, Ok (FullN (map fst ps @ [?v]) f, FullN (map snd ps @ [v]) f))"
    using r(1) l(1) v(1) by (simp add: index_def)
  have enc: "raw_enc (FullN (map fst ps @ [?v]) f) = tree_enc K (FullN ts blank)"
  proof -
    have "raw_enc ?v = node_enc (cref K (ts ! 16))" using v by (auto simp: is_value_iff)
    then have "map raw_enc (map fst ps @ [?v]) = map (\<lambda>t. node_enc (cref K t)) (take 16 ts @ [ts ! 16])"
      using r(4) by (simp add: comp_def)
    then show ?thesis unfolding ts [symmetric] by (simp add: tree_enc_def comp_def)
  qed
  have "loads (cached_ok K Get) Get tp (with_flag f' (FullN (map snd ps @ [v]) f)) (FullN ts blank)"
    if Get: "get d1 \<subseteq>\<^sub>m Get" "flag_ok (cached_ok K Get tp) f' (FullN ts blank)" for tp f' Get
  proof -
    have "list_all2 (loads (cached_ok K Get) Get False) (map snd ps) (take 16 ts)"
      using r(5) by (rule list_all2_mono) (rule loads_cached_mono [OF _ Get(1)])
    moreover have "loads (cached_ok K Get) Get False v (ts ! 16)" using v by (auto simp: is_value_iff intro: loads.intros)
    ultimately have "list_all2 (loads (cached_ok K Get) Get False) (map snd ps @ [v]) (take 16 ts @ [ts ! 16])"
      by (intro list_all2_appendI) auto
    then show ?thesis using Get(2) unfolding ts [symmetric]
      by (auto simp: with_flag_def list_all2_conv_all_nth intro!: loads.intros)
  qed
  moreover have "below K (get d1) (FullN ts blank)" if "db \<noteq> None"
  proof -
    have "set ts = insert (ts ! 16) (set (take 16 ts))" using arg_cong [OF ts, of set] by simp
    moreover have "\<not> is_branch (ts ! 16)" using v by (auto simp: is_value_iff)
    ultimately show ?thesis using r(6) that by auto
  qed
  ultimately show ?thesis using e enc r(2,3,7) unfolding children_hashed_def by auto
qed

lemma hash_correct:
  fixes db :: "'d writer option"
  assumes db: "\<And>put. db = Some put \<Longrightarrow> puts_ok get put" and K: "hash_len K"
    and "loads (cached_ok K G) G tp n t" "wft t" "fits K t" "encs K t \<subseteq> S" "G \<subseteq>\<^sub>m get d" "clean K S (get d)"
  shows "hashed_ok K get S (db \<noteq> None) tp t d (hasher_hash K db gen lim n tp d)"
  using assms(3-)
proof (induction arbitrary: d rule: loads.induct)
  case (loads_Short v t tp f k)
  let ?t = "ShortN k t blank"
  have "loads (cached_ok K G) G tp (ShortN k v f) ?t" using loads_Short.hyps by (rule loads.intros)
  moreover have "children_hashed K get S (db \<noteq> None) f ?t d (hashChildren K db gen lim (ShortN k v f) d)"
    using loads_Short.hyps(1) loads_Short.prems(1,4,5)
    by (rule children_hashed_Short) (use loads_Short in \<open>auto simp: fits_simps\<close>)
  ultimately show ?case
    using db K loads_Short.prems loads_Short.hyps(2)
    by (intro hash_branch) (auto intro: loads_cached_mono flag_cached_mono)
next
  case (loads_Full cs ts tp f)
  let ?t = "FullN ts blank"
  have l: "length ts = 17" using loads_Full.prems(1) by (simp add: wft_FullN)
  have "loads (cached_ok K G) G tp (FullN cs f) ?t" using loads_Full.hyps by (rule loads.intros)
  moreover have "children_hashed K get S (db \<noteq> None) f ?t d (hashChildren K db gen lim (FullN cs f) d)"
  proof (rule children_hashed_Full)
    fix i d assume i: "i < (17 :: nat)" "wft (ts ! i)" "G \<subseteq>\<^sub>m get d" "clean K S (get d)"
    have "ts ! i \<in> set ts" using i l by simp
    then show "hashed_ok K get S (db \<noteq> None) False (ts ! i) d (hasher_hash K db gen lim (cs ! i) False d)"
      using loads_Full.IH [of i d] loads_Full.prems i l by (auto simp: fits_simps UN_subset_iff)
  qed (use loads_Full l in auto)
  ultimately show ?case
    using db K loads_Full.prems loads_Full.hyps(3)
    by (intro hash_branch) (auto intro: loads_cached_mono flag_cached_mono)
next
  case (loads_Hash h b tp t)
  have h: "h = tree_hash K t" "tp \<or> big K t" "stored K G t" using loads_Hash.hyps(2) by (auto simp: cached_ok_def)
  have "stored K (get d) t" using stored_mono [OF h(3)] loads_Hash.prems by blast
  moreover have "loads (cached_ok K (get d)) (get d) tp (HashN h) t"
    using loads_stored [OF K _ _ \<open>stored K (get d) t\<close> h(2)] loads_Hash.prems h(1) by simp
  moreover have "hasher_hash K db gen lim (HashN h) tp d = (d, Ok (HashN h, HashN h))"
    by (subst hasher_hash.simps) (simp add: cache_def store_def set_cached_def Let_def)
  ultimately show ?case using h loads_Hash.prems(5) by (auto simp: hashed_ok_def stored_def)
qed simp_all

section \<open>The root hash\<close>

text \<open>
  What is asked of the hash function and the database: hashes have 32 bytes, the encodings \<open>S\<close> that are in
  play do not collide, and none hashes to one of the two values \<open>New\<close> takes for the empty trie.
\<close>

definition sound_hash :: "(bytes \<Rightarrow> bytes) \<Rightarrow> bytes set \<Rightarrow> reader \<Rightarrow> bool" where
  "sound_hash K S Get \<longleftrightarrow> hash_len K \<and> clean K S Get \<and> emptyRoot \<notin> K ` S \<and> replicate 32 0 \<notin> K ` S"

text \<open>The nodes of a trie for \<open>m\<close> are encoded within \<open>S\<close>, in sizes that fit a machine word.\<close>

definition encoded_in :: "(bytes \<Rightarrow> bytes) \<Rightarrow> bytes set \<Rightarrow> (bytes \<rightharpoonup> bytes) \<Rightarrow> bool" where
  "encoded_in K S m \<longleftrightarrow> (\<forall>t. tree_map t m \<longrightarrow> fits K t \<and> encs K t \<subseteq> S)"

definition root_hash :: "(bytes \<Rightarrow> bytes) \<Rightarrow> node \<Rightarrow> bytes" where
  "root_hash K t = (if t = NilN then emptyRoot else tree_hash K t)"

lemma BytesToHash_32: "length h = 32 \<Longrightarrow> BytesToHash h = h"
  by (simp add: BytesToHash_def)

lemma length_emptyRoot: "length emptyRoot = 32"
  by (simp add: emptyRoot_def)

lemma tree_map_wft: "tree_map t m \<Longrightarrow> t = NilN \<or> wft t"
  by (simp add: tree_map_def)

lemma loads_of_Nil: "loads H G tp n NilN \<Longrightarrow> n = NilN"
  by (erule loads.cases) auto

lemma hashRoot_correct:
  fixes db :: "'d writer option"
  assumes "\<And>put. db = Some put \<Longrightarrow> puts_ok get put" "sound_hash K S (get d)" "encoded_in K S m"
    and t: "loads (cached_ok K (get d)) (get d) True (root T) t" "tree_map t m"
  shows "\<exists>d' c. hashRoot K db T d = (d', Ok (HashN (root_hash K t), c)) \<and> get d \<subseteq>\<^sub>m get d' \<and> sound_hash K S (get d') \<and>
    loads (cached_ok K (get d')) (get d') True c t \<and> (db \<noteq> None \<and> t \<noteq> NilN \<longrightarrow> stored K (get d') t) \<and> (db = None \<longrightarrow> d' = d)"
proof (cases "t = NilN")
  case True
  then show ?thesis using t(1) assms(2) loads_of_Nil by (auto simp: hashRoot_def root_hash_def intro: loads.intros)
next
  case False
  then have w: "wft t" using tree_map_wft [OF t(2)] by simp
  have "hashed_ok K get S (db \<noteq> None) True t d (hasher_hash K db (cachegen T) (cachelimit T) (root T) True d)"
    using assms w by (intro hash_correct) (auto simp: sound_hash_def encoded_in_def)
  moreover have "root T \<noteq> NilN" using t(1) False by auto
  ultimately show ?thesis using False assms(2)
    by (fastforce simp: hashed_ok_def hashRoot_def root_hash_def stored_def sound_hash_def)
qed

lemma length_root_hash: "hash_len K \<Longrightarrow> length (root_hash K t) = 32"
  by (simp add: root_hash_def hash_len_def tree_hash_def length_emptyRoot)

lemma Trie_Hash_repr:
  assumes "Trie_repr (cached_ok K G) G T m" "sound_hash K S G" "encoded_in K S m"
  shows "\<exists>t T'. tree_map t m \<and> Trie_Hash K T = Ok (root_hash K t, T') \<and> Trie_repr (cached_ok K G) G T' m"
proof -
  obtain t where t: "loads (cached_ok K G) G True (root T) t" "tree_map t m" using assms by (auto simp: Trie_repr_def)
  then obtain c where "hashRoot K (None :: unit writer option) T () = ((), Ok (HashN (root_hash K t), c))"
      "loads (cached_ok K G) G True c t"
    using hashRoot_correct [of "None :: unit writer option" "\<lambda>_. G" K S "()" m T t] assms by auto
  then show ?thesis using t(2) assms(2) length_root_hash
    by (intro exI [of _ t] exI [of _ "T\<lparr>root := c\<rparr>"]) (auto simp: Trie_Hash_def Trie_repr_def sound_hash_def BytesToHash_32)
qed

text \<open>A database with all the encodings: a hash determines the tree.\<close>

lemma loads_functional: "loads H G tp n t \<Longrightarrow> loads H' G tp n t' \<Longrightarrow> t = t'"
proof (induction arbitrary: t' rule: loads.induct)
  case (loads_Full cs ts tp f)
  from loads_Full.prems obtain ts' where t': "t' = FullN ts' blank" "length cs = length ts'"
      "\<And>i. i < length ts' \<Longrightarrow> loads H' G False (cs ! i) (ts' ! i)"
    by (rule loads_FullE) auto
  have "ts = ts'" using t' loads_Full.IH loads_Full.hyps by (intro nth_equalityI) auto
  then show ?case using t'(1) by simp
next
  case (loads_Hash h b tp t)
  from loads_Hash.prems obtain n where "decodeNode (Some h) b 0 = Ok n" "loads H' G tp n t'"
    using loads_Hash.hyps(1) by (auto elim!: loads_HashE dest: spec [of _ 0])
  then show ?case using loads_Hash.IH [of 0] by auto
qed (erule loads.cases; force)+

definition full_db :: "(bytes \<Rightarrow> bytes) \<Rightarrow> bytes set \<Rightarrow> reader" where
  "full_db K S h = (if h \<in> K ` S then Some (the_inv_into S K h) else None)"

lemma full_db: "inj_on K S \<Longrightarrow> e \<in> S \<Longrightarrow> full_db K S (K e) = Some e"
  by (simp add: full_db_def the_inv_into_f_f)

lemma below_full_db: "inj_on K S \<Longrightarrow> encs K t \<subseteq> S \<Longrightarrow> below K (full_db K S) t"
proof (induction K "full_db K S" t rule: below.induct)
qed (auto simp: tree_hash_def UN_subset_iff intro!: full_db subsetD [OF _ tree_enc_encs])

lemma tree_hash_inj:
  assumes "sound_hash K S G" "encs K t \<subseteq> S" "encs K u \<subseteq> S" "fits K t" "fits K u" "wft t" "wft u"
    and eq: "tree_hash K t = tree_hash K u"
  shows "t = u"
proof -
  have "loads (cached_ok K (full_db K S)) (full_db K S) True (HashN (tree_hash K x)) x"
    if x: "encs K x \<subseteq> S" "fits K x" "wft x" for x
  proof -
    have "stored K (full_db K S) x" using assms(1) x below_full_db [of K S x] wft_branch [OF x(3)] tree_enc_encs [of x K]
      by (auto simp: stored_def tree_hash_def sound_hash_def clean_def full_db)
    then show ?thesis using x assms(1) loads_stored by (auto simp: sound_hash_def)
  qed
  from this [of t] this [of u] show ?thesis using assms loads_functional by metis
qed

lemma root_hash_inj:
  assumes "sound_hash K S G" "encoded_in K S m" "encoded_in K S m'" "tree_map t m" "tree_map u m'"
  shows "root_hash K t = root_hash K u \<longleftrightarrow> m = m'"
proof
  have e: "encs K t \<subseteq> S" "encs K u \<subseteq> S" "fits K t" "fits K u" using assms by (auto simp: encoded_in_def)
  have h: "tree_hash K x \<noteq> emptyRoot" if "encs K x \<subseteq> S" "wft x" for x
    using that assms(1) tree_enc_encs [of x K] wft_branch [of x] unfolding sound_hash_def tree_hash_def
    by (metis image_eqI subsetD)
  assume "root_hash K t = root_hash K u"
  then have "t = u" using tree_map_wft [OF assms(4)] tree_map_wft [OF assms(5)] e h [of t] h [of u] tree_hash_inj [OF assms(1) e]
    by (auto simp: root_hash_def split: if_splits)
  then show "m = m'" using assms(4,5) by (simp add: tree_map_def)
next
  assume "m = m'"
  then show "root_hash K t = root_hash K u" using tree_map_unique assms(4,5) by metis
qed

text \<open>
  C4. The root hash stands for the map: \<open>Hash\<close> of two tries, however they were built and whatever is loaded
  of them, returns, keeps their contents, and gives the same 32 bytes exactly when the two maps are the same.
\<close>
theorem Trie_Hash_iff_map:
  assumes "Trie_repr (cached_ok K G) G T m" "Trie_repr (cached_ok K G') G' T' m'"
    and "sound_hash K S G" "sound_hash K S G'" "encoded_in K S m" "encoded_in K S m'"
  shows "\<exists>h U h' U'. Trie_Hash K T = Ok (h, U) \<and> Trie_Hash K T' = Ok (h', U') \<and> length h = 32 \<and> (h = h' \<longleftrightarrow> m = m') \<and>
    Trie_repr (cached_ok K G) G U m \<and> Trie_repr (cached_ok K G') G' U' m'"
  using Trie_Hash_repr [OF assms(1,3,5)] Trie_Hash_repr [OF assms(2,4,6)] root_hash_inj [OF assms(3,5,6)] assms(3)
  by (fastforce simp: sound_hash_def length_root_hash)

lemma New_stored:
  assumes "loads (cached_ok K G) G True (HashN h) t" "tree_map t m" "h \<noteq> emptyRoot" "h \<noteq> replicate 32 0"
  shows "\<exists>T. New h (Some G) = Ok T \<and> Trie_repr (cached_ok K G) G T m"
proof -
  obtain b n where "G h = Some b" "decodeNode (Some h) b 0 = Ok n" "loads (cached_ok K G) G True n t"
    using assms(1) by (rule loads_HashE) fastforce
  then show ?thesis using assms(2-) by (auto simp: New_def resolveHash_def mustDecodeNode_def Trie_repr_def)
qed

lemma New_root_hash:
  assumes "sound_hash K S G" "encoded_in K S m" "tree_map t m" "t \<noteq> NilN \<longrightarrow> stored K G t"
  shows "\<exists>T. New (root_hash K t) (Some G) = Ok T \<and> Trie_repr (cached_ok K G) G T m"
proof (cases "t = NilN")
  case True
  then have "m = Map.empty" using assms(3) by (auto simp: tree_map_def)
  moreover obtain T where T: "New emptyRoot (Some G) = Ok T" by (auto simp: New_def)
  ultimately show ?thesis using True New_empty [OF T] by (auto simp: root_hash_def)
next
  case False
  then have w: "wft t" using tree_map_wft [OF assms(3)] by simp
  have e: "encs K t \<subseteq> S" "fits K t" using assms by (auto simp: encoded_in_def)
  then have "tree_hash K t \<in> K ` S" using tree_enc_encs [OF wft_branch [OF w], of K] by (auto simp: tree_hash_def)
  then have "tree_hash K t \<noteq> emptyRoot" "tree_hash K t \<noteq> replicate 32 0" using assms(1) by (auto simp: sound_hash_def)
  then show ?thesis using New_stored [OF loads_stored] assms False w e by (auto simp: root_hash_def sound_hash_def)
qed

text \<open>
  C5. Committing is durable: \<open>CommitTo\<close> returns the root hash, the database only gains entries, the trie keeps
  its contents, and \<open>New\<close> on the returned hash and the new database is again a trie for the same map.
\<close>
theorem Trie_Commit_reopen:
  assumes "Trie_repr (cached_ok K (get d)) (get d) T m" "puts_ok get put" "sound_hash K S (get d)" "encoded_in K S m"
  shows "\<exists>d' h T'. Trie_Commit K (Some put) T d = (d', Ok h, T') \<and> get d \<subseteq>\<^sub>m get d' \<and> sound_hash K S (get d') \<and>
    Trie_repr (cached_ok K (get d')) (get d') T' m \<and>
    (\<exists>T''. New h (Some (get d')) = Ok T'' \<and> Trie_repr (cached_ok K (get d')) (get d') T'' m)"
proof -
  obtain t where t: "loads (cached_ok K (get d)) (get d) True (root T) t" "tree_map t m" using assms by (auto simp: Trie_repr_def)
  then obtain d' c where r: "hashRoot K (Some put) T d = (d', Ok (HashN (root_hash K t), c))" "get d \<subseteq>\<^sub>m get d'" "sound_hash K S (get d')"
      "loads (cached_ok K (get d')) (get d') True c t" "t \<noteq> NilN \<longrightarrow> stored K (get d') t"
    using hashRoot_correct [of "Some put" get K S d m T t] assms by auto
  have "BytesToHash (root_hash K t) = root_hash K t"
    using r(3) length_root_hash by (auto simp: sound_hash_def intro: BytesToHash_32)
  then show ?thesis using r New_root_hash [OF r(3) assms(4) t(2) r(5)] t(2)
    by (auto simp: Trie_Commit_def Trie_CommitTo_def Trie_repr_def)
qed

section \<open>An instance\<close>

text \<open>A trie with one entry over a database that is a map, with a padded copy in the place of the hash.\<close>

definition pad_hash :: "bytes \<Rightarrow> bytes" where
  "pad_hash b = take 32 (1 # b @ replicate 32 0)"

definition put_map :: "(bytes \<rightharpoonup> bytes) writer" where
  "put_map k v d = (d(k \<mapsto> v), None)"

definition leaf :: "nodeFlag \<Rightarrow> node" where
  "leaf f = ShortN [1, 2, 16] (ValueN [7]) f"

definition leaf_trie :: Trie where
  "leaf_trie = \<lparr>root = leaf \<lparr>fhash = None, fgen = 0, fdirty = True\<rparr>, originalRoot = replicate 32 0, cachegen = 0, cachelimit = 0\<rparr>"

definition empty_trie :: Trie where
  "empty_trie = \<lparr>root = NilN, originalRoot = replicate 32 0, cachegen = 0, cachelimit = 0\<rparr>"

lemma keybytesToHex_12: "keybytesToHex [0x12] = [1, 2, 16]"
  by (simp add: keybytesToHex_def)

lemma content_leaf: "content (leaf blank) q = (if q = [1, 2, 16] then Some [7] else None)"
  unfolding leaf_def by (rule content_Short_cases) auto

lemma tree_map_leaf: "tree_map (leaf blank) [[0x12] \<mapsto> [7]]"
proof -
  have "wft (leaf blank)" by (simp add: leaf_def tkey_iff is_value_iff)
  moreover have "content (leaf blank) (keybytesToHex k) = ([[0x12] \<mapsto> [7]]) k" for k
    unfolding content_leaf keybytesToHex_12 [symmetric] by simp
  moreover have "q \<in> range keybytesToHex" if "content (leaf blank) q \<noteq> None" for q
    using that unfolding content_leaf keybytesToHex_12 [symmetric] by (auto split: if_splits)
  ultimately show ?thesis unfolding tree_map_def fun_eq_iff by simp
qed

lemma leaf_repr: "Trie_repr (cached_ok K G) G leaf_trie [[0x12] \<mapsto> [7]]"
proof -
  have "loads (cached_ok K G) G True (root leaf_trie) (leaf blank)"
    by (auto simp: leaf_trie_def leaf_def flag_ok_def intro!: loads.intros)
  then show ?thesis using tree_map_leaf by (auto simp: Trie_repr_def)
qed

lemma empty_repr: "Trie_repr (cached_ok K G) G empty_trie Map.empty"
  by (auto simp: Trie_repr_def empty_trie_def tree_map_def)

lemma encoded_leaf: "encoded_in pad_hash {tree_enc pad_hash (leaf blank)} [[0x12] \<mapsto> [7]]"
proof -
  have "encs pad_hash (leaf blank) = {tree_enc pad_hash (leaf blank)}" by (simp add: leaf_def)
  moreover have "compact [1, 2, 16] = [0x20, 0x12]" by code_simp
  then have "length (tree_enc pad_hash (leaf blank)) = 5"
    by (simp add: leaf_def tree_enc_def cref_simps rlp_list_def rlp_str_def rlp_head_def)
  ultimately show ?thesis using tree_map_unique [OF _ tree_map_leaf] unfolding encoded_in_def fits_def by auto
qed

lemma encoded_empty: "encoded_in K S Map.empty"
proof -
  have "t = NilN" if "tree_map t Map.empty" for t
    using that by (rule tree_map_unique) (simp add: tree_map_def)
  then have "fits K t \<and> encs K t \<subseteq> S" if "tree_map t Map.empty" for t
    using that by (force simp: fits_def)
  then show ?thesis by (simp add: encoded_in_def)
qed

lemma sound_pad_hash: "sound_hash pad_hash {e} Map.empty"
proof -
  have "hd (pad_hash b) = 1" "hd emptyRoot \<noteq> 1" "hd (replicate 32 (0 :: byte)) \<noteq> 1" for b
    by (simp_all add: pad_hash_def emptyRoot_def)
  then have "emptyRoot \<noteq> pad_hash b" "replicate 32 0 \<noteq> pad_hash b" for b by metis+
  then have "emptyRoot \<notin> pad_hash ` {e}" "replicate 32 0 \<notin> pad_hash ` {e}" by blast+
  moreover have "hash_len pad_hash" by (auto simp: hash_len_def pad_hash_def min_def)
  ultimately show ?thesis by (simp add: sound_hash_def clean_def)
qed

lemma Trie_Hash_iff_map_witness:
  "\<exists>h U h' U'. Trie_Hash pad_hash leaf_trie = Ok (h, U) \<and> Trie_Hash pad_hash empty_trie = Ok (h', U') \<and> h \<noteq> h'"
  using Trie_Hash_iff_map [OF leaf_repr empty_repr sound_pad_hash sound_pad_hash encoded_leaf encoded_empty]
  by (metis map_upd_nonempty)

lemma Trie_Commit_reopen_witness:
  "\<exists>d h T T'. Trie_Commit pad_hash (Some put_map) leaf_trie Map.empty = (d, Ok h, T) \<and> New h (Some d) = Ok T' \<and>
    Trie_repr (cached_ok pad_hash d) d T' [[0x12] \<mapsto> [7]]"
proof -
  have p: "puts_ok (\<lambda>d. d) put_map" by (simp add: puts_ok_def put_map_def)
  show ?thesis using Trie_Commit_reopen [where get = "\<lambda>d. d" and d = Map.empty, OF leaf_repr p sound_pad_hash encoded_leaf]
    by (elim exE conjE) (intro exI conjI; assumption)
qed

end
