(* ===== verification/TrieProof.thy ===== *)
theory TrieProof
  imports TrieCommit
begin

text \<open>
  Merkle proofs of the trie, \<open>chain/space/trie/proof.go\<close>. The loop of \<open>VerifyProof\<close> follows whatever hashes the proof
  database contains and is a partial function. The loop of \<open>Prove\<close> over the path has one round per node
  passed; it is a partial function too, since it loads nodes from the database.
\<close>

section \<open>The code\<close>

datatype proof_error = ProofNodeMissing nat bytes | BadProofNode nat node_error

function (sequential) trie_get :: "node \<Rightarrow> bytes \<Rightarrow> (proof_error, bytes \<times> node) outcome" where
  "trie_get (ShortN k v f) key =
    (if length key < length k \<or> k \<noteq> take (length k) key then Ok ([], NilN) else trie_get v (drop (length k) key))"
| "trie_get (FullN cs f) key =
    (case key of
       [] \<Rightarrow> Panic
     | x # r \<Rightarrow> if unat x < length cs then trie_get (cs ! unat x) r else Panic)"
| "trie_get (HashN h) key = Ok (key, HashN h)"
| "trie_get NilN key = Ok (key, NilN)"
| "trie_get (ValueN v) key = Ok ([], ValueN v)"
  by pat_completeness auto
termination
  by (relation "measure (\<lambda>(n, q). size n)") (auto simp: less_Suc_eq_le intro!: size_list_estimation' trans_le_add1)

partial_function (option) VerifyProof_loop :: "reader \<Rightarrow> nat \<Rightarrow> bytes \<Rightarrow> bytes \<Rightarrow> (proof_error, bytes option \<times> nat) run" where
  "VerifyProof_loop proofDb i wantHash key =
    (case proofDb wantHash of
       None \<Rightarrow> Some (Err (ProofNodeMissing i wantHash))
     | Some buf \<Rightarrow>
         rbind (Some (omap_err (BadProofNode i) (decodeNode (Some wantHash) buf 0))) (\<lambda>n.
         rbind (Some (trie_get n key)) (\<lambda>(keyrest, cld).
           case cld of
             NilN \<Rightarrow> Some (Ok (None, i))
           | HashN h \<Rightarrow> VerifyProof_loop proofDb (i + 1) h keyrest
           | ValueN v \<Rightarrow> Some (Ok (Some v, i + 1))
           | _ \<Rightarrow> None)))"

definition VerifyProof :: "bytes \<Rightarrow> bytes \<Rightarrow> reader \<Rightarrow> (proof_error, bytes option \<times> nat) run" where
  "VerifyProof rootHash key proofDb = VerifyProof_loop proofDb 0 rootHash (keybytesToHex key)"

partial_function (option) Prove_path :: "reader option \<Rightarrow> u16 \<Rightarrow> node list \<Rightarrow> node \<Rightarrow> bytes \<Rightarrow> (trie_error, node list) run" where
  "Prove_path db gen nodes tn key =
    (if length key > 0 \<and> tn \<noteq> NilN then
       case tn of
         ShortN k v f \<Rightarrow>
           if length key < length k \<or> k \<noteq> take (length k) key then Prove_path db gen (nodes @ [tn]) NilN key
           else Prove_path db gen (nodes @ [tn]) v (drop (length k) key)
       | FullN cs f \<Rightarrow>
           rbind (Some (child cs (hd key))) (\<lambda>c. Prove_path db gen (nodes @ [tn]) c (tl key))
       | HashN h \<Rightarrow> rbind (Some (resolveHash db gen h [])) (\<lambda>n. Prove_path db gen nodes n key)
       | _ \<Rightarrow> Some Panic
     else Some (Ok nodes))"

text \<open>
  The second loop: \<open>first\<close> is \<open>i == 0\<close>. Errors of the writer are ignored, as in the source. The collapsed node is
  encoded again by \<open>EncodeToBytes\<close>, whose error is ignored, too.
\<close>

fun Prove_nodes :: "(bytes \<Rightarrow> bytes) \<Rightarrow> 'd writer \<Rightarrow> bool \<Rightarrow> nat \<Rightarrow> node list \<Rightarrow> 'd \<Rightarrow> 'd \<times> (unit, unit) outcome" where
  "Prove_nodes K proofDb first fromLevel [] d = (d, Ok ())"
| "Prove_nodes K proofDb first fromLevel (n # nodes) d =
    (case snd (hashChildren K (None :: unit writer option) 0 0 n ()) of
       Ok (n, _) \<Rightarrow>
         (case snd (store K (None :: unit writer option) n False ()) of
            Ok hn \<Rightarrow>
              let ok = (case hn of HashN _ \<Rightarrow> True | _ \<Rightarrow> False)
              in if ok \<or> first then
                   if fromLevel > 0 then Prove_nodes K proofDb False (fromLevel - 1) nodes d
                   else
                     let enc = (case EncodeToBytes (node_type n) (node_val n) of Ok b \<Rightarrow> b | _ \<Rightarrow> []);
                         hash = (case hn of HashN h \<Rightarrow> h | _ \<Rightarrow> K enc)
                     in Prove_nodes K proofDb False fromLevel nodes (fst (proofDb hash enc d))
                 else Prove_nodes K proofDb False fromLevel nodes d
          | _ \<Rightarrow> (d, Panic))
     | _ \<Rightarrow> (d, Panic))"

definition Prove :: "(bytes \<Rightarrow> bytes) \<Rightarrow> reader option \<Rightarrow> Trie \<Rightarrow> bytes \<Rightarrow> nat \<Rightarrow> 'd writer \<Rightarrow> 'd \<Rightarrow> ('d \<times> (trie_error, unit) outcome) option" where
  "Prove K db t key fromLevel proofDb d =
    (case Prove_path db (cachegen t) [] (root t) (keybytesToHex key) of
       None \<Rightarrow> None
     | Some (Ok nodes) \<Rightarrow>
         (case Prove_nodes K proofDb True fromLevel nodes d of
            (d, Ok _) \<Rightarrow> Some (d, Ok ())
          | (d, _) \<Rightarrow> Some (d, Panic))
     | Some (Err e) \<Rightarrow> Some (d, Err e)
     | Some Panic \<Rightarrow> Some (d, Panic))"

section \<open>What is needed for a proof\<close>

text \<open>The nodes on the path of \<open>q\<close> that have hashes, and the top node, are in the database.\<close>

function (sequential) proves :: "(bytes \<Rightarrow> bytes) \<Rightarrow> reader \<Rightarrow> bool \<Rightarrow> node \<Rightarrow> bytes \<Rightarrow> bool" where
  "proves K Get tp (ShortN k v f) q \<longleftrightarrow>
    (tp \<or> big K (ShortN k v f) \<longrightarrow> Get (tree_hash K (ShortN k v f)) = Some (tree_enc K (ShortN k v f))) \<and>
    (take (length k) q = k \<longrightarrow> proves K Get False v (drop (length k) q))"
| "proves K Get tp (FullN cs f) q \<longleftrightarrow>
    (tp \<or> big K (FullN cs f) \<longrightarrow> Get (tree_hash K (FullN cs f)) = Some (tree_enc K (FullN cs f))) \<and>
    (case q of [] \<Rightarrow> True | x # r \<Rightarrow> unat x < length cs \<longrightarrow> proves K Get False (cs ! unat x) r)"
| "proves K Get tp n q \<longleftrightarrow> True"
  by pat_completeness auto
termination
  by (relation "measure (\<lambda>(K, Get, tp, n, q). size n)") (auto simp: less_Suc_eq_le intro!: size_list_estimation' trans_le_add1)

text \<open>Where \<open>get\<close> stops in a parsed node: at the end of the key, or at a hash.\<close>

definition get_ok :: "(bytes \<Rightarrow> bytes) \<Rightarrow> reader \<Rightarrow> nat \<Rightarrow> bytes option \<Rightarrow> bytes \<Rightarrow> node \<Rightarrow> bool" where
  "get_ok K Get sz v r n \<longleftrightarrow>
    (n = NilN \<and> v = None \<or> (\<exists>x. n = ValueN x \<and> v = Some x) \<or>
     (\<exists>u. n = HashN (tree_hash K u) \<and> wft u \<and> fits K u \<and> tkey r \<and> content u r = v \<and> proves K Get True u r \<and> size u < sz))"

lemma get_ok_mono: "get_ok K Get a v r n \<Longrightarrow> a \<le> b \<Longrightarrow> get_ok K Get b v r n"
  by (fastforce simp: get_ok_def)

lemma get_cref:
  assumes IH: "wft t \<Longrightarrow> tkey q \<Longrightarrow> \<exists>r n. trie_get (reflag None g (collapse K t)) q = Ok (r, n) \<and> get_ok K Get (size t) (content t q) r n"
    and "at_key q t" "fits K t" "proves K Get False t q"
  shows "\<exists>r n. trie_get (reflag None g (cref K t)) q = Ok (r, n) \<and> get_ok K Get (Suc (size t)) (content t q) r n"
proof (cases "wft t")
  case True
  then have b: "is_branch t" "tkey q" using assms(2) wft_branch by (auto simp: at_key_def is_value_iff)
  show ?thesis
  proof (cases "big K t")
    case big: True
    then have "proves K Get True t q" using assms(4) b by (cases t) auto
    then show ?thesis using b big True assms(3) by (auto simp: cref_simps get_ok_def)
  next
    case False
    then have "cref K t = collapse K t" by (simp add: cref_simps)
    then show ?thesis using IH [OF True b(2)] get_ok_mono [of K Get "size t" _ _ _ "Suc (size t)"] by fastforce
  qed
qed (use assms(2) in \<open>auto simp: at_key_def is_value_iff get_ok_def\<close>)

lemma get_collapse:
  "wft t \<Longrightarrow> tkey q \<Longrightarrow> fits K t \<Longrightarrow> proves K Get tp t q \<Longrightarrow>
    \<exists>r n. trie_get (reflag h g (collapse K t)) q = Ok (r, n) \<and> get_ok K Get (size t) (content t q) r n"
proof (induction t arbitrary: q tp h rule: measure_induct_rule [of size])
  case (less t)
  have at: "at_key q t" using less.prems by (simp add: at_key_def)
  show ?case
  proof (cases t)
    case (ShortN k v f)
    show ?thesis
    proof (cases "\<exists>r. q = k @ r")
      case True
      then obtain r where q: "q = k @ r" by blast
      have "at_key r v" "fits K v" "proves K Get False v r" using at_Short [OF at [unfolded ShortN]] q less.prems by (auto simp: ShortN fits_simps)
      then have "\<exists>r' n. trie_get (reflag None g (cref K v)) r = Ok (r', n) \<and> get_ok K Get (Suc (size v)) (content v r) r' n"
        using less.IH [of v r False None] by (intro get_cref) (auto simp: ShortN)
      then show ?thesis using q get_ok_mono [of K Get "Suc (size v)" _ _ _ "size t"] by (fastforce simp: ShortN)
    next
      case False
      then have "take (length k) q \<noteq> k" by (simp add: take_length_eq)
      then show ?thesis by (auto simp: ShortN get_ok_def)
    qed
  next
    case (FullN cs f)
    from at [unfolded FullN] obtain x r where q: "q = x # r" "at_key r (cs ! unat x)" "unat x < 17" "length cs = 17" by (rule at_Full)
    let ?c = "cs ! unat x"
    have m: "?c \<in> set cs" "size ?c < size t" using q size_list_estimation' [of ?c cs _ size] by (auto simp: FullN less_Suc_eq_le)
    have "fits K ?c" "proves K Get False ?c r" using q m less.prems by (auto simp: FullN fits_simps)
    then have "\<exists>r' n. trie_get (reflag None g (cref K ?c)) r = Ok (r', n) \<and> get_ok K Get (Suc (size ?c)) (content ?c r) r' n"
      using less.IH [of ?c r False None] m q(2) by (intro get_cref) auto
    then show ?thesis using q m(2) get_ok_mono [of K Get "Suc (size ?c)" _ _ _ "size t"] by (fastforce simp: FullN)
  qed (use less.prems(1) in simp_all)
qed

lemma proves_top: "is_branch t \<Longrightarrow> proves K Get True t q \<Longrightarrow> Get (tree_hash K t) = Some (tree_enc K t)"
  by (cases t) auto

lemma VerifyProof_loop_content:
  assumes "hash_len K"
  shows "wft t \<Longrightarrow> tkey q \<Longrightarrow> fits K t \<Longrightarrow> proves K Get True t q \<Longrightarrow>
    \<exists>j. VerifyProof_loop Get i (tree_hash K t) q = Some (Ok (content t q, j))"
proof (induction t arbitrary: i q rule: measure_induct_rule [of size])
  case (less t)
  have b: "is_branch t" using less.prems(1) by (rule wft_branch)
  then have l: "length (tree_enc K t) < 2 ^ 64" using less.prems(3) tree_enc_encs [OF b] by (auto simp: fits_def)
  have G: "Get (tree_hash K t) = Some (tree_enc K t)" using b less.prems(4) by (rule proves_top)
  obtain r n where g: "trie_get (reflag (Some (tree_hash K t)) 0 (collapse K t)) q = Ok (r, n)" "get_ok K Get (size t) (content t q) r n"
    using get_collapse [OF less.prems] by blast
  have "VerifyProof_loop Get i (tree_hash K t) q =
    (case n of NilN \<Rightarrow> Some (Ok (None, i)) | HashN h \<Rightarrow> VerifyProof_loop Get (i + 1) h r | ValueN v \<Rightarrow> Some (Ok (Some v, i + 1)) | _ \<Rightarrow> None)"
    using decode_tree_enc [OF assms less.prems(1) l] G g(1) by (subst VerifyProof_loop.simps) (simp cong: node.case_cong)
  then show ?case using g(2) less.IH by (fastforce simp: get_ok_def)
qed

section \<open>The proof of a key\<close>

text \<open>The subtrees on the path of a key.\<close>

function (sequential) path :: "node \<Rightarrow> bytes \<Rightarrow> node list" where
  "path (ShortN k v f) q = ShortN k v f # (if take (length k) q = k then path v (drop (length k) q) else [])"
| "path (FullN cs f) (x # r) = FullN cs f # (if unat x < length cs then path (cs ! unat x) r else [])"
| "path _ q = []"
  by pat_completeness auto
termination
  by (relation "measure (\<lambda>(n, q). size n)") (auto simp: less_Suc_eq_le intro!: size_list_estimation' trans_le_add1)

definition in_db :: "(bytes \<Rightarrow> bytes) \<Rightarrow> reader \<Rightarrow> node \<Rightarrow> bool" where
  "in_db K Get u \<longleftrightarrow> Get (tree_hash K u) = Some (tree_enc K u)"

lemma proves_path:
  "at_key q t \<Longrightarrow> (tp \<Longrightarrow> path t q \<noteq> [] \<Longrightarrow> in_db K Get (hd (path t q))) \<Longrightarrow> (\<And>u. u \<in> set (path t q) \<Longrightarrow> big K u \<Longrightarrow> in_db K Get u) \<Longrightarrow>
    proves K Get tp t q"
proof (induction t q arbitrary: tp rule: path.induct)
  case (1 k v f q)
  then show ?case using at_Short(5) [OF "1.prems"(1)] by (auto simp: in_db_def take_length_eq)
next
  case (2 cs f x r)
  then show ?case using at_Full [OF "2.prems"(1)] by (auto simp: in_db_def)
qed (auto elim: at_Full)

text \<open>A node in memory that is on the path.\<close>

definition on_path :: "(bytes \<Rightarrow> bytes) \<Rightarrow> reader \<Rightarrow> node \<Rightarrow> node \<Rightarrow> bool" where
  "on_path K G n u \<longleftrightarrow> is_branch n \<and> wft u \<and> (\<exists>tp. loads (cached_ok K G) G tp n u)"

lemma Prove_path_nodes:
  "loads (cached_ok K G) G tp n t \<Longrightarrow> at_key q t \<Longrightarrow>
    \<exists>ns. Prove_path (Some G) gen acc n q = Some (Ok (acc @ ns)) \<and> list_all2 (on_path K G) ns (path t q)"
proof (induction arbitrary: acc q rule: loads.induct)
  case (loads_Nil tp)
  then show ?case by (subst Prove_path.simps) simp
next
  case (loads_Value tp v)
  then have "q = []" by simp
  then show ?case by (subst Prove_path.simps) simp
next
  case (loads_Short v t tp f k)
  let ?n = "ShortN k v f" and ?t = "ShortN k t blank"
  have q: "tkey q" "q \<noteq> []" and w: "wft ?t" using loads_Short.prems by (auto simp: at_key_def is_value_iff)
  have on: "on_path K G ?n ?t" unfolding on_path_def using w loads.loads_Short [OF loads_Short.hyps] by auto
  show ?case
  proof (cases "\<exists>r. q = k @ r")
    case True
    then obtain r where r: "q = k @ r" by blast
    then have "at_key r t" using at_Short(5) [OF loads_Short.prems] by simp
    from loads_Short.IH [OF this, of "acc @ [?n]"] show ?thesis using q(2) r on by (subst Prove_path.simps) auto
  next
    case False
    then have t: "take (length k) q \<noteq> k" by (simp add: take_length_eq)
    have "Prove_path (Some G) gen acc ?n q = Prove_path (Some G) gen (acc @ [?n]) NilN q"
      using q(2) t by (subst Prove_path.simps) auto
    also have "\<dots> = Some (Ok (acc @ [?n]))" by (subst Prove_path.simps) simp
    finally show ?thesis using t on by auto
  qed
next
  case (loads_Full cs ts tp f)
  let ?n = "FullN cs f" and ?t = "FullN ts blank"
  obtain x r where q: "q = x # r" "unat x < 17" "at_key r (ts ! unat x)" "length ts = 17" "wft ?t" using loads_Full.prems by (rule at_Full)
  have "loads (cached_ok K G) G tp ?n ?t" by (rule loads.loads_Full) (use loads_Full.hyps in auto)
  then have on: "on_path K G ?n ?t" unfolding on_path_def using q(5) by auto
  have "unat x < length cs" using q loads_Full.hyps(1) by simp
  then have "Prove_path (Some G) gen acc ?n q = Prove_path (Some G) gen (acc @ [?n]) (cs ! unat x) r"
    using q(1) by (subst Prove_path.simps) (simp add: child_def index_def)
  moreover obtain ns where "Prove_path (Some G) gen (acc @ [?n]) (cs ! unat x) r = Some (Ok ((acc @ [?n]) @ ns))"
      "list_all2 (on_path K G) ns (path (ts ! unat x) r)"
    using loads_Full.IH [of "unat x" r "acc @ [?n]"] q by auto
  ultimately show ?case using q on by auto
next
  case (loads_Hash h b tp t)
  obtain n where n: "decodeNode (Some h) b gen = Ok n" "loads (cached_ok K G) G tp n t"
      "\<And>acc q. at_key q t \<Longrightarrow> \<exists>ns. Prove_path (Some G) gen acc n q = Some (Ok (acc @ ns)) \<and> list_all2 (on_path K G) ns (path t q)"
    using loads_Hash.IH [of gen] by blast
  have "q \<noteq> []" using loads_Hash.prems loads_Hash.hyps(3) by (auto simp: at_key_def is_value_iff)
  then have "Prove_path (Some G) gen acc (HashN h) q = Prove_path (Some G) gen acc n q"
    using n(1) loads_Hash.hyps(1) by (subst Prove_path.simps) (simp add: resolveHash_def mustDecodeNode_def)
  then show ?case using n(3) [OF loads_Hash.prems] by simp
qed

lemma on_path_hashChildren:
  assumes "on_path K G n u" "hash_len K" "clean K S G" "fits K u" "encs K u \<subseteq> S"
  shows "\<exists>col cac. hashChildren K (None :: unit writer option) gen lim n () = ((), Ok (col, cac)) \<and> is_branch col \<and> raw_enc col = tree_enc K u \<and>
    store K (None :: unit writer option) col False () = ((), Ok (if big K u then HashN (tree_hash K u) else col))"
proof -
  obtain tp where l: "loads (cached_ok K G) G tp n u" and w: "wft u" "is_branch n" using assms(1) by (auto simp: on_path_def)
  have H: "hashed_ok K (\<lambda>_. G) S False False t () (hasher_hash K (None :: unit writer option) gen lim m False ())"
    if "loads (cached_ok K G) G False m t" "wft t" "fits K t" "encs K t \<subseteq> S" for m t
    using hash_correct [of "None :: unit writer option" "\<lambda>_. G" K G False m t S "()"] that assms(2,3) by simp
  have c: "flag_ok (cached_ok K G tp) (flags n) u \<and> children_hashed K (\<lambda>_. G) S ((None :: unit writer option) \<noteq> None) (flags n) u () (hashChildren K (None :: unit writer option) gen lim n ())"
    using l
  proof cases
    case (loads_Short v t f k)
    have "children_hashed K (\<lambda>_. G) S ((None :: unit writer option) \<noteq> None) f (ShortN k t blank) () (hashChildren K (None :: unit writer option) gen lim (ShortN k v f) ())"
      using loads_Short(3) w(1) assms(3,4,5) H [OF loads_Short(3)]
      by (intro children_hashed_Short [where G = G]) (auto simp: loads_Short(2) fits_simps)
    then show ?thesis using loads_Short by simp
  next
    case (loads_Full cs ts f)
    have len: "length ts = 17" using w(1) by (simp add: loads_Full(2) wft_FullN)
    have "hashed_ok K (\<lambda>_. G) S ((None :: unit writer option) \<noteq> None) False (ts ! i) d (hasher_hash K (None :: unit writer option) gen lim (cs ! i) False d)"
      if "i < 17" "wft (ts ! i)" for i and d :: unit
    proof -
      have "ts ! i \<in> set ts" using that len by simp
      then show ?thesis using H [of "cs ! i" "ts ! i"] loads_Full(4) that len assms(4,5)
        by (auto simp: loads_Full(2) fits_simps UN_subset_iff)
    qed
    then have "children_hashed K (\<lambda>_. G) S ((None :: unit writer option) \<noteq> None) f (FullN ts blank) () (hashChildren K (None :: unit writer option) gen lim (FullN cs f) ())"
      using loads_Full(3,4) w(1) assms(3) len by (intro children_hashed_Full [where G = G]) (auto simp: loads_Full(2))
    then show ?thesis using loads_Full by simp
  qed (use w in auto)
  then obtain col cac where h: "hashChildren K (None :: unit writer option) gen lim n () = ((), Ok (col, cac))" "is_branch col" "flags col = flags n" "raw_enc col = tree_enc K u"
    unfolding children_hashed_def by blast
  have len: "length (tree_enc K u) < 2 ^ 64" using assms(4) tree_enc_encs [OF wft_branch [OF w(1)]] by (auto simp: fits_def)
  have enc: "Encode buffer_Write [] (node_type col) (node_val col) = (tree_enc K u, Ok ())"
    using Encode_node [of col] h(2,4) len by (cases col) auto
  have "(case fhash (flags n) of Some h \<Rightarrow> h | None \<Rightarrow> K (tree_enc K u)) = tree_hash K u"
    using c by (auto simp: flag_ok_def cached_ok_def tree_hash_def split: option.splits)
  then have "store K (None :: unit writer option) col False () = ((), Ok (if big K u then HashN (tree_hash K u) else col))"
    using h(2,3) enc by (cases col) (auto simp: store_def cache_branch big_def not_le Let_def split: option.splits)
  then show ?thesis using h by blast
qed

lemma EncodeToBytes_node:
  assumes "n \<noteq> NilN" "length (raw_enc n) < 2 ^ 64"
  shows "EncodeToBytes (node_type n) (node_val n) = Ok (raw_enc n)"
proof -
  obtain w where "encbuf_encode (node_type n) (node_val n) encbuf_reset = Ok w" "holds w (raw_enc n)"
    using encbuf_encode_holds [OF rlp_top_node [OF assms(1)] assms(2)] .
  then show ?thesis by (simp add: EncodeToBytes_def holds_def toBytes_render)
qed

lemma Prove_nodes_step:
  assumes "on_path K G n u" "hash_len K" "clean K S G" "fits K u" "encs K u \<subseteq> S"
  shows "Prove_nodes K put first 0 (n # ns) d =
    Prove_nodes K put False 0 ns (if big K u \<or> first then fst (put (tree_hash K u) (tree_enc K u) d) else d)"
proof -
  obtain col cac where c: "hashChildren K (None :: unit writer option) 0 0 n () = ((), Ok (col, cac))" "is_branch col" "raw_enc col = tree_enc K u"
      "store K (None :: unit writer option) col False () = ((), Ok (if big K u then HashN (tree_hash K u) else col))"
    using on_path_hashChildren [OF assms] by blast
  have "length (tree_enc K u) < 2 ^ 64" using assms(1,4) tree_enc_encs [OF wft_branch] by (auto simp: fits_def on_path_def)
  then have "EncodeToBytes (node_type col) (node_val col) = Ok (tree_enc K u)" using EncodeToBytes_node [of col] c(2,3) by (cases col) auto
  then show ?thesis using c by (cases col) (auto simp: tree_hash_def Let_def)
qed

lemma Prove_nodes_path:
  "list_all2 (on_path K G) ns us \<Longrightarrow> hash_len K \<Longrightarrow> clean K S G \<Longrightarrow> (\<And>u. u \<in> set us \<Longrightarrow> fits K u \<and> encs K u \<subseteq> S) \<Longrightarrow>
    puts_ok get put \<Longrightarrow> clean K S (get d) \<Longrightarrow>
    \<exists>d'. Prove_nodes K put first 0 ns d = (d', Ok ()) \<and> get d \<subseteq>\<^sub>m get d' \<and> clean K S (get d') \<and>
      (\<forall>u \<in> set us. big K u \<longrightarrow> in_db K (get d') u) \<and> (first \<and> us \<noteq> [] \<longrightarrow> in_db K (get d') (hd us))"
proof (induction arbitrary: d first rule: list_all2_induct)
  case (Cons n ns u us)
  have u: "fits K u" "encs K u \<subseteq> S" "is_branch u" using Cons.prems(3) Cons.hyps(1) wft_branch by (auto simp: on_path_def)
  let ?d = "if big K u \<or> first then fst (put (tree_hash K u) (tree_enc K u) d) else d"
  obtain d1 where "put (tree_hash K u) (tree_enc K u) d = (d1, None)" "get d1 = (get d)(tree_hash K u \<mapsto> tree_enc K u)"
    using Cons.prems(4) unfolding puts_ok_def by blast
  then have d1: "get d \<subseteq>\<^sub>m get ?d" "clean K S (get ?d)" "big K u \<or> first \<Longrightarrow> in_db K (get ?d) u"
    using clean_put [OF Cons.prems(5), of "tree_enc K u"] tree_enc_encs [OF u(3)] u(2) Cons.prems(5) by (auto simp: in_db_def tree_hash_def)
  obtain d' where d': "Prove_nodes K put False 0 ns ?d = (d', Ok ())" "get ?d \<subseteq>\<^sub>m get d'" "clean K S (get d')"
      "\<forall>u \<in> set us. big K u \<longrightarrow> in_db K (get d') u"
    using Cons.IH [OF Cons.prems(1,2) _ Cons.prems(4) d1(2), of False] Cons.prems(3) by auto
  have "in_db K (get d') u" if "big K u \<or> first" using d1(3) [OF that] d'(2) by (auto simp: in_db_def map_le_def dom_def)
  moreover have "get d \<subseteq>\<^sub>m get d'" using d1(1) d'(2) by (rule map_le_trans)
  moreover have "Prove_nodes K put first 0 (n # ns) d = (d', Ok ())"
    unfolding Prove_nodes_step [OF Cons.hyps(1) Cons.prems(1,2) u(1,2)] by (rule d'(1))
  ultimately show ?case using d'(3,4) by (intro exI [of _ d']) (auto simp del: Prove_nodes.simps)
qed simp

lemma path_encs: "u \<in> set (path t q) \<Longrightarrow> encs K u \<subseteq> encs K t"
proof (induction t q rule: path.induct)
  case (2 cs f x r)
  then show ?case by (auto split: if_splits) (metis nth_mem subsetD)
qed (auto split: if_splits)

lemma path_Nil: "wft t \<Longrightarrow> tkey q \<Longrightarrow> path t q \<noteq> []"
  by (cases t; cases q) auto

lemma Prove_VerifyProof_nonempty:
  assumes "Trie_repr (cached_ok K G) G T m" "m \<noteq> Map.empty" "sound_hash K S G" "encoded_in K S m"
    and "puts_ok get put" "sound_hash K S (get d)"
  shows "\<exists>d' h T' j. Prove K (Some G) T key 0 put d = Some (d', Ok ()) \<and> Trie_Hash K T = Ok (h, T') \<and>
    VerifyProof h key (get d') = Some (Ok (m key, j))"
proof -
  obtain t where t: "loads (cached_ok K G) G True (root T) t" "tree_map t m" using assms(1) by (auto simp: Trie_repr_def)
  have w: "wft t" using t(2) assms(2) by (auto simp: tree_map_def)
  let ?q = "keybytesToHex key"
  have e: "fits K t" "encs K t \<subseteq> S" using assms(4) t(2) by (auto simp: encoded_in_def)
  have at: "at_key ?q t" using w by (simp add: at_key_def)
  obtain ns where ns: "Prove_path (Some G) (cachegen T) [] (root T) ?q = Some (Ok ns)" "list_all2 (on_path K G) ns (path t ?q)"
    using Prove_path_nodes [OF t(1) at, of "cachegen T" "[]"] by auto
  have K: "hash_len K" "clean K S G" "clean K S (get d)" using assms(3,6) by (auto simp: sound_hash_def)
  have "fits K u \<and> encs K u \<subseteq> S" if "u \<in> set (path t ?q)" for u using path_encs [OF that, of K] e by (auto simp: fits_def)
  then obtain d' where d': "Prove_nodes K put True 0 ns d = (d', Ok ())" "\<forall>u \<in> set (path t ?q). big K u \<longrightarrow> in_db K (get d') u"
      "in_db K (get d') (hd (path t ?q))"
    using Prove_nodes_path [OF ns(2) K(1,2) _ assms(5) K(3), of True] path_Nil [OF w, of ?q] by auto
  have "proves K (get d') True t ?q" by (rule proves_path [OF at]) (use d' in auto)
  then obtain j where "VerifyProof_loop (get d') 0 (tree_hash K t) ?q = Some (Ok (content t ?q, j))"
    using VerifyProof_loop_content [OF K(1) w _ e(1)] by fastforce
  moreover have "content t ?q = m key" using t(2) by (simp add: tree_map_def)
  moreover obtain T' where "Trie_Hash K T = Ok (tree_hash K t, T')"
  proof -
    obtain u T' where "tree_map u m" "Trie_Hash K T = Ok (root_hash K u, T')" using Trie_Hash_repr [OF assms(1,3,4)] by blast
    moreover have "u = t" using tree_map_unique calculation(1) t(2) by blast
    moreover have "t \<noteq> NilN" using w by auto
    ultimately show ?thesis using that by (simp add: root_hash_def)
  qed
  ultimately show ?thesis using ns(1) d'(1) by (auto simp: Prove_def VerifyProof_def)
qed

lemma Prove_empty:
  assumes "Trie_repr (cached_ok K G) G T Map.empty" "sound_hash K S G"
  shows "Prove K (Some G) T key 0 put d = Some (d, Ok ())" "\<exists>T'. Trie_Hash K T = Ok (emptyRoot, T')"
proof -
  obtain t where t: "loads (cached_ok K G) G True (root T) t" "tree_map t Map.empty" using assms(1) by (auto simp: Trie_repr_def)
  have "t = NilN" using t(2) by (rule tree_map_unique) (simp add: tree_map_def)
  then have "root T = NilN" using t(1) loads_Nil_iff by blast
  then show "Prove K (Some G) T key 0 put d = Some (d, Ok ())" by (simp add: Prove_def Prove_path.simps)
  obtain u T' where "tree_map u Map.empty" "Trie_Hash K T = Ok (root_hash K u, T')" using Trie_Hash_repr [OF assms encoded_empty] by blast
  moreover from this(1) have "u = NilN" by (rule tree_map_unique) (simp add: tree_map_def)
  ultimately show "\<exists>T'. Trie_Hash K T = Ok (emptyRoot, T')" by (simp add: root_hash_def)
qed

text \<open>
  C25. Proofs of the trie are complete except for the empty trie: on a trie for a nonempty map \<open>m\<close>, whatever of it is loaded, \<open>Prove\<close> returns without
  error, and \<open>VerifyProof\<close>, given only the root hash and the proof database, returns the value the map has
  for the key, or nothing when it has none. On a trie for the empty map \<open>Prove\<close> writes nothing, and \<open>VerifyProof\<close> on a database without
  the hash of the empty trie reports that the first node of the proof is missing.
\<close>
theorem Prove_VerifyProof:
  assumes "Trie_repr (cached_ok K G) G T m" "sound_hash K S G" "encoded_in K S m" "puts_ok get put" "sound_hash K S (get d)"
  shows "\<exists>d' h T' j. Prove K (Some G) T key 0 put d = Some (d', Ok ()) \<and> Trie_Hash K T = Ok (h, T') \<and>
    (if m = Map.empty then d' = d \<and> (get d h = None \<longrightarrow> VerifyProof h key (get d') = Some (Err (ProofNodeMissing 0 h)))
     else VerifyProof h key (get d') = Some (Ok (m key, j)))"
proof (cases "m = Map.empty")
  case True
  then have e: "Trie_repr (cached_ok K G) G T Map.empty" using assms(1) by simp
  show ?thesis using True Prove_empty(1) [OF e assms(2), of key put d] Prove_empty(2) [OF e assms(2)]
    by (auto simp: VerifyProof_def VerifyProof_loop.simps)
next
  case False
  then show ?thesis using Prove_VerifyProof_nonempty [OF assms(1) False assms(2-5)] by simp
qed

lemma Prove_VerifyProof_witness:
  "\<exists>d h T' j j'. Prove pad_hash (Some Map.empty) leaf_trie [0x12] 0 put_map Map.empty = Some (d, Ok ()) \<and>
    Trie_Hash pad_hash leaf_trie = Ok (h, T') \<and> VerifyProof h [0x12] d = Some (Ok (Some [7], j))"
proof -
  have p: "puts_ok (\<lambda>d. d) put_map" by (simp add: puts_ok_def put_map_def)
  show ?thesis
    using Prove_VerifyProof [where get = "\<lambda>d. d" and d = Map.empty and key = "[0x12]", OF leaf_repr sound_pad_hash encoded_leaf p sound_pad_hash]
    by auto
qed

section \<open>What is not checked\<close>

text \<open>
  C26. \<open>VerifyProof\<close> does not check that the elements of the proof have the hashes they are stored under: for every
  root hash, key and value there is a proof database with which it returns that value.
\<close>
theorem VerifyProof_forged:
  assumes "v \<noteq> []" "length (node_enc (ShortN (keybytesToHex key) (ValueN v) blank)) < 2 ^ 64"
  shows "VerifyProof rt key [rt \<mapsto> node_enc (ShortN (keybytesToHex key) (ValueN v) blank)] = Some (Ok (Some v, 1))"
proof -
  let ?q = "keybytesToHex key"
  have "storable (ShortN ?q (ValueN v) blank)" using assms(1) hexkey_tkey [OF tkey_keybytesToHex] by (simp add: storable_Short)
  then have "decodeNode (Some rt) (node_enc (ShortN ?q (ValueN v) blank)) 0 = Ok (reflag (Some rt) 0 (ShortN ?q (ValueN v) blank))"
    using decodeNode_node_enc [of "ShortN ?q (ValueN v) blank" "[]"] assms(2) by simp
  then show ?thesis unfolding VerifyProof_def by (subst VerifyProof_loop.simps) simp
qed

lemma VerifyProof_forged_witness:
  "VerifyProof (replicate 32 9) [0x12] [replicate 32 9 \<mapsto> node_enc (ShortN [1, 2, 16] (ValueN [7]) blank)] = Some (Ok (Some [7], 1))"
proof -
  have "length (node_enc (ShortN [1, 2, 16] (ValueN [7]) blank)) < 2 ^ 64"
    using encoded_leaf tree_map_leaf by (auto simp: encoded_in_def fits_def leaf_def tree_enc_def)
  then show ?thesis using VerifyProof_forged [of "[7]" "[0x12]" "replicate 32 9"] by (simp add: keybytesToHex_12)
qed

text \<open>
  \<open>VerifyProof\<close> need not end: with a proof database in which the root is an extension node with an empty key
  that refers to itself, it reads this node forever.
\<close>
theorem VerifyProof_cycle:
  assumes "length rt = 32"
  shows "VerifyProof rt key [rt \<mapsto> node_enc (ShortN [] (HashN rt) blank)] = None"
proof -
  let ?n = "ShortN [] (HashN rt) blank" and ?q = "keybytesToHex key"
  let ?G = "[rt \<mapsto> node_enc ?n]"
  have "compact [] = [0]" by code_simp
  then have "length (node_enc ?n) < 2 ^ 64" using assms by (simp add: rlp_list_def rlp_str_def rlp_head_def)
  moreover have "storable ?n" using assms by (simp add: storable_Short hexkey_def child_ok_def)
  ultimately have d: "decodeNode (Some rt) (node_enc ?n) 0 = Ok (ShortN [] (HashN rt) \<lparr>fhash = Some rt, fgen = 0, fdirty = False\<rparr>)"
    using decodeNode_node_enc [of ?n "[]"] by simp
  have "\<not> (G = ?G \<and> w = rt \<and> q = ?q)" if "VerifyProof_loop G i w q = Some r" for G i w q r
    using that
    by (rule VerifyProof_loop.raw_induct [where P = "\<lambda>G i w q r. \<not> (G = ?G \<and> w = rt \<and> q = ?q)", rotated])
      (fastforce simp: d [simplified])
  then have "VerifyProof_loop ?G 0 rt ?q \<noteq> Some r" for r by blast
  then show ?thesis unfolding VerifyProof_def by (meson not_None_eq)
qed

lemma VerifyProof_cycle_witness:
  "VerifyProof (replicate 32 9) [0x12] [replicate 32 9 \<mapsto> node_enc (ShortN [] (HashN (replicate 32 9)) blank)] = None"
  by (rule VerifyProof_cycle) simp

end
