(* ===== verification/Curve.thy ===== *)
theory Curve
  imports GoPrelude
begin

text \<open>
  The elliptic curve of the signatures, \<open>crypto/secp256k1/curve.go\<close>, with the serialisation of integers of
  \<open>common/math/big.go\<close>. A \<open>big.Int\<close> is an \<open>int\<close>, its words are those of its absolute value. The multiplication by a scalar
  is done by the C library, a parameter. The addition and the doubling in Jacobian coordinates are compared with
  the chord and tangent law.
\<close>

section \<open>Serialisation of integers\<close>

fun nat_bits :: "nat \<Rightarrow> nat" where
  "nat_bits n = (if n = 0 then 0 else Suc (nat_bits (n div 2)))"

declare nat_bits.simps [simp del]

definition big_BitLen :: "int \<Rightarrow> nat" where
  "big_BitLen x = nat_bits (nat \<bar>x\<bar>)"

fun nat_words :: "nat \<Rightarrow> u64 list" where
  "nat_words n = (if n = 0 then [] else word_of_nat n # nat_words (n div 2 ^ 64))"

declare nat_words.simps [simp del]

definition big_Bits :: "int \<Rightarrow> u64 list" where
  "big_Bits x = nat_words (nat \<bar>x\<bar>)"

definition wordBytes :: nat where
  "wordBytes = 8"

fun ReadBits_word :: "nat \<Rightarrow> u64 \<Rightarrow> nat \<Rightarrow> bytes \<Rightarrow> nat \<times> bytes" where
  "ReadBits_word 0 d i b = (i, b)"
| "ReadBits_word (Suc j) d i b =
    (if i > 0 then ReadBits_word j (drop_bit 8 d) (i - 1) (b[i - 1 := ucast d]) else (i, b))"

primrec ReadBits_loop :: "u64 list \<Rightarrow> nat \<Rightarrow> bytes \<Rightarrow> bytes" where
  "ReadBits_loop [] i b = b"
| "ReadBits_loop (d # ds) i b = (case ReadBits_word wordBytes d i b of (i, b) \<Rightarrow> ReadBits_loop ds i b)"

definition ReadBits :: "int \<Rightarrow> bytes \<Rightarrow> bytes" where
  "ReadBits bigint b = ReadBits_loop (big_Bits bigint) (length b) b"

definition PaddedBigBytes :: "int \<Rightarrow> nat \<Rightarrow> bytes" where
  "PaddedBigBytes bigint n =
    (if big_BitLen bigint div 8 \<ge> n then big_Bytes (nat \<bar>bigint\<bar>) else ReadBits bigint (replicate n 0))"

section \<open>The curve\<close>

record BitCurve =
  curve_P :: int
  curve_N :: int
  curve_B :: int
  curve_Gx :: int
  curve_Gy :: int
  BitSize :: nat

definition S256 :: BitCurve where
  "S256 = \<lparr>
    curve_P = 0xFFFFFFFFFFFFFFFFFFFFFFFFFFFFFFFFFFFFFFFFFFFFFFFFFFFFFFFEFFFFFC2F,
    curve_N = 0xFFFFFFFFFFFFFFFFFFFFFFFFFFFFFFFEBAAEDCE6AF48A03BBFD25E8CD0364141,
    curve_B = 7,
    curve_Gx = 0x79BE667EF9DCBBAC55A06295CE870B07029BFCDB2DCE28D959F2815B16F81798,
    curve_Gy = 0x483ADA7726A3C4655DA4FBFC0E1108A8FD17B448A68554199C47D08FFB10D4B8,
    BitSize = 256\<rparr>"

definition IsOnCurve :: "BitCurve \<Rightarrow> int \<Rightarrow> int \<Rightarrow> bool" where
  "IsOnCurve C x y =
    (let y2 = y * y;
         y2 = y2 mod curve_P C;
         x3 = x * x;
         x3 = x3 * x;
         x3 = x3 + curve_B C;
         x3 = x3 mod curve_P C
     in x3 = y2)"

text \<open>
  \<open>ModInverse\<close> of \<open>math/big\<close>, the inverse in \<open>[0, n)\<close>; what it returns for a number that is not relatively prime
  to the modulus is not documented and is \<open>None\<close>.
\<close>

definition ModInverse :: "int \<Rightarrow> int \<Rightarrow> int option" where
  "ModInverse g n = (if gcd g n = 1 then Some (fst (bezw (nat (g mod n)) (nat n)) mod n) else None)"

definition affineFromJacobian :: "BitCurve \<Rightarrow> int \<times> int \<times> int \<Rightarrow> (int \<times> int) option" where
  "affineFromJacobian C = (\<lambda>(x, y, z).
    case ModInverse z (curve_P C) of
      None \<Rightarrow> None
    | Some zinv \<Rightarrow>
        (let zinvsq = zinv * zinv;
             xOut = x * zinvsq;
             xOut = xOut mod curve_P C;
             zinvsq = zinvsq * zinv;
             yOut = y * zinvsq;
             yOut = yOut mod curve_P C
         in Some (xOut, yOut)))"

definition addJacobian :: "BitCurve \<Rightarrow> int \<times> int \<times> int \<Rightarrow> int \<times> int \<times> int \<Rightarrow> int \<times> int \<times> int" where
  "addJacobian C = (\<lambda>(x1, y1, z1) (x2, y2, z2).
    let z1z1 = z1 * z1;
        z1z1 = z1z1 mod curve_P C;
        z2z2 = z2 * z2;
        z2z2 = z2z2 mod curve_P C;
        u1 = x1 * z2z2;
        u1 = u1 mod curve_P C;
        u2 = x2 * z1z1;
        u2 = u2 mod curve_P C;
        h = u2 - u1;
        h = (if sgn h = -1 then h + curve_P C else h);
        i = push_bit 1 h;
        i = i * i;
        j = h * i;
        s1 = y1 * z2;
        s1 = s1 * z2z2;
        s1 = s1 mod curve_P C;
        s2 = y2 * z1;
        s2 = s2 * z1z1;
        s2 = s2 mod curve_P C;
        r = s2 - s1;
        r = (if sgn r = -1 then r + curve_P C else r);
        r = push_bit 1 r;
        v = u1 * i;
        x3 = r;
        x3 = x3 * x3;
        x3 = x3 - j;
        x3 = x3 - v;
        x3 = x3 - v;
        x3 = x3 mod curve_P C;
        y3 = r;
        v = v - x3;
        y3 = y3 * v;
        s1 = s1 * j;
        s1 = push_bit 1 s1;
        y3 = y3 - s1;
        y3 = y3 mod curve_P C;
        z3 = z1 + z2;
        z3 = z3 * z3;
        z3 = z3 - z1z1;
        z3 = (if sgn z3 = -1 then z3 + curve_P C else z3);
        z3 = z3 - z2z2;
        z3 = (if sgn z3 = -1 then z3 + curve_P C else z3);
        z3 = z3 * h;
        z3 = z3 mod curve_P C
    in (x3, y3, z3))"

definition doubleJacobian :: "BitCurve \<Rightarrow> int \<times> int \<times> int \<Rightarrow> int \<times> int \<times> int" where
  "doubleJacobian C = (\<lambda>(x, y, z).
    let a = x * x;
        b = y * y;
        c = b * b;
        d = x + b;
        d = d * d;
        d = d - a;
        d = d - c;
        d = d * 2;
        e = 3 * a;
        f = e * e;
        x3 = 2 * d;
        x3 = f - x3;
        x3 = x3 mod curve_P C;
        y3 = d - x3;
        y3 = e * y3;
        y3 = y3 - 8 * c;
        y3 = y3 mod curve_P C;
        z3 = y * z;
        z3 = 2 * z3;
        z3 = z3 mod curve_P C
    in (x3, y3, z3))"

definition Curve_Add :: "BitCurve \<Rightarrow> int \<Rightarrow> int \<Rightarrow> int \<Rightarrow> int \<Rightarrow> (int \<times> int) option" where
  "Curve_Add C x1 y1 x2 y2 = (let z = 1 in affineFromJacobian C (addJacobian C (x1, y1, z) (x2, y2, z)))"

definition Curve_Double :: "BitCurve \<Rightarrow> int \<Rightarrow> int \<Rightarrow> (int \<times> int) option" where
  "Curve_Double C x1 y1 = (let z1 = 1 in affineFromJacobian C (doubleJacobian C (x1, y1, z1)))"

text \<open>
  \<open>secp256k1_pubkey_scalar_mul\<close> of the C library is a parameter: it overwrites the 64 bytes of the point and returns
  whether it succeeded.
\<close>

definition ScalarMult :: "(bytes \<Rightarrow> bytes \<Rightarrow> bytes \<times> bool) \<Rightarrow> int \<Rightarrow> int \<Rightarrow> bytes \<Rightarrow> (unit, (int \<times> int) option) outcome" where
  "ScalarMult pubkey_scalar_mul bx by scalar =
    (if length scalar > 32 then Panic
     else
       let padded = replicate (32 - length scalar) 0 @ scalar;
           point = ReadBits bx (replicate 32 0) @ ReadBits by (replicate 32 0)
       in case pubkey_scalar_mul point padded of
            (point, res) \<Rightarrow>
              (let x = int (nat_of_be (take 32 point));
                   y = int (nat_of_be (drop 32 point))
               in if \<not> res then Ok None else Ok (Some (x, y))))"

definition ScalarBaseMult :: "(bytes \<Rightarrow> bytes \<Rightarrow> bytes \<times> bool) \<Rightarrow> BitCurve \<Rightarrow> bytes \<Rightarrow> (unit, (int \<times> int) option) outcome" where
  "ScalarBaseMult pubkey_scalar_mul C k = ScalarMult pubkey_scalar_mul (curve_Gx C) (curve_Gy C) k"

text \<open>\<open>copy\<close> to the end of a slice: a source that is too long makes the slice bound negative, or is written over what precedes.\<close>

definition copy_at :: "nat \<Rightarrow> bytes \<Rightarrow> bytes \<Rightarrow> bytes" where
  "copy_at i src dst = take i dst @ take (length dst - i) src @ drop (i + length src) dst"

definition Marshal :: "BitCurve \<Rightarrow> int \<Rightarrow> int \<Rightarrow> (unit, bytes) outcome" where
  "Marshal C x y =
    (let byteLen = drop_bit 3 (BitSize C + 7);
         ret = replicate (1 + 2 * byteLen) 0;
         ret = ret[0 := 4];
         xBytes = big_Bytes (nat \<bar>x\<bar>)
     in if 1 + byteLen < length xBytes then Panic
        else
          let ret = copy_at (1 + byteLen - length xBytes) xBytes ret;
              yBytes = big_Bytes (nat \<bar>y\<bar>)
          in if 1 + 2 * byteLen < length yBytes then Panic
             else Ok (copy_at (1 + 2 * byteLen - length yBytes) yBytes ret))"

definition Unmarshal :: "BitCurve \<Rightarrow> bytes \<Rightarrow> (int \<times> int) option" where
  "Unmarshal C data =
    (let byteLen = drop_bit 3 (BitSize C + 7)
     in if length data \<noteq> 1 + 2 * byteLen then None
        else if data ! 0 \<noteq> 4 then None
        else
          let x = int (nat_of_be (take byteLen (drop 1 data)));
              y = int (nat_of_be (drop (1 + byteLen) data))
          in Some (x, y))"


section \<open>The chord and tangent law\<close>

text \<open>
  A triple stands for an affine point when its first two coordinates are the affine ones scaled by the square and
  the cube of the third. \<open>tangent\<close> and \<open>chord\<close> are the addition law modulo \<open>p\<close>, with \<open>l\<close> the slope.
\<close>

definition jacobian :: "int \<Rightarrow> int \<times> int \<times> int \<Rightarrow> int \<times> int \<Rightarrow> bool" where
  "jacobian p = (\<lambda>(X, Y, Z) (x, y). p dvd X - x * Z ^ 2 \<and> p dvd Y - y * Z ^ 3)"

definition on_line :: "int \<Rightarrow> int \<Rightarrow> int \<times> int \<Rightarrow> int \<Rightarrow> int \<times> int \<Rightarrow> bool" where
  "on_line p l = (\<lambda>(x1, y1) x2 (x3, y3). p dvd x3 - (l * l - x1 - x2) \<and> p dvd y3 - (l * (x1 - x3) - y1))"

definition tangent :: "int \<Rightarrow> int \<times> int \<Rightarrow> int \<times> int \<Rightarrow> bool" where
  "tangent p = (\<lambda>(x, y) q. \<exists>l. p dvd l * (2 * y) - 3 * x * x \<and> on_line p l (x, y) x q)"

definition chord :: "int \<Rightarrow> int \<times> int \<Rightarrow> int \<times> int \<Rightarrow> int \<times> int \<Rightarrow> bool" where
  "chord p = (\<lambda>(x1, y1) (x2, y2) q. \<exists>l. p dvd l * (x2 - x1) - (y2 - y1) \<and> on_line p l (x1, y1) x2 q)"

lemma dvd_mod_diff: "(p :: int) dvd a mod p - b \<longleftrightarrow> p dvd a - b"
  by (metis mod_diff_left_eq mod_eq_0_iff_dvd)

lemma IsOnCurve_iff: "IsOnCurve C x y \<longleftrightarrow> curve_P C dvd y * y - (x * x * x + curve_B C)"
  by (auto simp: IsOnCurve_def Let_def mod_eq_dvd_iff dvd_diff_commute)

text \<open>The third intersection point of the curve with a chord or tangent is on the curve.\<close>

lemma tangent_on_curve:
  assumes "tangent p (x, y) (x3, y3)" "p dvd y * y - (x * x * x + b)"
  shows "p dvd y3 * y3 - (x3 * x3 * x3 + b)"
proof -
  obtain l where l: "p dvd l * (2 * y) - 3 * x * x" "p dvd x3 - (l * l - x - x)" "p dvd y3 - (l * (x - x3) - y)"
    using assms(1) by (auto simp: tangent_def on_line_def)
  have "y3 * y3 - (x3 * x3 * x3 + b) =
      (y3 - (l * (x - x3) - y)) * (y3 + (l * (x - x3) - y)) - (x3 - (l * l - x - x)) * ((x3 - x) * (x3 - x))
      + (l * (2 * y) - 3 * x * x) * (x3 - x) + (y * y - (x * x * x + b))"
    by algebra
  then show ?thesis using l assms(2) by (simp only: dvd_add dvd_diff dvd_mult2)
qed

lemma chord_on_curve:
  assumes "chord p (x1, y1) (x2, y2) (x3, y3)" "coprime (x2 - x1) p"
    and "p dvd y1 * y1 - (x1 * x1 * x1 + b)" "p dvd y2 * y2 - (x2 * x2 * x2 + b)"
  shows "p dvd y3 * y3 - (x3 * x3 * x3 + b)"
proof -
  obtain l where l: "p dvd l * (x2 - x1) - (y2 - y1)" "p dvd x3 - (l * l - x1 - x2)" "p dvd y3 - (l * (x1 - x3) - y1)"
    using assms(1) by (auto simp: chord_def on_line_def)
  let ?s = "x2 * x2 + x2 * x1 + x1 * x1 - l * l * (x2 - x1) - 2 * l * y1"
  have "?s * (x2 - x1) = (y1 * y1 - (x1 * x1 * x1 + b)) - (y2 * y2 - (x2 * x2 * x2 + b))
      - (l * (x2 - x1) - (y2 - y1)) * (l * (x2 - x1) + (y2 - y1) + 2 * y1)"
    by algebra
  then have "p dvd ?s * (x2 - x1)" using l(1) assms(3,4) by (simp only: dvd_diff dvd_mult2)
  then have s: "p dvd ?s" using assms(2) by (simp add: coprime_commute coprime_dvd_mult_left_iff)
  have "y3 * y3 - (x3 * x3 * x3 + b) =
      (y3 - (l * (x1 - x3) - y1)) * (y3 + (l * (x1 - x3) - y1)) - (x3 - (l * l - x1 - x2)) * ((x3 - x1) * (x3 - x2))
      - ?s * (x3 - x1) + (y1 * y1 - (x1 * x1 * x1 + b))"
    by algebra
  then show ?thesis using l s assms(3) by (simp only: dvd_add dvd_diff dvd_mult2)
qed

lemmas mod_congs = mod_diff_cong mod_add_cong mod_mult_cong refl

lemma double_mod:
  "doubleJacobian C (X, Y, Z) =
    (let p = curve_P C; x3 = (9 * X * X * X * X - 8 * X * Y * Y) mod p
     in (x3, (3 * X * X * (4 * X * Y * Y - x3) - 8 * Y * Y * Y * Y) mod p, (2 * Y * Z) mod p))"
  by (simp add: doubleJacobian_def Let_def algebra_simps)

lemma doubleJacobian_tangent:
  assumes "jacobian (curve_P C) J (x, y)" "tangent (curve_P C) (x, y) (x3, y3)"
  shows "jacobian (curve_P C) (doubleJacobian C J) (x3, y3)"
proof -
  obtain X Y Z where J: "J = (X, Y, Z)" by (cases J)
  let ?p = "curve_P C"
  let ?x = "x * Z ^ 2" and ?y = "y * Z ^ 3"
  obtain l where l: "?p dvd l * (2 * y) - 3 * x * x" "?p dvd x3 - (l * l - x - x)" "?p dvd y3 - (l * (x - x3) - y)"
    using assms(2) by (auto simp: tangent_def on_line_def)
  have XY: "X mod ?p = ?x mod ?p" "Y mod ?p = ?y mod ?p" using assms(1) by (simp_all add: J jacobian_def mod_eq_dvd_iff)
  define A where "A = (9 * X * X * X * X - 8 * X * Y * Y) mod ?p"
  define D where "D = (2 * Y * Z) mod ?p"
  have D: "D mod ?p = (2 * ?y * Z) mod ?p" unfolding D_def mod_mod_trivial by (intro mod_congs XY)
  have "A mod ?p = (9 * ?x * ?x * ?x * ?x - 8 * ?x * ?y * ?y) mod ?p"
    unfolding A_def mod_mod_trivial by (intro mod_congs XY)
  also have "\<dots> = (x3 * ((2 * ?y * Z) * (2 * ?y * Z))) mod ?p"
  proof -
    have "9 * ?x * ?x * ?x * ?x - 8 * ?x * ?y * ?y - x3 * ((2 * ?y * Z) * (2 * ?y * Z)) =
        (l * (2 * y) - 3 * x * x) * (- (l * (2 * y) + 3 * x * x) * Z ^ 8) - (x3 - (l * l - x - x)) * (4 * y * y * Z ^ 8)"
      by algebra
    then show ?thesis using l(1,2) unfolding mod_eq_dvd_iff by (simp only: dvd_diff dvd_mult2)
  qed
  finally have A: "A mod ?p = (x3 * ((2 * ?y * Z) * (2 * ?y * Z))) mod ?p" .
  also have "\<dots> = (x3 * (D * D)) mod ?p" by (intro mod_congs D [symmetric])
  finally have 1: "?p dvd A - x3 * D ^ 2" by (simp add: mod_eq_dvd_iff power2_eq_square)
  have "(3 * X * X * (4 * X * Y * Y - A) - 8 * Y * Y * Y * Y) mod ?p =
      (3 * ?x * ?x * (4 * ?x * ?y * ?y - x3 * ((2 * ?y * Z) * (2 * ?y * Z))) - 8 * ?y * ?y * ?y * ?y) mod ?p"
    by (intro mod_congs XY A)
  also have "\<dots> = (y3 * ((2 * ?y * Z) * (2 * ?y * Z) * (2 * ?y * Z))) mod ?p"
  proof -
    have "3 * ?x * ?x * (4 * ?x * ?y * ?y - x3 * ((2 * ?y * Z) * (2 * ?y * Z))) - 8 * ?y * ?y * ?y * ?y
          - y3 * ((2 * ?y * Z) * (2 * ?y * Z) * (2 * ?y * Z)) =
        (l * (2 * y) - 3 * x * x) * (- 4 * y * y * (x - x3) * Z ^ 12) - (y3 - (l * (x - x3) - y)) * (8 * y * y * y * Z ^ 12)"
      by algebra
    then show ?thesis using l(1,3) unfolding mod_eq_dvd_iff by (simp only: dvd_diff dvd_mult2)
  qed
  also have "\<dots> = (y3 * (D * D * D)) mod ?p" by (intro mod_congs D [symmetric])
  finally have 2: "?p dvd (3 * X * X * (4 * X * Y * Y - A) - 8 * Y * Y * Y * Y) mod ?p - y3 * D ^ 3"
    by (simp add: mod_eq_dvd_iff power3_eq_cube dvd_mod_diff)
  show ?thesis using 1 2 by (simp add: J double_mod jacobian_def A_def D_def Let_def)
qed


lemma sgn_step: "(if sgn d = - 1 then d + p else d) mod p = d mod (p :: int)"
  by simp

lemma add_mod:
  obtains h r z where "addJacobian C (X1, Y1, Z1) (X2, Y2, Z2) =
      (let p = curve_P C; u = (X1 * (Z2 * Z2 mod p)) mod p; s = (Y1 * Z2 * (Z2 * Z2 mod p)) mod p;
           x3 = (r * r - h * (2 * h * (2 * h)) - 2 * (u * (2 * h * (2 * h)))) mod p
       in (x3, (r * (u * (2 * h * (2 * h)) - x3) - 2 * (s * (h * (2 * h * (2 * h))))) mod p, (z * h) mod p))"
    and "h mod curve_P C = (X2 * (Z1 * Z1) - X1 * (Z2 * Z2)) mod curve_P C"
    and "r mod curve_P C = (2 * (Y2 * Z1 * (Z1 * Z1) - Y1 * Z2 * (Z2 * Z2))) mod curve_P C"
    and "z mod curve_P C = (2 * Z1 * Z2) mod curve_P C"
proof -
  let ?p = "curve_P C" and ?up = "\<lambda>d. if sgn d = - 1 then d + curve_P C else d"
  let ?a = "Z1 * Z1 mod ?p" and ?b = "Z2 * Z2 mod ?p"
  define h where "h = ?up (X2 * ?a mod ?p - X1 * ?b mod ?p)"
  define r where "r = 2 * ?up (Y2 * Z1 * ?a mod ?p - Y1 * Z2 * ?b mod ?p)"
  define z where "z = ?up (?up ((Z1 + Z2) * (Z1 + Z2) - ?a) - ?b)"
  have "h mod ?p = (X2 * ?a mod ?p - X1 * ?b mod ?p) mod ?p" unfolding h_def by (rule sgn_step)
  also have "\<dots> = (X2 * (Z1 * Z1) - X1 * (Z2 * Z2)) mod ?p" by (simp add: mod_simps)
  finally have 1: "h mod ?p = (X2 * (Z1 * Z1) - X1 * (Z2 * Z2)) mod ?p" .
  have "r mod ?p = (2 * (Y2 * Z1 * ?a mod ?p - Y1 * Z2 * ?b mod ?p)) mod ?p"
    unfolding r_def by (intro mod_mult_cong refl sgn_step)
  also have "\<dots> = (2 * (Y2 * Z1 * (Z1 * Z1) - Y1 * Z2 * (Z2 * Z2))) mod ?p"
    by (intro mod_mult_cong refl) (simp add: mod_simps)
  finally have 2: "r mod ?p = (2 * (Y2 * Z1 * (Z1 * Z1) - Y1 * Z2 * (Z2 * Z2))) mod ?p" .
  have "z mod ?p = (?up ((Z1 + Z2) * (Z1 + Z2) - ?a) - ?b) mod ?p" unfolding z_def by (rule sgn_step)
  also have "\<dots> = ((Z1 + Z2) * (Z1 + Z2) - ?a - ?b) mod ?p" by (intro mod_diff_cong refl sgn_step)
  also have "\<dots> = ((Z1 + Z2) * (Z1 + Z2) - Z1 * Z1 - Z2 * Z2) mod ?p" by (intro mod_diff_cong refl mod_mod_trivial)
  also have "(Z1 + Z2) * (Z1 + Z2) - Z1 * Z1 - Z2 * Z2 = 2 * Z1 * Z2" by algebra
  finally have 3: "z mod ?p = (2 * Z1 * Z2) mod ?p" .
  show thesis
  proof (rule that [OF _ 1 2 3])
    show "addJacobian C (X1, Y1, Z1) (X2, Y2, Z2) =
      (let p = curve_P C; u = (X1 * (Z2 * Z2 mod p)) mod p; s = (Y1 * Z2 * (Z2 * Z2 mod p)) mod p;
           x3 = (r * r - h * (2 * h * (2 * h)) - 2 * (u * (2 * h * (2 * h)))) mod p
       in (x3, (r * (u * (2 * h * (2 * h)) - x3) - 2 * (s * (h * (2 * h * (2 * h))))) mod p, (z * h) mod p))"
      unfolding addJacobian_def prod.case Let_def h_def [symmetric] push_bit_eq_mult power_one_right
      unfolding mult.commute [of _ "2 :: int"] r_def [symmetric] z_def [symmetric]
      by (simp add: algebra_simps)
  qed
qed

lemma chord_scaled:
  assumes "(h :: int) mod p = k mod p" "r mod p = (2 * (l * (x2 - x1)) * w ^ 3) mod p" "u mod p = (x1 * w ^ 2) mod p"
    and "s mod p = (y1 * w ^ 3) mod p" "D mod p = (2 * w * k) mod p" "k = (x2 - x1) * w ^ 2"
    and "p dvd x3 - (l * l - x1 - x2)" "p dvd y3 - (l * (x1 - x3) - y1)"
    and "x = (r * r - h * (2 * h * (2 * h)) - 2 * (u * (2 * h * (2 * h)))) mod p"
  shows "p dvd x - x3 * D ^ 2"
    and "p dvd (r * (u * (2 * h * (2 * h)) - x) - 2 * (s * (h * (2 * h * (2 * h))))) mod p - y3 * D ^ 3"
proof -
  let ?R = "2 * (l * (x2 - x1)) * w ^ 3" and ?U = "x1 * w ^ 2" and ?S = "y1 * w ^ 3" and ?D = "2 * w * k"
  have "x mod p = (?R * ?R - k * (2 * k * (2 * k)) - 2 * (?U * (2 * k * (2 * k)))) mod p"
    unfolding assms(9) mod_mod_trivial by (intro mod_congs assms(1,2,3))
  also have "\<dots> = (x3 * (?D * ?D)) mod p"
  proof -
    have "?R * ?R - k * (2 * k * (2 * k)) - 2 * (?U * (2 * k * (2 * k))) - x3 * (?D * ?D) = (x3 - (l * l - x1 - x2)) * (- 4 * w ^ 2 * k * k)"
      using assms(6) by algebra
    then show ?thesis using assms(7) unfolding mod_eq_dvd_iff by (simp only: dvd_mult2)
  qed
  finally have x: "x mod p = (x3 * (?D * ?D)) mod p" .
  also have "\<dots> = (x3 * (D * D)) mod p" by (intro mod_congs assms(5) [symmetric])
  finally show "p dvd x - x3 * D ^ 2" by (simp add: mod_eq_dvd_iff power2_eq_square)
  have "(r * (u * (2 * h * (2 * h)) - x) - 2 * (s * (h * (2 * h * (2 * h))))) mod p =
      (?R * (?U * (2 * k * (2 * k)) - x3 * (?D * ?D)) - 2 * (?S * (k * (2 * k * (2 * k))))) mod p"
    by (intro mod_congs assms(1-4) x)
  also have "\<dots> = (y3 * (?D * ?D * ?D)) mod p"
  proof -
    have "?R * (?U * (2 * k * (2 * k)) - x3 * (?D * ?D)) - 2 * (?S * (k * (2 * k * (2 * k)))) - y3 * (?D * ?D * ?D) =
        (y3 - (l * (x1 - x3) - y1)) * (- 8 * w ^ 3 * k * k * k)"
      using assms(6) by algebra
    then show ?thesis using assms(8) unfolding mod_eq_dvd_iff by (simp only: dvd_mult2)
  qed
  also have "\<dots> = (y3 * (D * D * D)) mod p" by (intro mod_congs assms(5) [symmetric])
  finally show "p dvd (r * (u * (2 * h * (2 * h)) - x) - 2 * (s * (h * (2 * h * (2 * h))))) mod p - y3 * D ^ 3"
    by (simp add: mod_eq_dvd_iff power3_eq_cube dvd_mod_diff)
qed

lemma addJacobian_chord:
  assumes "jacobian (curve_P C) (X1, Y1, Z1) (x1, y1)" "jacobian (curve_P C) (X2, Y2, Z2) (x2, y2)"
    and "chord (curve_P C) (x1, y1) (x2, y2) (x3, y3)"
  shows "jacobian (curve_P C) (addJacobian C (X1, Y1, Z1) (X2, Y2, Z2)) (x3, y3)"
proof -
  let ?p = "curve_P C" and ?x1 = "x1 * Z1 ^ 2" and ?y1 = "y1 * Z1 ^ 3" and ?x2 = "x2 * Z2 ^ 2" and ?y2 = "y2 * Z2 ^ 3"
  let ?w = "Z1 * Z2"
  obtain l where l: "?p dvd l * (x2 - x1) - (y2 - y1)" "?p dvd x3 - (l * l - x1 - x2)" "?p dvd y3 - (l * (x1 - x3) - y1)"
    using assms(3) by (auto simp: chord_def on_line_def)
  have XY: "X1 mod ?p = ?x1 mod ?p" "Y1 mod ?p = ?y1 mod ?p" "X2 mod ?p = ?x2 mod ?p" "Y2 mod ?p = ?y2 mod ?p"
    using assms(1,2) by (simp_all add: jacobian_def mod_eq_dvd_iff)
  from add_mod [of C X1 Y1 Z1 X2 Y2 Z2] obtain h r z where a: "addJacobian C (X1, Y1, Z1) (X2, Y2, Z2) =
      (let p = curve_P C; u = (X1 * (Z2 * Z2 mod p)) mod p; s = (Y1 * Z2 * (Z2 * Z2 mod p)) mod p;
           x3 = (r * r - h * (2 * h * (2 * h)) - 2 * (u * (2 * h * (2 * h)))) mod p
       in (x3, (r * (u * (2 * h * (2 * h)) - x3) - 2 * (s * (h * (2 * h * (2 * h))))) mod p, (z * h) mod p))"
    and h: "h mod ?p = (X2 * (Z1 * Z1) - X1 * (Z2 * Z2)) mod ?p"
    and r: "r mod ?p = (2 * (Y2 * Z1 * (Z1 * Z1) - Y1 * Z2 * (Z2 * Z2))) mod ?p"
    and z: "z mod ?p = (2 * Z1 * Z2) mod ?p" .
  have "h mod ?p = (?x2 * (Z1 * Z1) - ?x1 * (Z2 * Z2)) mod ?p" unfolding h by (intro mod_congs XY)
  also have "?x2 * (Z1 * Z1) - ?x1 * (Z2 * Z2) = (x2 - x1) * ?w ^ 2" by algebra
  finally have h': "h mod ?p = ((x2 - x1) * ?w ^ 2) mod ?p" .
  have "r mod ?p = (2 * (?y2 * Z1 * (Z1 * Z1) - ?y1 * Z2 * (Z2 * Z2))) mod ?p" unfolding r by (intro mod_congs XY)
  also have "2 * (?y2 * Z1 * (Z1 * Z1) - ?y1 * Z2 * (Z2 * Z2)) = 2 * (y2 - y1) * ?w ^ 3" by algebra
  also have "\<dots> mod ?p = (2 * (l * (x2 - x1)) * ?w ^ 3) mod ?p"
    using l(1) by (intro mod_congs) (simp add: mod_eq_dvd_iff dvd_diff_commute)
  finally have r': "r mod ?p = (2 * (l * (x2 - x1)) * ?w ^ 3) mod ?p" .
  have "((X1 * (Z2 * Z2 mod ?p)) mod ?p) mod ?p = (?x1 * (Z2 * Z2)) mod ?p"
    unfolding mod_mod_trivial by (intro mod_congs XY mod_mod_trivial)
  also have "?x1 * (Z2 * Z2) = x1 * ?w ^ 2" by algebra
  finally have u': "((X1 * (Z2 * Z2 mod ?p)) mod ?p) mod ?p = (x1 * ?w ^ 2) mod ?p" .
  have "((Y1 * Z2 * (Z2 * Z2 mod ?p)) mod ?p) mod ?p = (?y1 * Z2 * (Z2 * Z2)) mod ?p"
    unfolding mod_mod_trivial by (intro mod_congs XY mod_mod_trivial)
  also have "?y1 * Z2 * (Z2 * Z2) = y1 * ?w ^ 3" by algebra
  finally have s': "((Y1 * Z2 * (Z2 * Z2 mod ?p)) mod ?p) mod ?p = (y1 * ?w ^ 3) mod ?p" .
  have "(z * h mod ?p) mod ?p = (2 * ?w * ((x2 - x1) * ?w ^ 2)) mod ?p"
    unfolding mod_mod_trivial by (rule trans [OF mod_mult_cong [OF z h']]) (simp add: mult_ac)
  from chord_scaled [OF h' r' u' s' this refl l(2,3) refl] show ?thesis by (simp add: a jacobian_def Let_def)
qed

lemma ModInverse_Some:
  assumes "gcd g n = 1" "n > 1"
  obtains i where "ModInverse g n = Some i" "n dvd g * i - 1" "0 \<le> i" "i < n"
proof -
  let ?i = "fst (bezw (nat (g mod n)) (nat n))"
  have "gcd (g mod n) n = 1" using assms(1) by (simp add: gcd.commute flip: gcd_red_int)
  then have "int (gcd (nat (g mod n)) (nat n)) = 1" using assms(2) by (simp add: gcd_int_def)
  then have "?i * (g mod n) + snd (bezw (nat (g mod n)) (nat n)) * n = 1"
    using bezw_aux [of "nat (g mod n)" "nat n"] assms(2) by simp
  then have "(?i * (g mod n)) mod n = 1 mod n" by (metis mod_mult_self1)
  then have "(g * (?i mod n)) mod n = 1 mod n" by (simp add: mod_simps mult.commute)
  then have "n dvd g * (?i mod n) - 1" by (simp add: mod_eq_dvd_iff)
  then show thesis using assms that [of "?i mod n"] by (simp add: ModInverse_def)
qed

lemma affineFromJacobian_point:
  assumes "jacobian (curve_P C) (X, Y, Z) (x, y)" "gcd Z (curve_P C) = 1" "curve_P C > 1"
  shows "affineFromJacobian C (X, Y, Z) = Some (x mod curve_P C, y mod curve_P C)"
proof -
  let ?p = "curve_P C"
  obtain i where i: "ModInverse Z ?p = Some i" "?p dvd Z * i - 1" using ModInverse_Some [OF assms(2,3)] by metis
  have "X * (i * i) - x = (X - x * Z ^ 2) * (i * i) + (Z * i - 1) * (x * (Z * i + 1))" by algebra
  then have "?p dvd X * (i * i) - x" using assms(1) i(2) by (simp add: jacobian_def)
  moreover have "Y * (i * i * i) - y = (Y - y * Z ^ 3) * (i * i * i) + (Z * i - 1) * (y * (Z * i * (Z * i) + Z * i + 1))" by algebra
  then have "?p dvd Y * (i * i * i) - y" using assms(1) i(2) by (simp add: jacobian_def)
  ultimately show ?thesis using i(1) by (simp add: affineFromJacobian_def Let_def mod_eq_dvd_iff)
qed

lemma slope:
  assumes "gcd g p = 1" "(p :: int) > 1"
  obtains l where "p dvd l * g - d"
proof -
  obtain i where "p dvd g * i - 1" using ModInverse_Some [OF assms] by metis
  moreover have "d * i * g - d = (g * i - 1) * d" by algebra
  ultimately have "p dvd d * i * g - d" by simp
  then show thesis by (rule that)
qed

lemma addJacobian_Z: "addJacobian C (x1, y1, 1) (x2, y2, 1) = (X, Y, Z) \<Longrightarrow> Z mod curve_P C = (2 * (x2 - x1)) mod curve_P C"
proof (rule add_mod [of C x1 y1 1 x2 y2 1])
  fix h r z
  assume "addJacobian C (x1, y1, 1) (x2, y2, 1) = (X, Y, Z)"
    and "addJacobian C (x1, y1, 1) (x2, y2, 1) =
      (let p = curve_P C; u = (x1 * (1 * 1 mod p)) mod p; s = (y1 * 1 * (1 * 1 mod p)) mod p;
           x3 = (r * r - h * (2 * h * (2 * h)) - 2 * (u * (2 * h * (2 * h)))) mod p
       in (x3, (r * (u * (2 * h * (2 * h)) - x3) - 2 * (s * (h * (2 * h * (2 * h))))) mod p, (z * h) mod p))"
  then have Z: "Z = (z * h) mod curve_P C" by (simp add: Let_def)
  assume "h mod curve_P C = (x2 * (1 * 1) - x1 * (1 * 1)) mod curve_P C" "z mod curve_P C = (2 * 1 * 1) mod curve_P C"
  then have "h mod curve_P C = (x2 - x1) mod curve_P C" "z mod curve_P C = 2 mod curve_P C" by simp_all
  then show ?thesis unfolding Z mod_mod_trivial by (intro mod_mult_cong)
qed

lemma gcd_unit: "Z mod p = (2 * a) mod p \<Longrightarrow> odd p \<Longrightarrow> coprime a (p :: int) \<Longrightarrow> gcd Z p = 1"
proof -
  assume "Z mod p = (2 * a) mod p" "odd p" "coprime a p"
  then have "gcd Z p = gcd (2 * a) p" by (metis gcd_red_int gcd.commute)
  moreover have "coprime (2 * a) p" using \<open>odd p\<close> \<open>coprime a p\<close> by simp
  ultimately show ?thesis by simp
qed

text \<open>
  C30. \<open>Add\<close> is the addition law of the curve: for two points on the curve with different first coordinates, it returns
  the reduced coordinates of a point on the curve, the one the chord through the two points gives.
\<close>
theorem Curve_Add_correct:
  assumes "curve_P C > 1" "odd (curve_P C)" "coprime (x2 - x1) (curve_P C)" "IsOnCurve C x1 y1" "IsOnCurve C x2 y2"
  shows "\<exists>x3 y3. Curve_Add C x1 y1 x2 y2 = Some (x3, y3) \<and> IsOnCurve C x3 y3 \<and> chord (curve_P C) (x1, y1) (x2, y2) (x3, y3) \<and>
    x3 \<in> {0..<curve_P C} \<and> y3 \<in> {0..<curve_P C}"
proof -
  let ?p = "curve_P C"
  obtain l where l: "?p dvd l * (x2 - x1) - (y2 - y1)"
    using slope [of "x2 - x1" ?p "y2 - y1"] assms(1,3) by (auto simp: coprime_iff_gcd_eq_1)
  define x3 where "x3 = (l * l - x1 - x2) mod ?p"
  define y3 where "y3 = (l * (x1 - x3) - y1) mod ?p"
  have on: "on_line ?p l (x1, y1) x2 (x3, y3)" by (simp add: on_line_def x3_def y3_def dvd_mod_diff)
  then have ch: "chord ?p (x1, y1) (x2, y2) (x3, y3)" using l by (auto simp: chord_def)
  obtain X Y Z where J: "addJacobian C (x1, y1, 1) (x2, y2, 1) = (X, Y, Z)" by (metis prod_cases3)
  have j: "jacobian ?p (X, Y, Z) (x3, y3)"
    using addJacobian_chord [of C x1 y1 1 x1 y1 x2 y2 1 x2 y2 x3 y3] ch by (simp add: J jacobian_def)
  have "gcd Z ?p = 1" by (rule gcd_unit [OF addJacobian_Z [OF J] assms(2,3)])
  then have "Curve_Add C x1 y1 x2 y2 = Some (x3, y3)" using affineFromJacobian_point [OF j] assms(1)
    by (simp add: Curve_Add_def J x3_def y3_def)
  moreover have "IsOnCurve C x3 y3" using chord_on_curve [OF ch] assms(3-5) by (simp add: IsOnCurve_iff)
  moreover have "x3 \<in> {0..<?p}" "y3 \<in> {0..<?p}" using assms(1) by (simp_all add: x3_def y3_def)
  ultimately show ?thesis using ch by blast
qed


text \<open>
  C31. \<open>Double\<close> is the tangent law: for a point on the curve with a second coordinate different from 0, it returns the
  reduced coordinates of a point on the curve, the one the tangent gives.
\<close>
theorem Curve_Double_correct:
  assumes "curve_P C > 1" "odd (curve_P C)" "coprime y (curve_P C)" "IsOnCurve C x y"
  shows "\<exists>x3 y3. Curve_Double C x y = Some (x3, y3) \<and> IsOnCurve C x3 y3 \<and> tangent (curve_P C) (x, y) (x3, y3) \<and>
    x3 \<in> {0..<curve_P C} \<and> y3 \<in> {0..<curve_P C}"
proof -
  let ?p = "curve_P C"
  have "gcd (2 * y) ?p = 1" using assms(2,3) by (intro gcd_unit [of _ _ y]) simp_all
  then obtain l where l: "?p dvd l * (2 * y) - 3 * x * x" by (rule slope [OF _ assms(1)])
  define x3 where "x3 = (l * l - x - x) mod ?p"
  define y3 where "y3 = (l * (x - x3) - y) mod ?p"
  have "on_line ?p l (x, y) x (x3, y3)" by (simp add: on_line_def x3_def y3_def dvd_mod_diff)
  then have tg: "tangent ?p (x, y) (x3, y3)" using l by (auto simp: tangent_def)
  obtain X Y Z where J: "doubleJacobian C (x, y, 1) = (X, Y, Z)" by (metis prod_cases3)
  have j: "jacobian ?p (X, Y, Z) (x3, y3)"
    using doubleJacobian_tangent [of C "(x, y, 1)" x y x3 y3] tg by (simp add: J jacobian_def)
  have "Z mod ?p = (2 * y) mod ?p" using J by (auto simp: double_mod Let_def)
  then have "gcd Z ?p = 1" by (rule gcd_unit [OF _ assms(2,3)])
  then have "Curve_Double C x y = Some (x3, y3)" using affineFromJacobian_point [OF j] assms(1)
    by (simp add: Curve_Double_def J x3_def y3_def)
  moreover have "IsOnCurve C x3 y3" using tangent_on_curve [OF tg] assms(4) by (simp add: IsOnCurve_iff)
  moreover have "x3 \<in> {0..<?p}" "y3 \<in> {0..<?p}" using assms(1) by (simp_all add: x3_def y3_def)
  ultimately show ?thesis using tg by blast
qed

text \<open>The curve with the same equation over the field of 17 elements.\<close>

definition small_curve :: BitCurve where
  "small_curve = S256\<lparr>curve_P := 17, curve_N := 18, curve_Gx := 1, curve_Gy := 5, BitSize := 8\<rparr>"

lemma small_curve_eval:
  "curve_P small_curve > 1" "odd (curve_P small_curve)" "IsOnCurve small_curve 1 5" "IsOnCurve small_curve 2 7"
  "coprime 5 (curve_P small_curve)" "coprime (2 - 1) (curve_P small_curve)"
proof -
  have "gcd 5 17 = (1 :: int)" by (subst gcd_red_int) (subst gcd_red_int, simp)
  then show "coprime 5 (curve_P small_curve)" by (simp add: small_curve_def coprime_iff_gcd_eq_1)
qed (simp_all add: small_curve_def S256_def IsOnCurve_def)

lemma Curve_Double_correct_witness:
  "\<exists>x3 y3. Curve_Double small_curve 1 5 = Some (x3, y3) \<and> IsOnCurve small_curve x3 y3 \<and>
    tangent (curve_P small_curve) (1, 5) (x3, y3)"
  using Curve_Double_correct [OF small_curve_eval(1,2,5,3)] by blast

lemma Curve_Add_correct_witness:
  "\<exists>x3 y3. Curve_Add small_curve 1 5 2 7 = Some (x3, y3) \<and> IsOnCurve small_curve x3 y3 \<and>
    chord (curve_P small_curve) (1, 5) (2, 7) (x3, y3)"
  using Curve_Add_correct [OF small_curve_eval(1,2,6,3,4)] by blast


section \<open>Encodings of integers and points\<close>

lemma be_fixed_add: "be_fixed (a + b) x = be_fixed a (x div 256 ^ b) @ be_fixed b x"
  by (induction b arbitrary: x) (simp_all add: div_mult2_eq)

lemma be_fixed_mod: "k \<le> m \<Longrightarrow> be_fixed k (x mod 256 ^ m) = be_fixed k x"
proof -
  assume "k \<le> m"
  then have "nat_of_be (be_fixed k (x mod 256 ^ m)) = nat_of_be (be_fixed k x)"
    by (simp add: nat_of_be_fixed mod_mod_cancel le_imp_power_dvd)
  then show ?thesis by (intro nat_of_be_inject) simp_all
qed

lemma be_fixed_0: "be_fixed k 0 = replicate k 0"
  by (induction k) (simp_all add: replicate_append_same)

lemma unat_drop_8: "unat (drop_bit 8 (d :: u64)) = unat d div 256"
  using unat_drop_bit_div [of 8 d] by simp

lemma ReadBits_word_eq:
  "i \<le> length b \<Longrightarrow> ReadBits_word j d i b = (i - min j i, take (i - min j i) b @ be_fixed (min j i) (unat d) @ drop i b)"
proof (induction j d i b rule: ReadBits_word.induct)
  case (2 j d i b)
  show ?case
  proof (cases i)
    case (Suc k)
    have "drop k (b[k := ucast d]) = word_of_nat (unat d) # drop (Suc k) b"
      using 2(2) Suc by (simp flip: Cons_nth_drop_Suc)
    then show ?thesis using 2 Suc by (simp add: unat_drop_8)
  qed simp
qed simp

lemma ReadBits_loop_eq:
  "i \<le> length b \<Longrightarrow> take i b = replicate i 0 \<Longrightarrow> ReadBits_loop (nat_words n) i b = be_fixed i n @ drop i b"
proof (induction n arbitrary: i b rule: nat_words.induct)
  case (1 n)
  show ?case
  proof (cases "n = 0")
    case True
    then show ?thesis using 1(3) append_take_drop_id [of i b] by (simp add: nat_words.simps be_fixed_0)
  next
    case False
    define m where "m = min 8 i"
    let ?b = "take (i - m) b @ be_fixed m (unat (word_of_nat n :: u64)) @ drop i b"
    have w: "be_fixed m (unat (word_of_nat n :: u64)) = be_fixed m n"
      using be_fixed_mod [of m 8 n] by (simp add: m_def unat_of_nat)
    have "take (i - m) b = take (i - m) (take i b)" by simp
    then have "take (i - m) ?b = replicate (i - m) 0" using 1(2) unfolding 1(3) by simp
    then have "ReadBits_loop (nat_words (n div 2 ^ 64)) (i - m) ?b = be_fixed (i - m) (n div 2 ^ 64) @ drop (i - m) ?b"
      using 1(1) [OF False, of "i - m" ?b] 1(2) by simp
    moreover have "drop (i - m) ?b = be_fixed m n @ drop i b" using 1(2) w by simp
    moreover have "be_fixed i n = be_fixed (i - m) (n div 2 ^ 64) @ be_fixed m n"
      using be_fixed_add [of "i - m" m n] by (cases "8 \<le> i") (simp_all add: m_def)
    ultimately show ?thesis using False 1(2)
      by (subst nat_words.simps) (simp add: ReadBits_word_eq wordBytes_def m_def)
  qed
qed

lemma nat_bits_le: "nat_bits n \<le> k \<longleftrightarrow> n < 2 ^ k"
proof (induction k arbitrary: n)
  case (Suc k)
  have "n < 2 ^ Suc k \<longleftrightarrow> n div 2 < 2 ^ k" by auto
  then show ?case using Suc [of "n div 2"] by (subst nat_bits.simps) simp
qed (simp add: nat_bits.simps)

lemma ReadBits_zeros: "ReadBits x (replicate k 0) = be_fixed k (nat \<bar>x\<bar>)"
  by (simp add: ReadBits_def big_Bits_def ReadBits_loop_eq)

lemma PaddedBigBytes_eq:
  assumes "nat \<bar>x\<bar> < 256 ^ n"
  shows "PaddedBigBytes x n = be_fixed n (nat \<bar>x\<bar>)"
proof (cases "big_BitLen x div 8 \<ge> n")
  case True
  then have "\<not> nat_bits (nat \<bar>x\<bar>) \<le> 8 * n - 1 \<or> n = 0" by (cases n) (auto simp: big_BitLen_def)
  then show ?thesis
  proof
    assume "\<not> nat_bits (nat \<bar>x\<bar>) \<le> 8 * n - 1"
    then have "nat \<bar>x\<bar> \<ge> 2 ^ (8 * n - 1)" by (simp add: nat_bits_le not_less)
    moreover have "n > 0" using True \<open>\<not> nat_bits (nat \<bar>x\<bar>) \<le> 8 * n - 1\<close> assms by (cases n) (auto simp: nat_bits_le nat_bits.simps [of 0])
    then obtain k where k: "n = Suc k" by (cases n) auto
    moreover have "(256 :: nat) ^ k \<le> 2 ^ (8 * n - 1)" unfolding k by (simp add: power_add power_mult)
    ultimately have "256 ^ k \<le> nat \<bar>x\<bar>" by linarith
    then show ?thesis using big_Bytes_fixed [of k "nat \<bar>x\<bar>"] assms k True by (simp add: PaddedBigBytes_def)
  next
    assume "n = 0"
    then show ?thesis using assms by (simp add: PaddedBigBytes_def big_BitLen_def)
  qed
qed (simp add: PaddedBigBytes_def ReadBits_zeros)

lemma be_fixed_pad: "n < 256 ^ k \<Longrightarrow> be_fixed k n = replicate (k - length (big_Bytes n)) 0 @ big_Bytes n"
proof -
  assume n: "n < 256 ^ k"
  have "nat_of_be (replicate j 0 @ bs) = nat_of_be bs" for j bs by (induction j) simp_all
  then show ?thesis using n length_big_Bytes_le [OF n] by (intro nat_of_be_inject) (simp_all add: nat_of_be_fixed)
qed

lemma copy_at_end:
  "length p = j \<Longrightarrow> length src \<le> k \<Longrightarrow> copy_at (j + k - length src) src (p @ replicate k 0 @ q) = p @ (replicate (k - length src) 0 @ src) @ q"
  by (simp add: copy_at_def)

text \<open>
  C32. Points survive serialisation: for a curve whose field size fits the byte length, \<open>Marshal\<close> of a point with coordinates
  in the field succeeds, with the two coordinates padded to full length behind the byte 4, and \<open>Unmarshal\<close> gives the point back;
  conversely \<open>Unmarshal\<close> accepts only what \<open>Marshal\<close> writes.
\<close>
theorem Marshal_Unmarshal:
  assumes "0 \<le> x" "0 \<le> y" "x < 256 ^ ((BitSize C + 7) div 8)" "y < 256 ^ ((BitSize C + 7) div 8)"
  shows "Unmarshal C d = Some (x, y) \<longleftrightarrow> Marshal C x y = Ok d"
proof -
  let ?L = "(BitSize C + 7) div 8"
  have L: "drop_bit 3 (BitSize C + 7) = ?L" by (simp add: drop_bit_eq_div)
  have "nat x < 256 ^ ?L" "nat y < 256 ^ ?L" using assms by (simp_all add: nat_less_iff)
  note xy = be_fixed_pad [OF this(1)] be_fixed_pad [OF this(2)] length_big_Bytes_le [OF this(1)] length_big_Bytes_le [OF this(2)]
  have "Marshal C x y = Ok (4 # be_fixed ?L (nat x) @ be_fixed ?L (nat y))"
    using assms(1,2) xy copy_at_end [of "[4]" 1 "big_Bytes (nat x)" ?L "replicate ?L 0"]
      copy_at_end [of "4 # be_fixed ?L (nat x)" "1 + ?L" "big_Bytes (nat y)" ?L "[]"]
    by (simp add: Marshal_def Let_def L mult_2 replicate_add)
  moreover have "Unmarshal C d = Some (x, y) \<longleftrightarrow> d = 4 # be_fixed ?L (nat x) @ be_fixed ?L (nat y)"
  proof
    assume "Unmarshal C d = Some (x, y)"
    then have d: "length d = 1 + 2 * ?L" "d ! 0 = 4" and n: "x = int (nat_of_be (take ?L (drop 1 d)))" "y = int (nat_of_be (drop (1 + ?L) d))"
      by (auto simp: Unmarshal_def Let_def L split: if_splits)
    have "be_fixed ?L (nat x) = take ?L (drop 1 d)" "be_fixed ?L (nat y) = drop (1 + ?L) d"
      using d(1) be_fixed_nat_of_be [of "take ?L (drop 1 d)"] be_fixed_nat_of_be [of "drop (1 + ?L) d"] by (simp_all add: n)
    then show "d = 4 # be_fixed ?L (nat x) @ be_fixed ?L (nat y)"
      using d append_take_drop_id [of ?L "drop 1 d"] by (cases d) (simp_all add: add.commute)
  next
    assume "d = 4 # be_fixed ?L (nat x) @ be_fixed ?L (nat y)"
    then show "Unmarshal C d = Some (x, y)" using assms \<open>nat x < 256 ^ ?L\<close> \<open>nat y < 256 ^ ?L\<close>
      by (simp add: Unmarshal_def Let_def L nat_of_be_fixed)
  qed
  ultimately show ?thesis by auto
qed

lemma Marshal_Unmarshal_witness: "Marshal small_curve 1 5 = Ok [4, 1, 5]"
  using Marshal_Unmarshal [of 1 5 small_curve "[4, 1, 5]"] by (simp add: Unmarshal_def small_curve_def S256_def drop_bit_eq_div)

end
