(* ===== verification/Keccak.thy ===== *)
theory Keccak
  imports GoPrelude
begin

text \<open>
  The permutation of Keccak, \<open>crypto/sha3/keccakf.go\<close>. The loop body has four rounds that work in place: each
  leaves the lanes of the state at other positions, and the fourth brings them back. They are compared
  with the five steps of the standard (FIPS 202).
\<close>

section \<open>The code\<close>

definition rc :: "u64 list" where
  "rc = [0x0000000000000001, 0x0000000000008082, 0x800000000000808A, 0x8000000080008000,
     0x000000000000808B, 0x0000000080000001, 0x8000000080008081, 0x8000000000008009,
     0x000000000000008A, 0x0000000000000088, 0x0000000080008009, 0x000000008000000A,
     0x000000008000808B, 0x800000000000008B, 0x8000000000008089, 0x8000000000008003,
     0x8000000000008002, 0x8000000000000080, 0x000000000000800A, 0x800000008000000A,
     0x8000000080008081, 0x8000000000008080, 0x0000000080000001, 0x8000000080008008]"

text \<open>The expression \<open>t<<n | t>>(64-n)\<close>.\<close>

definition rol :: "u64 \<Rightarrow> nat \<Rightarrow> u64" where
  "rol t n = push_bit n t OR drop_bit (64 - n) t"

definition keccak_round1 :: "u64 \<Rightarrow> u64 list \<Rightarrow> u64 list" where
  "keccak_round1 c a =
    (let bc0 = a ! 0 XOR a ! 5 XOR a ! 10 XOR a ! 15 XOR a ! 20;
         bc1 = a ! 1 XOR a ! 6 XOR a ! 11 XOR a ! 16 XOR a ! 21;
         bc2 = a ! 2 XOR a ! 7 XOR a ! 12 XOR a ! 17 XOR a ! 22;
         bc3 = a ! 3 XOR a ! 8 XOR a ! 13 XOR a ! 18 XOR a ! 23;
         bc4 = a ! 4 XOR a ! 9 XOR a ! 14 XOR a ! 19 XOR a ! 24;
         d0 = bc4 XOR (rol bc1 1); d1 = bc0 XOR (rol bc2 1); d2 = bc1 XOR (rol bc3 1); d3 = bc2 XOR (rol bc4 1);
         d4 = bc3 XOR (rol bc0 1);
         bc0 = a ! 0 XOR d0; t = a ! 6 XOR d1; bc1 = rol t 44; t = a ! 12 XOR d2; bc2 = rol t 43;
         t = a ! 18 XOR d3; bc3 = rol t 21; t = a ! 24 XOR d4; bc4 = rol t 14;
         a = a[0 := bc0 XOR (bc2 AND NOT bc1) XOR c]; a = a[6 := bc1 XOR (bc3 AND NOT bc2)];
         a = a[12 := bc2 XOR (bc4 AND NOT bc3)]; a = a[18 := bc3 XOR (bc0 AND NOT bc4)];
         a = a[24 := bc4 XOR (bc1 AND NOT bc0)];
         t = a ! 10 XOR d0; bc2 = rol t 3; t = a ! 16 XOR d1; bc3 = rol t 45; t = a ! 22 XOR d2; bc4 = rol t 61;
         t = a ! 3 XOR d3; bc0 = rol t 28; t = a ! 9 XOR d4; bc1 = rol t 20;
         a = a[10 := bc0 XOR (bc2 AND NOT bc1)]; a = a[16 := bc1 XOR (bc3 AND NOT bc2)];
         a = a[22 := bc2 XOR (bc4 AND NOT bc3)]; a = a[3 := bc3 XOR (bc0 AND NOT bc4)];
         a = a[9 := bc4 XOR (bc1 AND NOT bc0)];
         t = a ! 20 XOR d0; bc4 = rol t 18; t = a ! 1 XOR d1; bc0 = rol t 1; t = a ! 7 XOR d2; bc1 = rol t 6;
         t = a ! 13 XOR d3; bc2 = rol t 25; t = a ! 19 XOR d4; bc3 = rol t 8;
         a = a[20 := bc0 XOR (bc2 AND NOT bc1)]; a = a[1 := bc1 XOR (bc3 AND NOT bc2)];
         a = a[7 := bc2 XOR (bc4 AND NOT bc3)]; a = a[13 := bc3 XOR (bc0 AND NOT bc4)];
         a = a[19 := bc4 XOR (bc1 AND NOT bc0)];
         t = a ! 5 XOR d0; bc1 = rol t 36; t = a ! 11 XOR d1; bc2 = rol t 10; t = a ! 17 XOR d2; bc3 = rol t 15;
         t = a ! 23 XOR d3; bc4 = rol t 56; t = a ! 4 XOR d4; bc0 = rol t 27;
         a = a[5 := bc0 XOR (bc2 AND NOT bc1)]; a = a[11 := bc1 XOR (bc3 AND NOT bc2)];
         a = a[17 := bc2 XOR (bc4 AND NOT bc3)]; a = a[23 := bc3 XOR (bc0 AND NOT bc4)];
         a = a[4 := bc4 XOR (bc1 AND NOT bc0)];
         t = a ! 15 XOR d0; bc3 = rol t 41; t = a ! 21 XOR d1; bc4 = rol t 2; t = a ! 2 XOR d2; bc0 = rol t 62;
         t = a ! 8 XOR d3; bc1 = rol t 55; t = a ! 14 XOR d4; bc2 = rol t 39;
         a = a[15 := bc0 XOR (bc2 AND NOT bc1)]; a = a[21 := bc1 XOR (bc3 AND NOT bc2)];
         a = a[2 := bc2 XOR (bc4 AND NOT bc3)]; a = a[8 := bc3 XOR (bc0 AND NOT bc4)];
         a = a[14 := bc4 XOR (bc1 AND NOT bc0)]
     in a)"

definition keccak_round2 :: "u64 \<Rightarrow> u64 list \<Rightarrow> u64 list" where
  "keccak_round2 c a =
    (let bc0 = a ! 0 XOR a ! 5 XOR a ! 10 XOR a ! 15 XOR a ! 20;
         bc1 = a ! 1 XOR a ! 6 XOR a ! 11 XOR a ! 16 XOR a ! 21;
         bc2 = a ! 2 XOR a ! 7 XOR a ! 12 XOR a ! 17 XOR a ! 22;
         bc3 = a ! 3 XOR a ! 8 XOR a ! 13 XOR a ! 18 XOR a ! 23;
         bc4 = a ! 4 XOR a ! 9 XOR a ! 14 XOR a ! 19 XOR a ! 24;
         d0 = bc4 XOR (rol bc1 1); d1 = bc0 XOR (rol bc2 1); d2 = bc1 XOR (rol bc3 1); d3 = bc2 XOR (rol bc4 1);
         d4 = bc3 XOR (rol bc0 1);
         bc0 = a ! 0 XOR d0; t = a ! 16 XOR d1; bc1 = rol t 44; t = a ! 7 XOR d2; bc2 = rol t 43;
         t = a ! 23 XOR d3; bc3 = rol t 21; t = a ! 14 XOR d4; bc4 = rol t 14;
         a = a[0 := bc0 XOR (bc2 AND NOT bc1) XOR c]; a = a[16 := bc1 XOR (bc3 AND NOT bc2)];
         a = a[7 := bc2 XOR (bc4 AND NOT bc3)]; a = a[23 := bc3 XOR (bc0 AND NOT bc4)];
         a = a[14 := bc4 XOR (bc1 AND NOT bc0)];
         t = a ! 20 XOR d0; bc2 = rol t 3; t = a ! 11 XOR d1; bc3 = rol t 45; t = a ! 2 XOR d2; bc4 = rol t 61;
         t = a ! 18 XOR d3; bc0 = rol t 28; t = a ! 9 XOR d4; bc1 = rol t 20;
         a = a[20 := bc0 XOR (bc2 AND NOT bc1)]; a = a[11 := bc1 XOR (bc3 AND NOT bc2)];
         a = a[2 := bc2 XOR (bc4 AND NOT bc3)]; a = a[18 := bc3 XOR (bc0 AND NOT bc4)];
         a = a[9 := bc4 XOR (bc1 AND NOT bc0)];
         t = a ! 15 XOR d0; bc4 = rol t 18; t = a ! 6 XOR d1; bc0 = rol t 1; t = a ! 22 XOR d2; bc1 = rol t 6;
         t = a ! 13 XOR d3; bc2 = rol t 25; t = a ! 4 XOR d4; bc3 = rol t 8;
         a = a[15 := bc0 XOR (bc2 AND NOT bc1)]; a = a[6 := bc1 XOR (bc3 AND NOT bc2)];
         a = a[22 := bc2 XOR (bc4 AND NOT bc3)]; a = a[13 := bc3 XOR (bc0 AND NOT bc4)];
         a = a[4 := bc4 XOR (bc1 AND NOT bc0)];
         t = a ! 10 XOR d0; bc1 = rol t 36; t = a ! 1 XOR d1; bc2 = rol t 10; t = a ! 17 XOR d2; bc3 = rol t 15;
         t = a ! 8 XOR d3; bc4 = rol t 56; t = a ! 24 XOR d4; bc0 = rol t 27;
         a = a[10 := bc0 XOR (bc2 AND NOT bc1)]; a = a[1 := bc1 XOR (bc3 AND NOT bc2)];
         a = a[17 := bc2 XOR (bc4 AND NOT bc3)]; a = a[8 := bc3 XOR (bc0 AND NOT bc4)];
         a = a[24 := bc4 XOR (bc1 AND NOT bc0)];
         t = a ! 5 XOR d0; bc3 = rol t 41; t = a ! 21 XOR d1; bc4 = rol t 2; t = a ! 12 XOR d2; bc0 = rol t 62;
         t = a ! 3 XOR d3; bc1 = rol t 55; t = a ! 19 XOR d4; bc2 = rol t 39;
         a = a[5 := bc0 XOR (bc2 AND NOT bc1)]; a = a[21 := bc1 XOR (bc3 AND NOT bc2)];
         a = a[12 := bc2 XOR (bc4 AND NOT bc3)]; a = a[3 := bc3 XOR (bc0 AND NOT bc4)];
         a = a[19 := bc4 XOR (bc1 AND NOT bc0)]
     in a)"

definition keccak_round3 :: "u64 \<Rightarrow> u64 list \<Rightarrow> u64 list" where
  "keccak_round3 c a =
    (let bc0 = a ! 0 XOR a ! 5 XOR a ! 10 XOR a ! 15 XOR a ! 20;
         bc1 = a ! 1 XOR a ! 6 XOR a ! 11 XOR a ! 16 XOR a ! 21;
         bc2 = a ! 2 XOR a ! 7 XOR a ! 12 XOR a ! 17 XOR a ! 22;
         bc3 = a ! 3 XOR a ! 8 XOR a ! 13 XOR a ! 18 XOR a ! 23;
         bc4 = a ! 4 XOR a ! 9 XOR a ! 14 XOR a ! 19 XOR a ! 24;
         d0 = bc4 XOR (rol bc1 1); d1 = bc0 XOR (rol bc2 1); d2 = bc1 XOR (rol bc3 1); d3 = bc2 XOR (rol bc4 1);
         d4 = bc3 XOR (rol bc0 1);
         bc0 = a ! 0 XOR d0; t = a ! 11 XOR d1; bc1 = rol t 44; t = a ! 22 XOR d2; bc2 = rol t 43;
         t = a ! 8 XOR d3; bc3 = rol t 21; t = a ! 19 XOR d4; bc4 = rol t 14;
         a = a[0 := bc0 XOR (bc2 AND NOT bc1) XOR c]; a = a[11 := bc1 XOR (bc3 AND NOT bc2)];
         a = a[22 := bc2 XOR (bc4 AND NOT bc3)]; a = a[8 := bc3 XOR (bc0 AND NOT bc4)];
         a = a[19 := bc4 XOR (bc1 AND NOT bc0)];
         t = a ! 15 XOR d0; bc2 = rol t 3; t = a ! 1 XOR d1; bc3 = rol t 45; t = a ! 12 XOR d2; bc4 = rol t 61;
         t = a ! 23 XOR d3; bc0 = rol t 28; t = a ! 9 XOR d4; bc1 = rol t 20;
         a = a[15 := bc0 XOR (bc2 AND NOT bc1)]; a = a[1 := bc1 XOR (bc3 AND NOT bc2)];
         a = a[12 := bc2 XOR (bc4 AND NOT bc3)]; a = a[23 := bc3 XOR (bc0 AND NOT bc4)];
         a = a[9 := bc4 XOR (bc1 AND NOT bc0)];
         t = a ! 5 XOR d0; bc4 = rol t 18; t = a ! 16 XOR d1; bc0 = rol t 1; t = a ! 2 XOR d2; bc1 = rol t 6;
         t = a ! 13 XOR d3; bc2 = rol t 25; t = a ! 24 XOR d4; bc3 = rol t 8;
         a = a[5 := bc0 XOR (bc2 AND NOT bc1)]; a = a[16 := bc1 XOR (bc3 AND NOT bc2)];
         a = a[2 := bc2 XOR (bc4 AND NOT bc3)]; a = a[13 := bc3 XOR (bc0 AND NOT bc4)];
         a = a[24 := bc4 XOR (bc1 AND NOT bc0)];
         t = a ! 20 XOR d0; bc1 = rol t 36; t = a ! 6 XOR d1; bc2 = rol t 10; t = a ! 17 XOR d2; bc3 = rol t 15;
         t = a ! 3 XOR d3; bc4 = rol t 56; t = a ! 14 XOR d4; bc0 = rol t 27;
         a = a[20 := bc0 XOR (bc2 AND NOT bc1)]; a = a[6 := bc1 XOR (bc3 AND NOT bc2)];
         a = a[17 := bc2 XOR (bc4 AND NOT bc3)]; a = a[3 := bc3 XOR (bc0 AND NOT bc4)];
         a = a[14 := bc4 XOR (bc1 AND NOT bc0)];
         t = a ! 10 XOR d0; bc3 = rol t 41; t = a ! 21 XOR d1; bc4 = rol t 2; t = a ! 7 XOR d2; bc0 = rol t 62;
         t = a ! 18 XOR d3; bc1 = rol t 55; t = a ! 4 XOR d4; bc2 = rol t 39;
         a = a[10 := bc0 XOR (bc2 AND NOT bc1)]; a = a[21 := bc1 XOR (bc3 AND NOT bc2)];
         a = a[7 := bc2 XOR (bc4 AND NOT bc3)]; a = a[18 := bc3 XOR (bc0 AND NOT bc4)];
         a = a[4 := bc4 XOR (bc1 AND NOT bc0)]
     in a)"

definition keccak_round4 :: "u64 \<Rightarrow> u64 list \<Rightarrow> u64 list" where
  "keccak_round4 c a =
    (let bc0 = a ! 0 XOR a ! 5 XOR a ! 10 XOR a ! 15 XOR a ! 20;
         bc1 = a ! 1 XOR a ! 6 XOR a ! 11 XOR a ! 16 XOR a ! 21;
         bc2 = a ! 2 XOR a ! 7 XOR a ! 12 XOR a ! 17 XOR a ! 22;
         bc3 = a ! 3 XOR a ! 8 XOR a ! 13 XOR a ! 18 XOR a ! 23;
         bc4 = a ! 4 XOR a ! 9 XOR a ! 14 XOR a ! 19 XOR a ! 24;
         d0 = bc4 XOR (rol bc1 1); d1 = bc0 XOR (rol bc2 1); d2 = bc1 XOR (rol bc3 1); d3 = bc2 XOR (rol bc4 1);
         d4 = bc3 XOR (rol bc0 1);
         bc0 = a ! 0 XOR d0; t = a ! 1 XOR d1; bc1 = rol t 44; t = a ! 2 XOR d2; bc2 = rol t 43;
         t = a ! 3 XOR d3; bc3 = rol t 21; t = a ! 4 XOR d4; bc4 = rol t 14;
         a = a[0 := bc0 XOR (bc2 AND NOT bc1) XOR c]; a = a[1 := bc1 XOR (bc3 AND NOT bc2)];
         a = a[2 := bc2 XOR (bc4 AND NOT bc3)]; a = a[3 := bc3 XOR (bc0 AND NOT bc4)];
         a = a[4 := bc4 XOR (bc1 AND NOT bc0)];
         t = a ! 5 XOR d0; bc2 = rol t 3; t = a ! 6 XOR d1; bc3 = rol t 45; t = a ! 7 XOR d2; bc4 = rol t 61;
         t = a ! 8 XOR d3; bc0 = rol t 28; t = a ! 9 XOR d4; bc1 = rol t 20;
         a = a[5 := bc0 XOR (bc2 AND NOT bc1)]; a = a[6 := bc1 XOR (bc3 AND NOT bc2)];
         a = a[7 := bc2 XOR (bc4 AND NOT bc3)]; a = a[8 := bc3 XOR (bc0 AND NOT bc4)];
         a = a[9 := bc4 XOR (bc1 AND NOT bc0)];
         t = a ! 10 XOR d0; bc4 = rol t 18; t = a ! 11 XOR d1; bc0 = rol t 1; t = a ! 12 XOR d2; bc1 = rol t 6;
         t = a ! 13 XOR d3; bc2 = rol t 25; t = a ! 14 XOR d4; bc3 = rol t 8;
         a = a[10 := bc0 XOR (bc2 AND NOT bc1)]; a = a[11 := bc1 XOR (bc3 AND NOT bc2)];
         a = a[12 := bc2 XOR (bc4 AND NOT bc3)]; a = a[13 := bc3 XOR (bc0 AND NOT bc4)];
         a = a[14 := bc4 XOR (bc1 AND NOT bc0)];
         t = a ! 15 XOR d0; bc1 = rol t 36; t = a ! 16 XOR d1; bc2 = rol t 10; t = a ! 17 XOR d2;
         bc3 = rol t 15; t = a ! 18 XOR d3; bc4 = rol t 56; t = a ! 19 XOR d4; bc0 = rol t 27;
         a = a[15 := bc0 XOR (bc2 AND NOT bc1)]; a = a[16 := bc1 XOR (bc3 AND NOT bc2)];
         a = a[17 := bc2 XOR (bc4 AND NOT bc3)]; a = a[18 := bc3 XOR (bc0 AND NOT bc4)];
         a = a[19 := bc4 XOR (bc1 AND NOT bc0)];
         t = a ! 20 XOR d0; bc3 = rol t 41; t = a ! 21 XOR d1; bc4 = rol t 2; t = a ! 22 XOR d2; bc0 = rol t 62;
         t = a ! 23 XOR d3; bc1 = rol t 55; t = a ! 24 XOR d4; bc2 = rol t 39;
         a = a[20 := bc0 XOR (bc2 AND NOT bc1)]; a = a[21 := bc1 XOR (bc3 AND NOT bc2)];
         a = a[22 := bc2 XOR (bc4 AND NOT bc3)]; a = a[23 := bc3 XOR (bc0 AND NOT bc4)];
         a = a[24 := bc4 XOR (bc1 AND NOT bc0)]
     in a)"

text \<open>One pass of the loop, and the loop.\<close>

definition keccak_rounds :: "nat \<Rightarrow> u64 list \<Rightarrow> u64 list" where
  "keccak_rounds i a =
    (let a = keccak_round1 (rc ! i) a; a = keccak_round2 (rc ! (i + 1)) a; a = keccak_round3 (rc ! (i + 2)) a
     in keccak_round4 (rc ! (i + 3)) a)"

function keccak_loop :: "nat \<Rightarrow> u64 list \<Rightarrow> u64 list" where
  "keccak_loop i a = (if i < 24 then keccak_loop (i + 4) (keccak_rounds i a) else a)"
  by pat_completeness auto
termination
  by (relation "measure (\<lambda>(i, a). 24 - i)") auto

declare keccak_loop.simps [simp del]

definition keccakF1600 :: "u64 list \<Rightarrow> u64 list" where
  "keccakF1600 a = keccak_loop 0 a"

section \<open>The standard\<close>

text \<open>Lane \<open>(x, y)\<close> is element \<open>x + 5 * y\<close>.\<close>

definition lanes :: "(nat \<Rightarrow> nat \<Rightarrow> u64) \<Rightarrow> u64 list" where
  "lanes f = map (\<lambda>i. f (i mod 5) (i div 5)) [0..<25]"

abbreviation lane :: "u64 list \<Rightarrow> nat \<Rightarrow> nat \<Rightarrow> u64" where
  "lane a x y \<equiv> a ! (x + 5 * y)"

definition column :: "u64 list \<Rightarrow> nat \<Rightarrow> u64" where
  "column a x = lane a x 0 XOR lane a x 1 XOR lane a x 2 XOR lane a x 3 XOR lane a x 4"

definition theta :: "u64 list \<Rightarrow> u64 list" where
  "theta a = lanes (\<lambda>x y. lane a x y XOR (column a ((x + 4) mod 5) XOR word_rotl 1 (column a ((x + 1) mod 5))))"

text \<open>The offsets of \<open>rho\<close>: starting at lane \<open>(1, 0)\<close> and going on from \<open>(x, y)\<close> to \<open>(y, 2 * x + 3 * y)\<close>, the lane
  reached at step \<open>t\<close> is rotated by \<open>(t + 1) * (t + 2) / 2\<close>.\<close>

fun rho_walk :: "nat \<Rightarrow> nat \<times> nat" where
  "rho_walk 0 = (1, 0)"
| "rho_walk (Suc t) = (let (x, y) = rho_walk t in (y, (2 * x + 3 * y) mod 5))"

definition offsets :: "nat list" where
  "offsets = [0, 1, 62, 28, 27, 36, 44, 6, 55, 20, 3, 10, 43, 25, 39, 41, 45, 15, 21, 8, 18, 2, 61, 56, 14]"

definition rho :: "u64 list \<Rightarrow> u64 list" where
  "rho a = lanes (\<lambda>x y. word_rotl (offsets ! (x + 5 * y)) (lane a x y))"

definition pi_step :: "u64 list \<Rightarrow> u64 list" where
  "pi_step a = lanes (\<lambda>x y. lane a ((x + 3 * y) mod 5) x)"

definition chi :: "u64 list \<Rightarrow> u64 list" where
  "chi a = lanes (\<lambda>x y. lane a x y XOR (NOT (lane a ((x + 1) mod 5) y) AND lane a ((x + 2) mod 5) y))"

definition iota :: "u64 \<Rightarrow> u64 list \<Rightarrow> u64 list" where
  "iota c a = a[0 := a ! 0 XOR c]"

definition std_round :: "u64 \<Rightarrow> u64 list \<Rightarrow> u64 list" where
  "std_round c a = iota c (chi (pi_step (rho (theta a))))"

text \<open>The round constants of the standard: bit \<open>2 ^ j - 1\<close> of constant \<open>i\<close> is the output at time \<open>j + 7 * i\<close> of the
  shift register with feedback polynomial \<open>x^8 + x^6 + x^5 + x^4 + 1\<close>.\<close>

definition lfsr_step :: "byte \<Rightarrow> byte" where
  "lfsr_step r = (let s = push_bit 1 r in if bit r 7 then s XOR 0x71 else s)"

primrec lfsr_run :: "nat \<Rightarrow> byte \<Rightarrow> bool list" where
  "lfsr_run 0 r = []"
| "lfsr_run (Suc n) r = bit r 0 # lfsr_run n (lfsr_step r)"

definition rc_of_bits :: "bool list \<Rightarrow> nat \<Rightarrow> u64" where
  "rc_of_bits bs i = foldr (\<lambda>j c. if bs ! (j + 7 * i) then set_bit (2 ^ j - 1) c else c) [0..<7] 0"

definition std_rc :: "u64 list" where
  "std_rc = map (rc_of_bits (lfsr_run 168 1)) [0..<24]"

definition keccak_f :: "u64 list \<Rightarrow> u64 list" where
  "keccak_f a = fold std_round std_rc a"

section \<open>The code is the standard\<close>

lemma rol_eq: "n < 64 \<Longrightarrow> rol t n = word_rotl n t"
proof (rule bit_word_eqI)
  fix k assume n: "n < 64" and k: "k < LENGTH(64)"
  show "bit (rol t n) k = bit (word_rotl n t) k"
  proof (cases "n \<le> k")
    case True
    then have "(k + (64 - n)) mod 64 = k - n" using k n by (simp add: mod_if)
    moreover have "\<not> bit t (64 - n + k)" using True k by (auto dest: bit_imp_le_length)
    ultimately show ?thesis using n k True by (simp add: rol_def bit_word_rotl_iff bit_push_bit_iff bit_drop_bit_eq bit_or_iff)
  next
    case False
    then have "(k + (64 - n)) mod 64 = 64 - n + k" using k n by simp
    then show ?thesis using n k False
      by (simp add: rol_def bit_word_rotl_iff bit_push_bit_iff bit_drop_bit_eq bit_or_iff)
  qed
qed

lemma offsets_walk: "t < 24 \<Longrightarrow> (case rho_walk t of (x, y) \<Rightarrow> offsets ! (x + 5 * y)) = (t + 1) * (t + 2) div 2 mod 64"
proof -
  have "\<forall>t \<in> set [0..<24]. (case rho_walk t of (x, y) \<Rightarrow> offsets ! (x + 5 * y)) = (t + 1) * (t + 2) div 2 mod 64"
    by code_simp
  then show "t < 24 \<Longrightarrow> ?thesis" by simp
qed

lemma rc_std: "rc = std_rc"
  by code_simp

lemma list_25:
  assumes "length a = 25"
  obtains a0 a1 a2 a3 a4 a5 a6 a7 a8 a9 a10 a11 a12 a13 a14 a15 a16 a17 a18 a19 a20 a21 a22 a23 a24 where
    "a = [a0, a1, a2, a3, a4, a5, a6, a7, a8, a9, a10, a11, a12, a13, a14, a15, a16, a17, a18, a19, a20, a21, a22, a23, a24]"
  using assms by (auto simp: length_Suc_conv numeral_eq_Suc)

lemma upt_25: "[0..<25] = [0, 1, 2, 3, 4, 5, 6, 7, 8, 9, 10, 11, 12, 13, 14, 15, 16, 17, 18, 19, 20, 21, 22, 23, 24]"
  by code_simp

text \<open>Where the lanes are after each of the four rounds.\<close>

definition at_layout :: "nat list \<Rightarrow> u64 list \<Rightarrow> u64 list" where
  "at_layout l a = map (\<lambda>p. a ! p) l"

definition layout1 :: "nat list" where
  "layout1 = [0, 6, 12, 18, 24, 10, 16, 22, 3, 9, 20, 1, 7, 13, 19, 5, 11, 17, 23, 4, 15, 21, 2, 8, 14]"

definition layout2 :: "nat list" where
  "layout2 = [0, 16, 7, 23, 14, 20, 11, 2, 18, 9, 15, 6, 22, 13, 4, 10, 1, 17, 8, 24, 5, 21, 12, 3, 19]"

definition layout3 :: "nat list" where
  "layout3 = [0, 11, 22, 8, 19, 15, 1, 12, 23, 9, 5, 16, 2, 13, 24, 20, 6, 17, 3, 14, 10, 21, 7, 18, 4]"

lemma rotl_0: "word_rotl 0 w = (w :: u64)"
  by (rule bit_word_eqI) (simp add: bit_word_rotl_iff)

lemmas std_simps = std_round_def iota_def chi_def pi_step_def rho_def theta_def column_def lanes_def upt_25 offsets_def

lemmas layout_simps = at_layout_def layout1_def layout2_def layout3_def

lemmas lane_simps = Let_def rol_eq rotl_0 and.commute xor.assoc xor.commute xor.left_commute

lemma round1: "length a = 25 \<Longrightarrow> at_layout layout1 (keccak_round1 c a) = std_round c a"
  by (elim list_25) (simp add: keccak_round1_def layout_simps std_simps lane_simps)

lemma round2: "length a = 25 \<Longrightarrow> at_layout layout2 (keccak_round2 c a) = std_round c (at_layout layout1 a)"
  by (elim list_25) (simp add: keccak_round2_def layout_simps std_simps lane_simps)

lemma round3: "length a = 25 \<Longrightarrow> at_layout layout3 (keccak_round3 c a) = std_round c (at_layout layout2 a)"
  by (elim list_25) (simp add: keccak_round3_def layout_simps std_simps lane_simps)

lemma round4: "length a = 25 \<Longrightarrow> keccak_round4 c a = std_round c (at_layout layout3 a)"
  by (elim list_25) (simp add: keccak_round4_def layout_simps std_simps lane_simps)

lemma length_rounds [simp]:
  "length (keccak_round1 c a) = length a" "length (keccak_round2 c a) = length a"
  "length (keccak_round3 c a) = length a" "length (keccak_round4 c a) = length a"
  by (simp_all add: keccak_round1_def keccak_round2_def keccak_round3_def keccak_round4_def Let_def)

lemma keccak_rounds_std:
  "length a = 25 \<Longrightarrow> keccak_rounds i a =
    std_round (rc ! (i + 3)) (std_round (rc ! (i + 2)) (std_round (rc ! (i + 1)) (std_round (rc ! i) a)))"
  by (simp add: keccak_rounds_def Let_def round1 round2 round3 round4)

lemma length_keccak_rounds [simp]: "length (keccak_rounds i a) = length a"
  by (simp add: keccak_rounds_def Let_def)

lemma drop_4: "i + 4 \<le> length xs \<Longrightarrow> drop i xs = xs ! i # xs ! (i + 1) # xs ! (i + 2) # xs ! (i + 3) # drop (i + 4) xs"
  by (simp add: Cons_nth_drop_Suc [symmetric] eval_nat_numeral)

lemma length_rc: "length rc = 24"
  by (simp add: rc_def)

lemma keccak_loop_std: "4 dvd i \<Longrightarrow> length a = 25 \<Longrightarrow> keccak_loop i a = fold std_round (drop i rc) a"
proof (induction i a rule: keccak_loop.induct)
  case (1 i a)
  show ?case
  proof (cases "i < 24")
    case True
    then have "i + 4 \<le> 24" using \<open>4 dvd i\<close> by presburger
    then have "drop i rc = rc ! i # rc ! (i + 1) # rc ! (i + 2) # rc ! (i + 3) # drop (i + 4) rc"
      by (intro drop_4) (simp add: length_rc)
    moreover have "keccak_loop i a = fold std_round (drop (i + 4) rc) (keccak_rounds i a)"
      using 1 True by (subst keccak_loop.simps) simp
    ultimately show ?thesis using 1 by (simp add: keccak_rounds_std)
  next
    case False
    then show ?thesis by (subst keccak_loop.simps) (simp add: length_rc)
  qed
qed

lemma keccak_f_code: "length a = 25 \<Longrightarrow> keccak_f a = keccakF1600 a"
  by (simp add: keccakF1600_def keccak_loop_std keccak_f_def rc_std)

lemma length_keccak_loop: "length (keccak_loop i a) = length a"
proof (induction i a rule: keccak_loop.induct)
  case (1 i a)
  then show ?case by (subst keccak_loop.simps) simp
qed

lemma keccakF1600_length: "length (keccakF1600 a) = length a"
  by (simp add: keccakF1600_def length_keccak_loop)

text \<open>
  C16. The permutation is the one of the standard: on every state of 25 lanes the six passes over the four
  rounds that work in place compute the 24 rounds of theta, rho, pi, chi and iota, with the round
  constants of the linear feedback shift register.
\<close>
theorem keccakF1600_std: "length a = 25 \<Longrightarrow> keccakF1600 a = keccak_f a"
  by (simp add: keccak_f_code)

lemma keccakF1600_std_witness: "keccakF1600 (replicate 25 0) = keccak_f (replicate 25 0)"
  by (rule keccakF1600_std) simp

end
