(* ===== verification/Sha3.thy ===== *)
theory Sha3
  imports Keccak
begin

text \<open>
  The sponge of \<open>crypto/sha3\<close>: \<open>sha3.go\<close>, \<open>hashes.go\<close>, \<open>shake.go\<close>, \<open>xor_generic.go\<close>, \<open>xor_unaligned.go\<close>, and the hash
  functions of \<open>crypto/crypto.go\<close>. The buffer is a slice of the array \<open>storage\<close>: a start, a length, and the
  rest of the array as its capacity. The sponge uses the portable \<open>xorInGeneric\<close> and \<open>copyOutGeneric\<close>, as the
  build without assembly does.
\<close>

section \<open>Bytes and lanes\<close>

text \<open>\<open>binary.LittleEndian.Uint64\<close> and \<open>PutUint64\<close> of the Go standard library.\<close>

definition le_Uint64 :: "bytes \<Rightarrow> u64" where
  "le_Uint64 b = foldr (\<lambda>i w. push_bit (8 * i) (ucast (b ! i)) OR w) [0..<8] 0"

definition le_PutUint64 :: "u64 \<Rightarrow> bytes" where
  "le_PutUint64 w = map (\<lambda>i. ucast (drop_bit (8 * i) w)) [0..<8]"

fun xorIn_loop :: "nat \<Rightarrow> nat \<Rightarrow> bytes \<Rightarrow> u64 list \<Rightarrow> (unit, u64 list) outcome" where
  "xorIn_loop 0 i buf a = Ok a"
| "xorIn_loop (Suc n) i buf a =
    (if i < length a then xorIn_loop n (i + 1) (drop 8 buf) (a[i := a ! i XOR le_Uint64 (take 8 buf)]) else Panic)"

definition xorInGeneric :: "u64 list \<Rightarrow> bytes \<Rightarrow> (unit, u64 list) outcome" where
  "xorInGeneric a buf = xorIn_loop (length buf div 8) 0 buf a"

function copyOut_loop :: "nat \<Rightarrow> u64 list \<Rightarrow> bytes \<Rightarrow> (unit, bytes) outcome" where
  "copyOut_loop i a b =
    (if length b \<ge> 8 then
       if i < length a then obind (copyOut_loop (i + 1) a (drop 8 b)) (\<lambda>r. Ok (le_PutUint64 (a ! i) @ r)) else Panic
     else Ok b)"
  by pat_completeness auto
termination
  by (relation "measure (\<lambda>(i, a, b). length b)") auto

declare copyOut_loop.simps [simp del]

definition copyOutGeneric :: "u64 list \<Rightarrow> bytes \<Rightarrow> (unit, bytes) outcome" where
  "copyOutGeneric a b = copyOut_loop 0 a b"

text \<open>
  The variants for little-endian machines read the input as an array of words (\<open>bw\<close>) and the state as an
  array of bytes. A word of \<open>bw\<close> is read only where the buffer has the bytes.
\<close>

definition bw :: "bytes \<Rightarrow> nat \<Rightarrow> u64" where
  "bw buf i = le_Uint64 (take 8 (drop (8 * i) buf))"

definition xor_words :: "bytes \<Rightarrow> nat \<Rightarrow> nat \<Rightarrow> u64 list \<Rightarrow> u64 list" where
  "xor_words buf lo hi a = fold (\<lambda>i a. a[i := a ! i XOR bw buf i]) [lo..<hi] a"

definition xorInUnaligned :: "u64 list \<Rightarrow> bytes \<Rightarrow> (unit, u64 list) outcome" where
  "xorInUnaligned a buf =
    (if buf = [] then Panic
     else
       let n = length buf;
           a = (if n \<ge> 72 then xor_words buf 0 9 a else a);
           a = (if n \<ge> 104 then xor_words buf 9 13 a else a);
           a = (if n \<ge> 136 then xor_words buf 13 17 a else a);
           a = (if n \<ge> 144 then xor_words buf 17 18 a else a);
           a = (if n \<ge> 168 then xor_words buf 18 21 a else a)
       in Ok a)"

definition maxRate :: nat where
  "maxRate = 168"

definition copyOutUnaligned :: "u64 list \<Rightarrow> bytes \<Rightarrow> (unit, bytes) outcome" where
  "copyOutUnaligned a buf =
    (let ab = take maxRate (concat (map le_PutUint64 a)) in Ok (take (length buf) ab @ drop (length ab) buf))"

section \<open>The sponge\<close>

datatype spongeDirection = spongeAbsorbing | spongeSqueezing

record state =
  lanes_of :: "u64 list"
  buf :: "(nat \<times> nat) option"
  rate :: nat
  dsbyte :: byte
  storage :: bytes
  outputLen :: nat
  direction :: spongeDirection

definition BlockSize :: "state \<Rightarrow> nat" where
  "BlockSize d = rate d"

definition Size :: "state \<Rightarrow> nat" where
  "Size d = outputLen d"

definition buf_len :: "state \<Rightarrow> nat" where
  "buf_len d = (case buf d of None \<Rightarrow> 0 | Some (_, n) \<Rightarrow> n)"

definition buf_cap :: "state \<Rightarrow> nat" where
  "buf_cap d = (case buf d of None \<Rightarrow> 0 | Some (st, _) \<Rightarrow> maxRate - st)"

definition buf_bytes :: "state \<Rightarrow> bytes" where
  "buf_bytes d = (case buf d of None \<Rightarrow> [] | Some (st, n) \<Rightarrow> take n (drop st (storage d)))"

text \<open>\<open>d.buf = d.storage[lo:hi]\<close>.\<close>

definition set_buf :: "nat \<Rightarrow> nat \<Rightarrow> state \<Rightarrow> (unit, state) outcome" where
  "set_buf lo hi d = (if lo \<le> hi \<and> hi \<le> maxRate then Ok (d\<lparr>buf := Some (lo, hi - lo)\<rparr>) else Panic)"

text \<open>Bytes written into \<open>storage\<close> from position \<open>i\<close>.\<close>

definition put_storage :: "nat \<Rightarrow> bytes \<Rightarrow> state \<Rightarrow> state" where
  "put_storage i b d = d\<lparr>storage := take i (storage d) @ b @ drop (i + length b) (storage d)\<rparr>"

text \<open>
  \<open>d.buf = append(d.buf, b...)\<close>, which writes into \<open>storage\<close> as long as the capacity lasts. A buffer that had
  to be copied out of \<open>storage\<close> is not modelled (\<open>Err\<close>); it does not occur, since the rate is at most
  \<open>maxRate\<close>.
\<close>

definition append_buf :: "bytes \<Rightarrow> state \<Rightarrow> (unit, state) outcome" where
  "append_buf b d =
    (case buf d of
       Some (st, n) \<Rightarrow>
         if st + n + length b \<le> maxRate then Ok ((put_storage (st + n) b d)\<lparr>buf := Some (st, n + length b)\<rparr>) else Err ()
     | None \<Rightarrow> if b = [] then Ok d else Err ())"

definition Reset :: "state \<Rightarrow> state" where
  "Reset d = d\<lparr>lanes_of := map (\<lambda>_. 0) (lanes_of d), direction := spongeAbsorbing, buf := Some (0, 0)\<rparr>"

definition clone :: "state \<Rightarrow> (unit, state) outcome" where
  "clone d =
    (if direction d = spongeAbsorbing then set_buf 0 (buf_len d) d
     else if buf_cap d \<le> rate d then set_buf (rate d - buf_cap d) (rate d) d
     else Panic)"

definition copyOut_buf :: "state \<Rightarrow> (unit, state) outcome" where
  "copyOut_buf d = obind (copyOutGeneric (lanes_of d) (buf_bytes d)) (\<lambda>b.
     Ok (case buf d of None \<Rightarrow> d | Some (st, _) \<Rightarrow> put_storage st b d))"

definition permute :: "state \<Rightarrow> (unit, state) outcome" where
  "permute d =
    (case direction d of
       spongeAbsorbing \<Rightarrow>
         obind (xorInGeneric (lanes_of d) (buf_bytes d)) (\<lambda>a.
         obind (set_buf 0 0 d) (\<lambda>d. Ok (d\<lparr>lanes_of := keccakF1600 a\<rparr>)))
     | spongeSqueezing \<Rightarrow>
         let d = d\<lparr>lanes_of := keccakF1600 (lanes_of d)\<rparr>
         in obind (set_buf 0 (rate d) d) copyOut_buf)"

text \<open>\<open>if d.buf == nil { d.buf = d.storage[:0] }\<close>\<close>

definition init_buf :: "state \<Rightarrow> (unit, state) outcome" where
  "init_buf d = (if buf d = None then set_buf 0 0 d else Ok d)"

definition padAndPermute :: "byte \<Rightarrow> state \<Rightarrow> (unit, state) outcome" where
  "padAndPermute ds d =
    obind (init_buf d) (\<lambda>d.
    obind (append_buf [ds] d) (\<lambda>d.
    let zerosStart = buf_len d
    in obind (set_buf 0 (rate d) d) (\<lambda>d.
       let d = put_storage zerosStart (replicate (rate d - zerosStart) 0) d
       in if rate d = 0 then Panic
          else
            let d = d\<lparr>storage := (storage d)[rate d - 1 := storage d ! (rate d - 1) XOR 0x80]\<rparr>
            in obind (permute d) (\<lambda>d.
               obind (set_buf 0 (rate d) (d\<lparr>direction := spongeSqueezing\<rparr>)) copyOut_buf))))"

partial_function (option) Write_loop :: "bytes \<Rightarrow> state \<Rightarrow> (unit, state) run" where
  "Write_loop p d =
    (if length p > 0 then
       if buf_len d = 0 \<and> length p \<ge> rate d then
         rbind (Some (xorInGeneric (lanes_of d) (take (rate d) p))) (\<lambda>a.
         Write_loop (drop (rate d) p) (d\<lparr>lanes_of := keccakF1600 a\<rparr>))
       else
         let todo = (if rate d - buf_len d > length p then length p else rate d - buf_len d)
         in rbind (Some (append_buf (take todo p) d)) (\<lambda>d.
            rbind (if buf_len d = rate d then Some (permute d) else Some (Ok d)) (\<lambda>d.
            Write_loop (drop todo p) d))
     else Some (Ok d))"

definition Write :: "bytes \<Rightarrow> state \<Rightarrow> (unit, nat \<times> state) run" where
  "Write p d =
    (if direction d \<noteq> spongeAbsorbing then Some Panic
     else rbind (Some (init_buf d)) (\<lambda>d. rbind (Write_loop p d) (\<lambda>d. Some (Ok (length p, d)))))"

text \<open>\<open>Read\<close> fills a slice of \<open>n\<close> bytes and returns what it wrote.\<close>

partial_function (option) Read_loop :: "nat \<Rightarrow> bytes \<Rightarrow> state \<Rightarrow> (unit, bytes \<times> state) run" where
  "Read_loop left out d =
    (if left > 0 then
       let n = min left (buf_len d);
           out = out @ take n (buf_bytes d);
           d = d\<lparr>buf := (case buf d of None \<Rightarrow> None | Some (st, l) \<Rightarrow> Some (st + n, l - n))\<rparr>
       in rbind (if buf_len d = 0 then Some (permute d) else Some (Ok d)) (\<lambda>d. Read_loop (left - n) out d)
     else Some (Ok (out, d)))"

definition Read :: "nat \<Rightarrow> state \<Rightarrow> (unit, bytes \<times> state) run" where
  "Read n d =
    rbind (if direction d = spongeAbsorbing then Some (padAndPermute (dsbyte d) d) else Some (Ok d)) (\<lambda>d.
    Read_loop n [] d)"

definition Sum :: "bytes \<Rightarrow> state \<Rightarrow> (unit, bytes) run" where
  "Sum inp d =
    rbind (Some (clone d)) (\<lambda>dup.
    rbind (Read (outputLen dup) dup) (\<lambda>(hash, _). Some (Ok (inp @ hash))))"

section \<open>Instances\<close>

definition fresh_state :: "nat \<Rightarrow> nat \<Rightarrow> byte \<Rightarrow> state" where
  "fresh_state r out ds =
    \<lparr>lanes_of = replicate 25 0, buf = None, rate = r, dsbyte = ds, storage = replicate maxRate 0, outputLen = out,
     direction = spongeAbsorbing\<rparr>"

definition NewKeccak256 :: state where "NewKeccak256 = fresh_state 136 32 0x01"
definition NewKeccak512 :: state where "NewKeccak512 = fresh_state 72 64 0x01"
definition New224 :: state where "New224 = fresh_state 144 28 0x06"
definition New256 :: state where "New256 = fresh_state 136 32 0x06"
definition New384 :: state where "New384 = fresh_state 104 48 0x06"
definition New512 :: state where "New512 = fresh_state 72 64 0x06"
definition NewShake128 :: state where "NewShake128 = fresh_state 168 0 0x1f"
definition NewShake256 :: state where "NewShake256 = fresh_state 136 0 0x1f"

text \<open>The digest is an array of as many bytes as \<open>Sum\<close> appends to its empty prefix.\<close>

definition Sum_of :: "state \<Rightarrow> bytes \<Rightarrow> (unit, bytes) run" where
  "Sum_of h data = rbind (Write data h) (\<lambda>(_, h). Sum [] h)"

definition Sum224 :: "bytes \<Rightarrow> (unit, bytes) run" where "Sum224 data = Sum_of New224 data"
definition Sum256 :: "bytes \<Rightarrow> (unit, bytes) run" where "Sum256 data = Sum_of New256 data"
definition Sum384 :: "bytes \<Rightarrow> (unit, bytes) run" where "Sum384 data = Sum_of New384 data"
definition Sum512 :: "bytes \<Rightarrow> (unit, bytes) run" where "Sum512 data = Sum_of New512 data"

definition ShakeSum128 :: "nat \<Rightarrow> bytes \<Rightarrow> (unit, bytes) run" where
  "ShakeSum128 n data = rbind (Write data NewShake128) (\<lambda>(_, h). rbind (Read n h) (\<lambda>(hash, _). Some (Ok hash)))"

definition ShakeSum256 :: "nat \<Rightarrow> bytes \<Rightarrow> (unit, bytes) run" where
  "ShakeSum256 n data = rbind (Write data NewShake256) (\<lambda>(_, h). rbind (Read n h) (\<lambda>(hash, _). Some (Ok hash)))"

text \<open>The loop \<open>for _, b := range data { d.Write(b) }\<close> over a writer.\<close>

primrec Write_all :: "(bytes \<Rightarrow> 'd \<Rightarrow> (unit, nat \<times> 'd) run) \<Rightarrow> bytes list \<Rightarrow> 'd \<Rightarrow> (unit, 'd) run" where
  "Write_all write [] d = Some (Ok d)"
| "Write_all write (b # bs) d = rbind (write b d) (\<lambda>(_, d). Write_all write bs d)"

definition Keccak256 :: "bytes list \<Rightarrow> (unit, bytes) run" where
  "Keccak256 data = rbind (Write_all Write data NewKeccak256) (Sum [])"

text \<open>\<open>Keccak256Hash\<close> lets \<open>Sum\<close> write into the array of the result.\<close>

definition Keccak256Hash :: "bytes list \<Rightarrow> (unit, bytes) run" where
  "Keccak256Hash data = rbind (Write_all Write data NewKeccak256) (Sum [])"

definition Keccak512 :: "bytes list \<Rightarrow> (unit, bytes) run" where
  "Keccak512 data = rbind (Write_all Write data NewKeccak512) (Sum [])"

end
