(* ===== verification/Sha3Spec.thy ===== *)
theory Sha3Spec
  imports Sha3
begin

text \<open>
  The sponge construction: a recursive definition of absorbing, padding and squeezing, and the proof that
  \<open>Write\<close>, \<open>Read\<close> and \<open>Sum\<close> with their buffer implement it for every division of the input and of the output.
\<close>

section \<open>The construction\<close>

definition xor_block :: "u64 list \<Rightarrow> bytes \<Rightarrow> u64 list" where
  "xor_block a b = map (\<lambda>i. if 8 * i + 8 \<le> length b then a ! i XOR bw b i else a ! i) [0..<length a]"

definition absorb1 :: "u64 list \<Rightarrow> bytes \<Rightarrow> u64 list" where
  "absorb1 a b = keccak_f (xor_block a b)"

function absorb :: "nat \<Rightarrow> u64 list \<Rightarrow> bytes \<Rightarrow> u64 list \<times> bytes" where
  "absorb r a m = (if 0 < r \<and> r \<le> length m then absorb r (absorb1 a (take r m)) (drop r m) else (a, m))"
  by pat_completeness auto
termination
  by (relation "measure (\<lambda>(r, a, m). length m)") auto

declare absorb.simps [simp del]

definition pad :: "nat \<Rightarrow> byte \<Rightarrow> bytes \<Rightarrow> bytes" where
  "pad r ds m = (let b = m @ ds # replicate (r - length m - 1) 0 in b[r - 1 := b ! (r - 1) XOR 0x80])"

definition state_bytes :: "u64 list \<Rightarrow> bytes" where
  "state_bytes a = concat (map le_PutUint64 a)"

text \<open>Byte \<open>j\<close> of the output.\<close>

definition squeezed :: "nat \<Rightarrow> u64 list \<Rightarrow> nat \<Rightarrow> byte" where
  "squeezed r a j = state_bytes ((keccak_f ^^ (j div r)) a) ! (j mod r)"

definition absorbed :: "nat \<Rightarrow> byte \<Rightarrow> bytes \<Rightarrow> u64 list" where
  "absorbed r ds m = (case absorb r (replicate 25 0) m of (a, rest) \<Rightarrow> absorb1 a (pad r ds rest))"

definition sponge :: "nat \<Rightarrow> byte \<Rightarrow> nat \<Rightarrow> bytes \<Rightarrow> bytes" where
  "sponge r ds n m = map (squeezed r (absorbed r ds m)) [0..<n]"

lemma absorb_append: "absorb r a m = (a', rest) \<Longrightarrow> absorb r a (m @ p) = absorb r a' (rest @ p)"
proof (induction r a m arbitrary: a' rest rule: absorb.induct)
  case (1 r a m)
  show ?case
  proof (cases "0 < r \<and> r \<le> length m")
    case True
    then have "absorb r a (m @ p) = absorb r (absorb1 a (take r m)) (drop r m @ p)" by (subst absorb.simps) simp
    then show ?thesis using 1 True by (simp add: absorb.simps [of r a m])
  next
    case False
    then show ?thesis using 1 by (auto simp: absorb.simps [of r a m] split: if_splits)
  qed
qed

lemma absorb_small: "length m < r \<Longrightarrow> absorb r a m = (a, m)"
  by (subst absorb.simps) simp

lemma absorb_block: "length b = r \<Longrightarrow> 0 < r \<Longrightarrow> absorb r a (b @ q) = absorb r (absorb1 a b) q"
  by (subst absorb.simps) simp

section \<open>Lanes\<close>

lemma length_keccak_f [simp]: "length a = 25 \<Longrightarrow> length (keccak_f a) = 25"
  by (simp add: keccakF1600_length keccak_f_code)

lemma length_xor_block [simp]: "length (xor_block a b) = length a"
  by (simp add: xor_block_def)

lemma length_absorb1 [simp]: "length a = 25 \<Longrightarrow> length (absorb1 a b) = 25"
  by (simp add: absorb1_def)

lemma bw_drop: "bw (drop 8 b) i = bw b (Suc i)"
  by (simp add: bw_def add.commute)

lemma bw_drop_diff: "i < j \<Longrightarrow> bw (drop 8 b) (j - Suc i) = bw b (j - i)"
  by (simp add: bw_drop Suc_diff_Suc)

lemma bw_0: "le_Uint64 (take 8 b) = bw b 0"
  by (simp add: bw_def)

lemma xorIn_loop_eq:
  "i + n \<le> length a \<Longrightarrow>
    xorIn_loop n i b a = Ok (map (\<lambda>j. if i \<le> j \<and> j < i + n then a ! j XOR bw b (j - i) else a ! j) [0..<length a])"
proof (induction n arbitrary: i b a)
  case 0
  then show ?case by (auto intro!: nth_equalityI)
next
  case (Suc n)
  then show ?case by (auto simp: bw_drop_diff bw_0 nth_list_update Suc_le_eq intro!: nth_equalityI)
qed

lemma xorInGeneric_eq: "8 * length a \<ge> length b \<Longrightarrow> xorInGeneric a b = Ok (xor_block a b)"
  unfolding xorInGeneric_def xor_block_def by (subst xorIn_loop_eq) (auto intro!: nth_equalityI)

lemma xor_words_eq:
  "hi \<le> length a \<Longrightarrow> xor_words b lo hi a = map (\<lambda>j. if lo \<le> j \<and> j < hi then a ! j XOR bw b j else a ! j) [0..<length a]"
proof (induction hi)
  case 0
  then show ?case by (auto simp: xor_words_def intro!: nth_equalityI)
next
  case (Suc hi)
  then show ?case by (cases "lo \<le> hi") (auto simp: xor_words_def nth_list_update less_Suc_eq intro!: nth_equalityI)
qed

lemma length_le_PutUint64 [simp]: "length (le_PutUint64 w) = 8"
  by (simp add: le_PutUint64_def)

lemma length_state_bytes [simp]: "length (state_bytes a) = 8 * length a"
  by (induction a) (simp_all add: state_bytes_def)

lemma drop_state_bytes: "i < length a \<Longrightarrow> drop (8 * i) (state_bytes a) = le_PutUint64 (a ! i) @ drop (8 * Suc i) (state_bytes a)"
proof (induction a arbitrary: i)
  case (Cons w a)
  then show ?case by (cases i) (simp_all add: state_bytes_def)
qed simp

lemma copyOut_loop_eq:
  "8 dvd length b \<Longrightarrow> 8 * i + length b \<le> 8 * length a \<Longrightarrow>
    copyOut_loop i a b = Ok (take (length b) (drop (8 * i) (state_bytes a)))"
proof (induction i a b rule: copyOut_loop.induct)
  case (1 i a b)
  show ?case
  proof (cases "length b \<ge> 8")
    case True
    then have "copyOut_loop (i + 1) a (drop 8 b) = Ok (take (length b - 8) (drop (8 * Suc i) (state_bytes a)))"
      using 1 by (auto simp: dvd_minus_self)
    then show ?thesis using True 1 by (subst copyOut_loop.simps) (simp add: drop_state_bytes [of i])
  next
    case False
    then have "b = []" using 1 by (auto dest!: dvd_imp_le)
    then show ?thesis by (subst copyOut_loop.simps) simp
  qed
qed

lemma copyOutGeneric_eq:
  "8 dvd length b \<Longrightarrow> length b \<le> 8 * length a \<Longrightarrow> copyOutGeneric a b = Ok (take (length b) (state_bytes a))"
  by (simp add: copyOutGeneric_def copyOut_loop_eq)

section \<open>Absorbing\<close>

definition ok_rate :: "nat \<Rightarrow> bool" where
  "ok_rate r \<longleftrightarrow> 0 < r \<and> r \<le> maxRate \<and> 8 dvd r"

definition shape :: "state \<Rightarrow> bool" where
  "shape d \<longleftrightarrow> ok_rate (rate d) \<and> length (storage d) = maxRate \<and> length (lanes_of d) = 25"

definition same_params :: "state \<Rightarrow> state \<Rightarrow> bool" where
  "same_params d d' \<longleftrightarrow> rate d' = rate d \<and> dsbyte d' = dsbyte d \<and> outputLen d' = outputLen d"

definition absorbing :: "state \<Rightarrow> bool" where
  "absorbing d \<longleftrightarrow> shape d \<and> direction d = spongeAbsorbing \<and> (\<exists>n < rate d. buf d = Some (0, n))"

lemma absorbing_len: "absorbing d \<Longrightarrow> length (buf_bytes d) = buf_len d \<and> buf_len d < rate d"
  by (auto simp: absorbing_def shape_def ok_rate_def buf_bytes_def buf_len_def maxRate_def)

lemma keccakF1600_xor:
  "length a = 25 \<Longrightarrow> length b \<le> maxRate \<Longrightarrow> xorInGeneric a b = Ok (xor_block a b) \<and> keccakF1600 (xor_block a b) = absorb1 a b"
  by (simp add: xorInGeneric_eq maxRate_def absorb1_def keccak_f_code)

lemma append_buf_absorbing:
  assumes "absorbing d" "buf_len d + length p \<le> rate d"
  shows "\<exists>d'. append_buf p d = Ok d' \<and> buf_bytes d' = buf_bytes d @ p \<and> buf d' = Some (0, buf_len d + length p) \<and> shape d' \<and>
    lanes_of d' = lanes_of d \<and> direction d' = spongeAbsorbing \<and> same_params d d'"
  using assms
  by (auto simp: absorbing_def append_buf_def put_storage_def buf_len_def buf_bytes_def shape_def ok_rate_def maxRate_def same_params_def)

lemma permute_absorbing:
  assumes "shape d" "direction d = spongeAbsorbing" "buf d = Some (0, rate d)"
  shows "\<exists>d'. permute d = Ok d' \<and> absorbing d' \<and> buf_bytes d' = [] \<and> lanes_of d' = absorb1 (lanes_of d) (buf_bytes d) \<and> same_params d d'"
  using assms keccakF1600_xor [of "lanes_of d" "buf_bytes d"]
  by (auto simp: permute_def set_buf_def absorbing_def shape_def ok_rate_def maxRate_def buf_bytes_def same_params_def keccakF1600_length)

lemma Write_loop_correct:
  "absorbing d \<Longrightarrow> \<exists>d'. Write_loop p d = Some (Ok d') \<and> absorbing d' \<and> same_params d d' \<and>
    absorb (rate d) (lanes_of d) (buf_bytes d @ p) = (lanes_of d', buf_bytes d')"
proof (induction "length p" arbitrary: p d rule: less_induct)
  case less
  have r: "0 < rate d" "rate d \<le> maxRate" "length (lanes_of d) = 25" and len: "length (buf_bytes d) = buf_len d" "buf_len d < rate d"
    using less.prems absorbing_len by (auto simp: absorbing_def shape_def ok_rate_def)
  consider "p = []" | "p \<noteq> []" "buf_len d = 0" "rate d \<le> length p" | "p \<noteq> []" "\<not> (buf_len d = 0 \<and> rate d \<le> length p)"
    by (cases "p = []"; cases "buf_len d = 0 \<and> rate d \<le> length p") auto
  then show ?case
  proof cases
    case 1
    then show ?thesis using less.prems len by (subst Write_loop.simps) (simp add: absorb_small same_params_def)
  next
    case 2
    let ?d = "d\<lparr>lanes_of := absorb1 (lanes_of d) (take (rate d) p)\<rparr>"
    have "absorbing ?d" "buf_bytes ?d = []" "buf_bytes d = []" using less.prems 2 len(1) r
      by (auto simp: absorbing_def shape_def buf_bytes_def buf_len_def)
    moreover have "Write_loop p d = Write_loop (drop (rate d) p) ?d"
      using 2 r keccakF1600_xor [of "lanes_of d" "take (rate d) p"] by (subst Write_loop.simps) simp
    moreover have "length (drop (rate d) p) < length p" using 2 r by auto
    ultimately show ?thesis using less.hyps [of "drop (rate d) p" ?d] 2(3) r(1) by (simp add: absorb.simps [of "rate d" "lanes_of d" p] same_params_def)
  next
    case 3
    let ?todo = "min (length p) (rate d - buf_len d)"
    have todo: "(if rate d - buf_len d > length p then length p else rate d - buf_len d) = ?todo" by simp
    have "buf_len d + length (take ?todo p) \<le> rate d" using len by auto
    from append_buf_absorbing [OF less.prems this] obtain d1 where d1: "append_buf (take ?todo p) d = Ok d1"
      "buf_bytes d1 = buf_bytes d @ take ?todo p" "buf d1 = Some (0, buf_len d + ?todo)" "shape d1" "lanes_of d1 = lanes_of d"
      "direction d1 = spongeAbsorbing" "same_params d d1" by auto
    have l1: "buf_len d1 = buf_len d + ?todo" "rate d1 = rate d" using d1 by (auto simp: buf_len_def same_params_def)
    have lt: "length (drop ?todo p) < length p" using 3 len by auto
    have e: "buf_bytes d @ p = buf_bytes d1 @ drop ?todo p" using d1(2) by simp
    have w: "Write_loop p d = rbind (if buf_len d1 = rate d1 then Some (permute d1) else Some (Ok d1)) (Write_loop (drop ?todo p))"
      using 3 d1(1) todo by (subst Write_loop.simps) (auto simp: Let_def)
    show ?thesis
    proof (cases "buf_len d + ?todo = rate d")
      case True
      obtain d2 where d2: "permute d1 = Ok d2" "absorbing d2" "buf_bytes d2 = []" "lanes_of d2 = absorb1 (lanes_of d) (buf_bytes d1)" "same_params d1 d2"
        using permute_absorbing [OF d1(4) d1(6)] d1(3,5) True l1 by auto
      have "length (buf_bytes d1) = rate d" using d1(2) len True by simp
      then have "absorb (rate d) (lanes_of d) (buf_bytes d @ p) = absorb (rate d) (lanes_of d2) (drop ?todo p)"
        using absorb_block [of "buf_bytes d1" "rate d" "lanes_of d" "drop ?todo p"] r(1) d2(4) e by simp
      then show ?thesis using less.hyps [OF lt d2(2)] w d2 d1(7) True l1 by (auto simp: same_params_def)
    next
      case False
      then have "?todo = length p" "absorbing d1" using d1 l1 len by (auto simp: absorbing_def min_def split: if_splits)
      then show ?thesis using less.hyps [OF lt, of d1] w l1 d1 False by (auto simp: same_params_def)
    qed
  qed
qed

text \<open>What has been written so far.\<close>

definition absorbs :: "state \<Rightarrow> bytes \<Rightarrow> bool" where
  "absorbs d m \<longleftrightarrow> shape d \<and> direction d = spongeAbsorbing \<and> (buf d = None \<or> absorbing d) \<and>
    absorb (rate d) (replicate 25 0) m = (lanes_of d, buf_bytes d)"

lemma absorbs_fresh: "ok_rate r \<Longrightarrow> absorbs (fresh_state r out ds) []"
  by (auto simp: absorbs_def fresh_state_def shape_def ok_rate_def buf_bytes_def intro: absorb_small)

lemma init_buf_absorbs:
  assumes "absorbs d m"
  shows "\<exists>d'. init_buf d = Ok d' \<and> absorbing d' \<and> absorbs d' m \<and> same_params d d'"
  using assms
  by (auto simp: absorbs_def init_buf_def set_buf_def absorbing_def shape_def buf_bytes_def same_params_def ok_rate_def)

lemma Write_absorbs:
  assumes "absorbs d m"
  shows "\<exists>d'. Write p d = Some (Ok (length p, d')) \<and> absorbs d' (m @ p) \<and> same_params d d'"
proof -
  obtain d1 where d1: "init_buf d = Ok d1" "absorbing d1" "absorbs d1 m" "same_params d d1" using init_buf_absorbs [OF assms] by blast
  obtain d2 where d2: "Write_loop p d1 = Some (Ok d2)" "absorbing d2" "same_params d1 d2"
      "absorb (rate d1) (lanes_of d1) (buf_bytes d1 @ p) = (lanes_of d2, buf_bytes d2)" using Write_loop_correct [OF d1(2)] by blast
  have "absorb (rate d1) (replicate 25 0) (m @ p) = (lanes_of d2, buf_bytes d2)"
    using absorb_append [of "rate d1" "replicate 25 0" m "lanes_of d1" "buf_bytes d1"] d1(3) d2(4) by (simp add: absorbs_def)
  then show ?thesis using d1 d2 assms by (auto simp: Write_def absorbs_def absorbing_def same_params_def)
qed

section \<open>Squeezing\<close>

text \<open>The sponge holds the lanes \<open>a\<close> after padding, and \<open>k\<close> bytes have been read.\<close>

definition squeezes :: "state \<Rightarrow> u64 list \<Rightarrow> nat \<Rightarrow> bool" where
  "squeezes d a k \<longleftrightarrow> shape d \<and> direction d = spongeSqueezing \<and> length a = 25 \<and>
    lanes_of d = (keccak_f ^^ (k div rate d)) a \<and> buf d = Some (k mod rate d, rate d - k mod rate d) \<and>
    take (rate d) (storage d) = take (rate d) (state_bytes (lanes_of d))"

lemma length_pow_keccak_f: "length a = 25 \<Longrightarrow> length ((keccak_f ^^ n) a) = 25"
  by (induction n) simp_all

text \<open>A full buffer of output.\<close>

lemma copyOut_full:
  assumes "shape d" "direction d = spongeSqueezing"
  shows "\<exists>d'. obind (set_buf 0 (rate d) d) copyOut_buf = Ok d' \<and> shape d' \<and> direction d' = spongeSqueezing \<and> same_params d d' \<and>
    lanes_of d' = lanes_of d \<and> buf d' = Some (0, rate d) \<and> take (rate d) (storage d') = take (rate d) (state_bytes (lanes_of d))"
  using assms copyOutGeneric_eq [of "take (rate d) (storage d)" "lanes_of d"]
  by (auto simp: shape_def ok_rate_def maxRate_def set_buf_def copyOut_buf_def buf_bytes_def put_storage_def same_params_def min_def)

lemma permute_squeezes:
  assumes "shape d" "direction d = spongeSqueezing" "length a = 25" "lanes_of d = (keccak_f ^^ (k div rate d)) a" "(k + n) mod rate d = 0"
    "(k + n) div rate d = Suc (k div rate d)"
  shows "\<exists>d'. permute d = Ok d' \<and> squeezes d' a (k + n) \<and> same_params d d'"
proof -
  let ?d = "d\<lparr>lanes_of := keccakF1600 (lanes_of d)\<rparr>"
  have "shape ?d" "direction ?d = spongeSqueezing" using assms by (simp_all add: shape_def keccakF1600_length)
  moreover have "keccakF1600 (lanes_of d) = (keccak_f ^^ ((k + n) div rate d)) a"
    using assms keccak_f_code [of "lanes_of d"] by (simp add: shape_def)
  ultimately show ?thesis using copyOut_full [of ?d] assms
    by (auto simp: permute_def squeezes_def same_params_def)
qed

lemma take_update_prefix:
  "length b = r \<Longrightarrow> 0 < r \<Longrightarrow> take r ((b @ c)[r - 1 := (b @ c) ! (r - 1) XOR x]) = b[r - 1 := b ! (r - 1) XOR (x :: byte)]"
  by (simp add: list_update_append1 nth_append)

lemma padAndPermute_squeezes:
  assumes "absorbs d m"
  shows "\<exists>d'. padAndPermute (dsbyte d) d = Ok d' \<and> squeezes d' (absorbed (rate d) (dsbyte d) m) 0 \<and> same_params d d'"
proof -
  obtain d1 where d1: "init_buf d = Ok d1" "absorbing d1" "absorbs d1 m" "same_params d d1" using init_buf_absorbs [OF assms] by blast
  have r: "ok_rate (rate d)" "rate d1 = rate d" using assms d1(4) by (auto simp: absorbs_def shape_def same_params_def)
  have len: "length (buf_bytes d1) = buf_len d1" "buf_len d1 < rate d" using absorbing_len [OF d1(2)] r by auto
  obtain d2 where d2: "append_buf [dsbyte d] d1 = Ok d2" "buf_bytes d2 = buf_bytes d1 @ [dsbyte d]" "buf d2 = Some (0, buf_len d1 + 1)"
      "shape d2" "lanes_of d2 = lanes_of d1" "direction d2 = spongeAbsorbing" "same_params d1 d2"
    using append_buf_absorbing [OF d1(2), of "[dsbyte d]"] len r by auto
  let ?s = "take (buf_len d1 + 1) (storage d2) @ replicate (rate d - (buf_len d1 + 1)) 0 @ drop (rate d) (storage d2)"
  let ?d = "d2\<lparr>buf := Some (0, rate d), storage := ?s[rate d - 1 := ?s ! (rate d - 1) XOR 0x80]\<rparr>"
  have s: "take (buf_len d1 + 1) (storage d2) = buf_bytes d1 @ [dsbyte d]" "length (storage d2) = maxRate"
    using d2 by (auto simp: buf_bytes_def shape_def)
  have sh: "shape ?d" "direction ?d = spongeAbsorbing" "buf ?d = Some (0, rate ?d)"
    using d2 r len by (auto simp: shape_def ok_rate_def maxRate_def same_params_def)
  have "buf_bytes ?d = pad (rate d) (dsbyte d) (buf_bytes d1)"
  proof -
    let ?b = "buf_bytes d1 @ dsbyte d # replicate (rate d - (buf_len d1 + 1)) 0"
    have "?s = ?b @ drop (rate d) (storage d2)" "length ?b = rate d" using s(1) len by simp_all
    moreover have "buf_bytes ?d = take (rate d) (?s[rate d - 1 := ?s ! (rate d - 1) XOR 0x80])" by (simp add: buf_bytes_def)
    ultimately have "buf_bytes ?d = ?b[rate d - 1 := ?b ! (rate d - 1) XOR 0x80]"
      using r take_update_prefix [of ?b "rate d"] unfolding ok_rate_def by metis
    then show ?thesis using len by (simp add: pad_def Let_def)
  qed
  moreover obtain d3 where d3: "permute ?d = Ok d3" "absorbing d3" "lanes_of d3 = absorb1 (lanes_of ?d) (buf_bytes ?d)" "same_params ?d d3"
    using permute_absorbing [OF sh] by blast
  ultimately have "lanes_of d3 = absorbed (rate d) (dsbyte d) m" using d1(3) d2(5) r by (simp add: absorbed_def absorbs_def)
  moreover have "padAndPermute (dsbyte d) d = obind (permute ?d) (\<lambda>d. obind (set_buf 0 (rate d) (d\<lparr>direction := spongeSqueezing\<rparr>)) copyOut_buf)"
    using d1(1) d2(1,3,7) r len by (simp add: padAndPermute_def buf_len_def set_buf_def ok_rate_def put_storage_def same_params_def Let_def)
  moreover have "shape (d3\<lparr>direction := spongeSqueezing\<rparr>)" using d3(2) by (simp add: absorbing_def shape_def)
  ultimately show ?thesis using copyOut_full [of "d3\<lparr>direction := spongeSqueezing\<rparr>"] d3 d1(4) d2(7)
    by (auto simp: squeezes_def same_params_def absorbing_def shape_def)
qed

lemma div_mod_within:
  assumes "k mod r + i < (r :: nat)"
  shows "(k + i) div r = k div r \<and> (k + i) mod r = k mod r + i"
proof -
  have e: "k + i = (k mod r + i) + k div r * r" using div_mult_mod_eq [of k r] by simp
  have "(k + i) div r = k div r + (k mod r + i) div r" using assms by (subst e) (rule div_mult_self1, simp)
  moreover have "(k + i) mod r = (k mod r + i) mod r" by (subst e) (rule mod_mult_self1)
  ultimately show ?thesis using assms by simp
qed

lemma squeezed_take:
  assumes "squeezes d a k" "n \<le> rate d - k mod rate d"
  shows "take n (buf_bytes d) = map (squeezed (rate d) a) [k..<k + n]"
proof (rule nth_equalityI)
  have r: "0 < rate d" "rate d \<le> maxRate" "length (storage d) = maxRate" "length (lanes_of d) = 25" using assms
    by (auto simp: squeezes_def shape_def ok_rate_def)
  have b: "buf_bytes d = take (rate d - k mod rate d) (drop (k mod rate d) (storage d))" using assms by (simp add: squeezes_def buf_bytes_def)
  have m: "k mod rate d < rate d" using r by simp
  show "length (take n (buf_bytes d)) = length (map (squeezed (rate d) a) [k..<k + n])" using b m r assms(2) by simp
  fix i assume "i < length (take n (buf_bytes d))"
  then have i: "i < n" "k mod rate d + i < rate d" using b assms(2) by auto
  then have "take n (buf_bytes d) ! i = take (rate d) (storage d) ! (k mod rate d + i)" using b r assms(2) m by simp
  also have "\<dots> = state_bytes (lanes_of d) ! (k mod rate d + i)" using assms(1) i(2) by (simp add: squeezes_def)
  also have "\<dots> = squeezed (rate d) a (k + i)"
  proof -
    have "(k + i) div rate d = k div rate d \<and> (k + i) mod rate d = k mod rate d + i" using i(2) by (rule div_mod_within)
    then show ?thesis using assms(1) by (simp add: squeezed_def squeezes_def)
  qed
  finally show "take n (buf_bytes d) ! i = map (squeezed (rate d) a) [k..<k + n] ! i" using i(1) by simp
qed

lemma Read_loop_squeezes:
  "squeezes d a k \<Longrightarrow> \<exists>d'. Read_loop n out d = Some (Ok (out @ map (squeezed (rate d) a) [k..<k + n], d')) \<and>
    squeezes d' a (k + n) \<and> same_params d d'"
proof (induction n arbitrary: out d k rule: less_induct)
  case (less n)
  let ?r = "rate d"
  have r: "0 < ?r" "k mod ?r < ?r" using less.prems by (auto simp: squeezes_def shape_def ok_rate_def)
  define m where "m = min n (?r - k mod ?r)"
  let ?d = "d\<lparr>buf := Some (k mod ?r + m, ?r - k mod ?r - m)\<rparr>"
  have len: "buf_len d = ?r - k mod ?r" "buf d = Some (k mod ?r, ?r - k mod ?r)" using less.prems by (auto simp: squeezes_def buf_len_def)
  show ?case
  proof (cases "n = 0")
    case True
    then show ?thesis using less.prems by (subst Read_loop.simps) (simp add: same_params_def)
  next
    case n: False
    then have step: "Read_loop n out d = rbind (if ?r - k mod ?r - m = 0 then Some (permute ?d) else Some (Ok ?d))
        (Read_loop (n - m) (out @ map (squeezed ?r a) [k..<k + m]))"
    proof -
      have "min n (buf_len d) = m" "buf_len ?d = ?r - k mod ?r - m" using len by (simp_all add: m_def buf_len_def)
      moreover have "take m (buf_bytes d) = map (squeezed ?r a) [k..<k + m]" using less.prems by (rule squeezed_take) (simp add: m_def)
      ultimately show ?thesis using len(2) n by (subst Read_loop.simps) (simp add: Let_def)
    qed
    show ?thesis
    proof (cases "n < ?r - k mod ?r")
      case True
      have "(k + n) div ?r = k div ?r \<and> (k + n) mod ?r = k mod ?r + n" by (rule div_mod_within) (use True in simp)
      then have "squeezes ?d a (k + n)" using less.prems True by (simp add: squeezes_def shape_def m_def length_pow_keccak_f)
      moreover have mn: "m = n" "?r - k mod ?r - m \<noteq> 0" using True by (simp_all add: m_def)
      then have "Read_loop n out d = Some (Ok (out @ map (squeezed ?r a) [k..<k + n], ?d))"
        unfolding step by (simp add: Read_loop.simps [of 0])
      ultimately show ?thesis by (intro exI [of _ ?d]) (simp add: same_params_def)
    next
      case False
      then have m: "m = ?r - k mod ?r" by (simp add: m_def)
      have "k + m = ?r * Suc (k div ?r)" using r m mult_div_mod_eq [of ?r k] unfolding mult_Suc_right by linarith
      then have "(k + m) mod ?r = 0" "(k + m) div ?r = Suc (k div ?r)" using r by (metis mod_mult_self1_is_0, metis nonzero_mult_div_cancel_left less_not_refl)
      then obtain d1 where d1: "permute ?d = Ok d1" "squeezes d1 a (k + m)" "same_params ?d d1"
        using permute_squeezes [of ?d a k m] less.prems by (auto simp: squeezes_def shape_def)
      have "n - m < n" using n r m by auto
      then obtain d2 where d2: "squeezes d2 a (k + m + (n - m))" "same_params d1 d2"
          "Read_loop (n - m) (out @ map (squeezed ?r a) [k..<k + m]) d1 =
            Some (Ok ((out @ map (squeezed ?r a) [k..<k + m]) @ map (squeezed (rate d1) a) [k + m..<k + m + (n - m)], d2))"
        using less.IH d1(2) by blast
      have mn: "m \<le> n" "?r - k mod ?r - m = 0" "rate d1 = ?r" using m d1(3) by (simp_all add: m_def same_params_def)
      have "Read_loop n out d = Read_loop (n - m) (out @ map (squeezed ?r a) [k..<k + m]) d1" unfolding step using mn(2) d1(1) by simp
      moreover have "[k..<k + n] = [k..<k + m] @ [k + m..<k + m + (n - m)]" using mn(1) upt_add_eq_append [of k "k + m" "n - m"] by simp
      ultimately show ?thesis using d2 mn d1(3) by (intro exI [of _ d2]) (simp add: same_params_def)
    qed
  qed
qed

section \<open>A hash that is written to\<close>

text \<open>The contract of a writer that collects a message, and what follows for a sequence of writes.\<close>

locale hash_writer =
  fixes repr :: "'d \<Rightarrow> bytes \<Rightarrow> bool"
    and wr :: "bytes \<Rightarrow> 'd \<Rightarrow> (unit, nat \<times> 'd) run"
  assumes wr_ok: "repr d m \<Longrightarrow> \<exists>d'. wr p d = Some (Ok (length p, d')) \<and> repr d' (m @ p)"
begin

lemma write_all: "repr d m \<Longrightarrow> \<exists>d'. Write_all wr ps d = Some (Ok d') \<and> repr d' (m @ concat ps)"
proof (induction ps arbitrary: d m)
  case (Cons p ps)
  obtain d1 where d1: "wr p d = Some (Ok (length p, d1))" "repr d1 (m @ p)" using wr_ok [OF Cons.prems] by blast
  from Cons.IH [OF d1(2)] show ?case using d1(1) by simp
qed simp

end

definition hash_repr :: "nat \<Rightarrow> byte \<Rightarrow> nat \<Rightarrow> state \<Rightarrow> bytes \<Rightarrow> bool" where
  "hash_repr r ds out d m \<longleftrightarrow> absorbs d m \<and> rate d = r \<and> dsbyte d = ds \<and> outputLen d = out"

interpretation sponge: hash_writer "hash_repr r ds out" Write
  for r ds out
proof
  fix d m p assume "hash_repr r ds out d m"
  then show "\<exists>d'. Write p d = Some (Ok (length p, d')) \<and> hash_repr r ds out d' (m @ p)"
    using Write_absorbs [of d m p] by (auto simp: hash_repr_def same_params_def)
qed

lemma fresh_repr: "ok_rate r \<Longrightarrow> hash_repr r ds out (fresh_state r out ds) []"
  using absorbs_fresh [of r out ds] by (simp add: hash_repr_def fresh_state_def)

lemma Read_repr:
  assumes "hash_repr r ds out d m"
  shows "\<exists>d'. Read n d = Some (Ok (sponge r ds n m, d')) \<and> squeezes d' (absorbed r ds m) n \<and> rate d' = r"
proof -
  obtain d1 where d1: "padAndPermute (dsbyte d) d = Ok d1" "squeezes d1 (absorbed (rate d) (dsbyte d) m) 0" "same_params d d1"
    using padAndPermute_squeezes [of d m] assms by (auto simp: hash_repr_def)
  then show ?thesis using Read_loop_squeezes [OF d1(2), of n "[]"] assms
    by (auto simp: Read_def hash_repr_def sponge_def same_params_def absorbs_def)
qed

lemma clone_repr: "hash_repr r ds out d m \<Longrightarrow> \<exists>d'. clone d = Ok d' \<and> hash_repr r ds out d' m"
  by (auto simp: hash_repr_def absorbs_def clone_def set_buf_def absorbing_def shape_def ok_rate_def buf_len_def buf_bytes_def)

lemma Sum_repr: "hash_repr r ds out d m \<Longrightarrow> Sum inp d = Some (Ok (inp @ sponge r ds out m))"
  using clone_repr [of r ds out d m] Read_repr [of r ds out _ m out] by (fastforce simp: Sum_def hash_repr_def)

lemma Sum_Write_all: "ok_rate r \<Longrightarrow> rbind (Write_all Write ps (fresh_state r out ds)) (Sum inp) = Some (Ok (inp @ sponge r ds out (concat ps)))"
  using sponge.write_all [OF fresh_repr [of r ds out], of ps] Sum_repr by fastforce

lemma Sum_of_fresh: "ok_rate r \<Longrightarrow> Sum_of (fresh_state r out ds) m = Some (Ok (sponge r ds out m))"
  using sponge.wr_ok [OF fresh_repr [of r ds out], of m] Sum_repr by (fastforce simp: Sum_of_def)

lemma ok_rates: "ok_rate 136" "ok_rate 72" "ok_rate 144" "ok_rate 104" "ok_rate 168"
  by (simp_all add: ok_rate_def maxRate_def)

lemmas new_defs = NewKeccak256_def NewKeccak512_def New224_def New256_def New384_def New512_def NewShake128_def NewShake256_def

text \<open>
  C17. The hash functions compute the sponge construction: whatever the pieces the input comes in, \<open>Keccak256\<close>,
  \<open>Keccak256Hash\<close>, \<open>Keccak512\<close> and the four \<open>Sum\<close> functions return (the loops of \<open>Write\<close> and \<open>Read\<close> end, no slice
  bound is exceeded), with the output of the sponge of the concatenated input at their rate, domain
  separation and length.
\<close>
theorem hashes_sponge:
  "Keccak256 ps = Some (Ok (sponge 136 0x01 32 (concat ps))) \<and>
   Keccak256Hash ps = Some (Ok (sponge 136 0x01 32 (concat ps))) \<and>
   Keccak512 ps = Some (Ok (sponge 72 0x01 64 (concat ps))) \<and>
   Sum224 m = Some (Ok (sponge 144 0x06 28 m)) \<and> Sum256 m = Some (Ok (sponge 136 0x06 32 m)) \<and>
   Sum384 m = Some (Ok (sponge 104 0x06 48 m)) \<and> Sum512 m = Some (Ok (sponge 72 0x06 64 m))"
  using ok_rates
  by (simp add: Keccak256_def Keccak256Hash_def Keccak512_def Sum224_def Sum256_def Sum384_def Sum512_def new_defs Sum_Write_all Sum_of_fresh)

lemma Read_Read:
  assumes "hash_repr r ds out d m"
  shows "rbind (Read n d) (\<lambda>(x, d). rbind (Read k d) (\<lambda>(y, _). Some (Ok (x @ y)))) = Some (Ok (sponge r ds (n + k) m))"
proof -
  obtain d1 where d1: "Read n d = Some (Ok (sponge r ds n m, d1))" "squeezes d1 (absorbed r ds m) n" "rate d1 = r"
    using Read_repr [OF assms] by blast
  have "direction d1 = spongeSqueezing" using d1(2) by (simp add: squeezes_def)
  then obtain d2 where "Read k d1 = Some (Ok (map (squeezed r (absorbed r ds m)) [n..<n + k], d2))"
    using Read_loop_squeezes [OF d1(2), of k "[]"] d1(3) by (auto simp: Read_def)
  then show ?thesis using d1(1) upt_add_eq_append [of 0 n k] by (simp add: sponge_def)
qed

text \<open>
  C18. The extendable-output functions: reading \<open>n\<close> and then \<open>k\<close> bytes gives the first \<open>n + k\<close> bytes of the
  output stream, across the blocks of the sponge, and \<open>ShakeSum\<close> gives its first \<open>n\<close> bytes.
\<close>
theorem shake_stream:
  "rbind (Write_all Write ps NewShake256) (\<lambda>d. rbind (Read n d) (\<lambda>(x, d). rbind (Read k d) (\<lambda>(y, _). Some (Ok (x @ y))))) =
     ShakeSum256 (n + k) (concat ps) \<and>
   rbind (Write_all Write ps NewShake128) (\<lambda>d. rbind (Read n d) (\<lambda>(x, d). rbind (Read k d) (\<lambda>(y, _). Some (Ok (x @ y))))) =
     ShakeSum128 (n + k) (concat ps) \<and>
   ShakeSum256 n m = Some (Ok (sponge 136 0x1f n m)) \<and> ShakeSum128 n m = Some (Ok (sponge 168 0x1f n m))"
proof -
  have s: "rbind (Write m (fresh_state r 0 0x1f)) (\<lambda>(_, h). rbind (Read n h) (\<lambda>(hash, _). Some (Ok hash))) = Some (Ok (sponge r 0x1f n m))"
    if "ok_rate r" for r n m
    using sponge.wr_ok [OF fresh_repr [OF that, of "0x1f" 0], of m] Read_repr [of r "0x1f" 0 _ m n] by fastforce
  have t: "rbind (Write_all Write ps (fresh_state r 0 0x1f)) (\<lambda>d. rbind (Read n d) (\<lambda>(x, d). rbind (Read k d) (\<lambda>(y, _). Some (Ok (x @ y))))) =
      Some (Ok (sponge r 0x1f (n + k) (concat ps)))" if "ok_rate r" for r
    using sponge.write_all [OF fresh_repr [OF that, of "0x1f" 0], of ps] Read_Read [of r "0x1f" 0 _ "concat ps" n k] by fastforce
  show ?thesis using ok_rates by (simp add: ShakeSum256_def ShakeSum128_def new_defs s t)
qed

text \<open>
  C20. Copying a sponge that is being read goes wrong: \<open>clone\<close> takes the start of the buffer from its capacity,
  as if \<open>storage\<close> ended at the rate. For \<open>SHAKE256\<close>, whose rate is smaller than \<open>storage\<close>, \<open>Clone\<close> right after
  any number of blocks has been read panics.
\<close>
theorem clone_after_Read_panics:
  "rbind (Read (136 * j) NewShake256) (\<lambda>(_, d). Some (clone d)) = Some Panic"
proof -
  obtain d where d: "Read (136 * j) NewShake256 = Some (Ok (sponge 136 0x1f (136 * j) [], d))" "squeezes d (absorbed 136 0x1f []) (136 * j)" "rate d = 136"
    using Read_repr [OF fresh_repr [of 136 "0x1f" 0], of "136 * j"] ok_rates by (auto simp: new_defs)
  then show ?thesis by (simp add: squeezes_def clone_def buf_cap_def maxRate_def)
qed

text \<open>
  Writing to a sponge after reading from it panics, it does not return the error the comment of \<open>Write\<close>
  announces.
\<close>
theorem Write_after_Read_panics: "rbind (Read n NewShake128) (\<lambda>(_, d). Write p d) = Some Panic"
proof -
  obtain d where "Read n NewShake128 = Some (Ok (sponge 168 0x1f n [], d))" "squeezes d (absorbed 168 0x1f []) n"
    using Read_repr [OF fresh_repr [of 168 "0x1f" 0], of n] ok_rates by (auto simp: new_defs)
  then show ?thesis by (simp add: squeezes_def Write_def)
qed

section \<open>The variants for little-endian machines\<close>

lemma xor_words_join: "lo \<le> mid \<Longrightarrow> mid \<le> hi \<Longrightarrow> xor_words b mid hi (xor_words b lo mid a) = xor_words b lo hi a"
  using upt_add_eq_append [of lo mid "hi - mid"] by (simp add: xor_words_def)

lemma xor_words_block:
  assumes "length b = 8 * n" "n \<le> length a"
  shows "xor_words b 0 n a = xor_block a b"
  using assms by (subst xor_words_eq) (auto simp: xor_block_def)

lemma xorInUnaligned_eq:
  assumes "length a = 25" "length b \<in> {72, 104, 136, 144, 168}"
  shows "xorInUnaligned a b = Ok (xor_block a b)"
proof -
  have "b \<noteq> []" using assms(2) by auto
  then have "xorInUnaligned a b = Ok (xor_words b 0 (length b div 8) a)"
    using assms(2) by (auto simp: xorInUnaligned_def Let_def xor_words_join)
  moreover have "xor_words b 0 (length b div 8) a = xor_block a b" using assms by (intro xor_words_block) auto
  ultimately show ?thesis by simp
qed

text \<open>
  C19. For the rates that are in use, the unrolled \<open>xorInUnaligned\<close> and \<open>copyOutUnaligned\<close> do the same as the
  portable loops \<open>xorInGeneric\<close> and \<open>copyOutGeneric\<close>.
\<close>
theorem unaligned_eq_generic:
  assumes "length a = 25" "length b \<in> {72, 104, 136, 144, 168}"
  shows "xorInUnaligned a b = xorInGeneric a b \<and> copyOutUnaligned a b = copyOutGeneric a b"
proof
  have l: "length b \<le> 168" "8 dvd length b" using assms(2) by auto
  then show "xorInUnaligned a b = xorInGeneric a b" using assms by (simp add: xorInUnaligned_eq xorInGeneric_eq)
  show "copyOutUnaligned a b = copyOutGeneric a b"
    using l assms(1) by (simp add: copyOutUnaligned_def copyOutGeneric_eq maxRate_def state_bytes_def [symmetric] Let_def min_def)
qed

lemma unaligned_eq_generic_witness:
  "xorInUnaligned (replicate 25 5) (replicate 136 7) = xorInGeneric (replicate 25 5) (replicate 136 7) \<and>
   copyOutUnaligned (replicate 25 5) (replicate 136 7) = copyOutGeneric (replicate 25 5) (replicate 136 7)"
  by (rule unaligned_eq_generic) simp_all

end
