(* ===== verification/CommonTypes.thy ===== *)
theory CommonTypes
  imports Sha3Spec TrieCommit
begin

text \<open>
  Hashes, addresses and hexadecimal strings: \<open>common/types.go\<close>, \<open>common/bytes.go\<close> and \<open>Encode\<close> of \<open>common/util/hex.go\<close>. Strings are
  lists of bytes. \<open>hex.DecodeString\<close> of the standard library returns the bytes decoded before an error together
  with the error.
\<close>

section \<open>Hexadecimal strings of the standard library\<close>

definition hexdigit :: "byte \<Rightarrow> byte" where
  "hexdigit n = (if n < 10 then n + 48 else n + 87)"

primrec hex_EncodeToString :: "bytes \<Rightarrow> bytes" where
  "hex_EncodeToString [] = []"
| "hex_EncodeToString (b # bs) = hexdigit (drop_bit 4 b) # hexdigit (b AND 15) # hex_EncodeToString bs"

definition fromHexChar :: "byte \<Rightarrow> byte option" where
  "fromHexChar c =
    (if 48 \<le> c \<and> c \<le> 57 then Some (c - 48)
     else if 97 \<le> c \<and> c \<le> 102 then Some (c - 97 + 10)
     else if 65 \<le> c \<and> c \<le> 70 then Some (c - 65 + 10)
     else None)"

datatype hex_error = InvalidByteError byte | ErrLength

fun hex_DecodeString :: "bytes \<Rightarrow> bytes \<times> hex_error option" where
  "hex_DecodeString [] = ([], None)"
| "hex_DecodeString [c] = ([], Some (case fromHexChar c of None \<Rightarrow> InvalidByteError c | Some _ \<Rightarrow> ErrLength))"
| "hex_DecodeString (c1 # c2 # s) =
    (case fromHexChar c1 of
       None \<Rightarrow> ([], Some (InvalidByteError c1))
     | Some a \<Rightarrow>
         (case fromHexChar c2 of
            None \<Rightarrow> ([], Some (InvalidByteError c2))
          | Some b \<Rightarrow> (case hex_DecodeString s of (r, err) \<Rightarrow> ((push_bit 4 a OR b) # r, err))))"

section \<open>\<open>bytes.go\<close>\<close>

definition Bytes2Hex :: "bytes \<Rightarrow> bytes" where
  "Bytes2Hex d = hex_EncodeToString d"

definition Hex2Bytes :: "bytes \<Rightarrow> bytes" where
  "Hex2Bytes s = fst (hex_DecodeString s)"

definition ToHex :: "bytes \<Rightarrow> bytes" where
  "ToHex b =
    (let hex = Bytes2Hex b;
         hex = (if length hex = 0 then [48] else hex)
     in [48, 120] @ hex)"

definition FromHex :: "bytes \<Rightarrow> bytes" where
  "FromHex s =
    (let s = (if length s > 1 then if take 2 s = [48, 120] \<or> take 2 s = [48, 88] then drop 2 s else s else s);
         s = (if length s mod 2 = 1 then 48 # s else s)
     in Hex2Bytes s)"

text \<open>A slice that may be \<open>nil\<close> is an option.\<close>

definition CopyBytes :: "bytes option \<Rightarrow> bytes option" where
  "CopyBytes b = (case b of None \<Rightarrow> None | Some b \<Rightarrow> Some b)"

definition hasHexPrefix :: "bytes \<Rightarrow> bool" where
  "hasHexPrefix s \<longleftrightarrow> length s \<ge> 2 \<and> s ! 0 = 48 \<and> (s ! 1 = 120 \<or> s ! 1 = 88)"

definition isHexCharacter :: "byte \<Rightarrow> bool" where
  "isHexCharacter c \<longleftrightarrow> (48 \<le> c \<and> c \<le> 57) \<or> (97 \<le> c \<and> c \<le> 102) \<or> (65 \<le> c \<and> c \<le> 70)"

definition isHex :: "bytes \<Rightarrow> bool" where
  "isHex s = (if length s mod 2 \<noteq> 0 then False else list_all isHexCharacter s)"

definition Hex2BytesFixed :: "bytes \<Rightarrow> nat \<Rightarrow> bytes" where
  "Hex2BytesFixed s flen =
    (let h = fst (hex_DecodeString s)
     in if length h = flen then h
        else if length h > flen then drop (length h - flen) h
        else replicate (flen - length h) 0 @ h)"

definition RightPadBytes :: "bytes \<Rightarrow> nat \<Rightarrow> bytes" where
  "RightPadBytes s l = (if l \<le> length s then s else s @ replicate (l - length s) 0)"

definition LeftPadBytes :: "bytes \<Rightarrow> nat \<Rightarrow> bytes" where
  "LeftPadBytes s l = (if l \<le> length s then s else replicate (l - length s) 0 @ s)"

section \<open>\<open>types.go\<close>\<close>

definition AddressLength :: nat where
  "AddressLength = 20"

definition util_Encode :: "bytes \<Rightarrow> bytes" where
  "util_Encode b = [48, 120] @ hex_EncodeToString b"

definition BigToHash :: "int \<Rightarrow> bytes" where
  "BigToHash b = BytesToHash (big_Bytes (nat \<bar>b\<bar>))"

definition HexToHash :: "bytes \<Rightarrow> bytes" where
  "HexToHash s = BytesToHash (FromHex s)"

definition Hash_Big :: "bytes \<Rightarrow> int" where
  "Hash_Big h = int (nat_of_be h)"

definition Hash_Hex :: "bytes \<Rightarrow> bytes" where
  "Hash_Hex h = util_Encode h"

definition EmptyHash :: "bytes \<Rightarrow> bool" where
  "EmptyHash h \<longleftrightarrow> h = replicate 32 0"

definition Address_SetBytes :: "bytes \<Rightarrow> bytes \<Rightarrow> bytes" where
  "Address_SetBytes b a =
    (let b = (if length b > length a then drop (length b - AddressLength) b else b)
     in take (AddressLength - length b) a @ b)"

definition BytesToAddress :: "bytes \<Rightarrow> bytes" where
  "BytesToAddress b = Address_SetBytes b (replicate AddressLength 0)"

definition BigToAddress :: "int \<Rightarrow> bytes" where
  "BigToAddress b = BytesToAddress (big_Bytes (nat \<bar>b\<bar>))"

definition HexToAddress :: "bytes \<Rightarrow> bytes" where
  "HexToAddress s = BytesToAddress (FromHex s)"

definition IsHexAddress :: "bytes \<Rightarrow> bool" where
  "IsHexAddress s =
    (let s = (if hasHexPrefix s then drop 2 s else s)
     in length s = 2 * AddressLength \<and> isHex s)"

definition Address_Big :: "bytes \<Rightarrow> int" where
  "Address_Big a = int (nat_of_be a)"

definition Address_Hash :: "bytes \<Rightarrow> bytes" where
  "Address_Hash a = BytesToHash a"

definition checksum_digit :: "bytes \<Rightarrow> nat \<Rightarrow> byte \<Rightarrow> byte" where
  "checksum_digit hash i c =
    (let hashByte = hash ! (i div 2);
         hashByte = (if i mod 2 = 0 then drop_bit 4 hashByte else hashByte AND 15)
     in if c > 57 \<and> hashByte > 7 then c - 32 else c)"

definition Address_Hex :: "bytes \<Rightarrow> (unit, bytes) run" where
  "Address_Hex a =
    (let unchecksummed = hex_EncodeToString a
     in rbind (Write unchecksummed NewKeccak256) (\<lambda>(_, sha).
        rbind (Sum [] sha) (\<lambda>hash.
          Some (Ok ([48, 120] @ map (\<lambda>(i, c). checksum_digit hash i c) (List.enumerate 0 unchecksummed))))))"

section \<open>Proofs\<close>

lemma length_BytesToAddress: "length (BytesToAddress b) = 20"
  by (simp add: BytesToAddress_def Address_SetBytes_def AddressLength_def Let_def)

lemma BytesToAddress_20: "length a = 20 \<Longrightarrow> BytesToAddress a = a"
  by (simp add: BytesToAddress_def Address_SetBytes_def AddressLength_def Let_def)

lemma nibble_nat: "n < 16 \<Longrightarrow> \<exists>k \<in> set [0..<16]. (n :: byte) = word_of_nat k"
  by (rule bexI [of _ "unat n"]) (simp_all add: word_less_nat_alt)

lemma hexdigit_digit:
  assumes "n < 16"
  shows "fromHexChar (hexdigit n) = Some n" and "isHexCharacter (hexdigit n)"
    and "hexdigit n > 57 \<Longrightarrow> fromHexChar (hexdigit n - 32) = Some n" and "hexdigit n > 57 \<Longrightarrow> isHexCharacter (hexdigit n - 32)"
proof -
  have "list_all (\<lambda>k. let n = word_of_nat k in fromHexChar (hexdigit n) = Some n \<and> isHexCharacter (hexdigit n) \<and>
      (hexdigit n > 57 \<longrightarrow> fromHexChar (hexdigit n - 32) = Some n \<and> isHexCharacter (hexdigit n - 32))) [0..<16]"
    by (simp add: upt_rec hexdigit_def fromHexChar_def isHexCharacter_def Let_def)
  then have "fromHexChar (hexdigit n) = Some n \<and> isHexCharacter (hexdigit n) \<and>
      (hexdigit n > 57 \<longrightarrow> fromHexChar (hexdigit n - 32) = Some n \<and> isHexCharacter (hexdigit n - 32))"
    using nibble_nat [OF assms] by (auto simp: list_all_iff Let_def)
  then show "fromHexChar (hexdigit n) = Some n" "isHexCharacter (hexdigit n)"
    "hexdigit n > 57 \<Longrightarrow> fromHexChar (hexdigit n - 32) = Some n" "hexdigit n > 57 \<Longrightarrow> isHexCharacter (hexdigit n - 32)"
    by simp_all
qed

lemma nibbles_small: "drop_bit 4 (b :: byte) < 16" "b AND 15 < 16"
proof -
  have "unat (drop_bit 4 b) < 16" using unat_byte_less [of b] by (simp add: unat_drop_bit_div)
  then show "drop_bit 4 b < 16" by (simp add: word_less_nat_alt)
  have "b AND 15 = take_bit 4 b" by (simp add: take_bit_eq_mask mask_eq_exp_minus_1)
  moreover have "unat (take_bit 4 b) < 16" by (subst unsigned_take_bit_eq) (simp add: take_bit_eq_mod)
  ultimately show "b AND 15 < 16" by (simp add: word_less_nat_alt)
qed

lemma nibbles_join: "push_bit 4 (drop_bit 4 b) OR (b AND 15) = (b :: byte)"
proof -
  have "b AND 15 = take_bit 4 b" by (simp add: take_bit_eq_mask mask_eq_exp_minus_1)
  then show ?thesis by (simp add: bit_eq_iff bit_simps) auto
qed

text \<open>Two strings with the same digits, whatever the case of their letters.\<close>

definition same_digits :: "bytes \<Rightarrow> bytes \<Rightarrow> bool" where
  "same_digits = list_all2 (\<lambda>c d. \<exists>n. fromHexChar c = Some n \<and> fromHexChar d = Some n)"

lemma same_digits_decode: "same_digits s t \<Longrightarrow> hex_DecodeString s = hex_DecodeString t"
proof (induction s arbitrary: t rule: hex_DecodeString.induct)
  case (2 c)
  then show ?case by (auto simp: same_digits_def list_all2_Cons1)
next
  case (3 c1 c2 s)
  then obtain d1 d2 u m n where "t = d1 # d2 # u" "fromHexChar c1 = Some m" "fromHexChar d1 = Some m"
    "fromHexChar c2 = Some n" "fromHexChar d2 = Some n" "same_digits s u"
    by (auto simp: same_digits_def list_all2_Cons1)
  then show ?case using 3(1) [of m n u] by simp
qed (simp add: same_digits_def)

lemma hex_roundtrip: "hex_DecodeString (hex_EncodeToString b) = (b, None)"
  by (induction b) (simp_all add: hexdigit_digit nibbles_small nibbles_join)

lemma length_hex: "length (hex_EncodeToString b) = 2 * length b"
  by (induction b) simp_all

lemma hex_chars: "c \<in> set (hex_EncodeToString b) \<Longrightarrow> \<exists>n < 16. c = hexdigit n"
  by (induction b) (use nibbles_small in auto)

lemma FromHex_ToHex: "FromHex (ToHex b) = (if b = [] then [0] else b)"
proof (cases b)
  case (Cons x bs)
  then show ?thesis using hex_roundtrip [of b] length_hex [of b]
    by (simp add: FromHex_def ToHex_def Hex2Bytes_def Bytes2Hex_def Let_def)
qed (simp add: FromHex_def ToHex_def Hex2Bytes_def Bytes2Hex_def fromHexChar_def)

lemma checksum_digit_same:
  assumes "n < 16" "c = hexdigit n"
  shows "fromHexChar (checksum_digit h i c) = Some n" "isHexCharacter (checksum_digit h i c)"
  using hexdigit_digit [OF assms(1)] by (simp_all add: checksum_digit_def Let_def assms(2))

lemma checksum_same_digits:
  "same_digits (map (\<lambda>(i, c). checksum_digit h i c) (List.enumerate k (hex_EncodeToString b))) (hex_EncodeToString b)"
  unfolding same_digits_def list_all2_conv_all_nth
proof (intro conjI allI impI)
  fix i assume "i < length (map (\<lambda>(i, c). checksum_digit h i c) (List.enumerate k (hex_EncodeToString b)))"
  then have i: "i < length (hex_EncodeToString b)" by simp
  then obtain n where n: "n < 16" "hex_EncodeToString b ! i = hexdigit n" using hex_chars nth_mem by blast
  then show "\<exists>n. fromHexChar (map (\<lambda>(i, c). checksum_digit h i c) (List.enumerate k (hex_EncodeToString b)) ! i) = Some n \<and>
      fromHexChar (hex_EncodeToString b ! i) = Some n"
    using i checksum_digit_same(1) [OF n] hexdigit_digit(1) [OF n(1)] by (simp add: nth_enumerate_eq)
qed simp

lemma checksum_hex_characters:
  "list_all isHexCharacter (map (\<lambda>(i, c). checksum_digit h i c) (List.enumerate k (hex_EncodeToString b)))"
proof -
  have "isHexCharacter (checksum_digit h i c)" if "c \<in> set (hex_EncodeToString b)" for i c
    using hex_chars [OF that] checksum_digit_same(2) by blast
  then show ?thesis by (auto simp: list_all_iff in_set_enumerate_eq)
qed

text \<open>
  C33. The text form of an address with its checksum in the case of the letters reads back: for every address \<open>Hex\<close> returns a string of 42 characters that
  \<open>IsHexAddress\<close> accepts and \<open>HexToAddress\<close> maps to the address.
\<close>
theorem HexToAddress_Hex:
  assumes "length a = AddressLength"
  shows "\<exists>s. Address_Hex a = Some (Ok s) \<and> length s = 42 \<and> IsHexAddress s \<and> HexToAddress s = a"
proof -
  let ?u = "hex_EncodeToString a"
  obtain d where "Write ?u NewKeccak256 = Some (Ok (length ?u, d))" "hash_repr 136 1 32 d ?u"
    using sponge.wr_ok [OF fresh_repr [OF ok_rates(1), of 1 32], of ?u] by (auto simp: NewKeccak256_def)
  then have "Address_Hex a = Some (Ok ([48, 120] @ map (\<lambda>(i, c). checksum_digit (sponge 136 1 32 ?u) i c) (List.enumerate 0 ?u)))"
    by (simp add: Address_Hex_def Sum_repr Let_def)
  moreover define t where "t = map (\<lambda>(i, c). checksum_digit (sponge 136 1 32 ?u) i c) (List.enumerate 0 ?u)"
  have t: "length t = 40" "fst (hex_DecodeString t) = a" "list_all isHexCharacter t"
    using assms same_digits_decode [OF checksum_same_digits] hex_roundtrip checksum_hex_characters
    by (simp_all add: t_def length_hex AddressLength_def)
  have "IsHexAddress ([48, 120] @ t)"
    using t(1,3) by (simp add: IsHexAddress_def hasHexPrefix_def AddressLength_def isHex_def)
  moreover have "HexToAddress ([48, 120] @ t) = a"
    using t(1,2) assms by (simp add: HexToAddress_def FromHex_def Hex2Bytes_def BytesToAddress_20 AddressLength_def)
  ultimately show ?thesis using t(1) unfolding t_def by auto
qed

lemma HexToAddress_Hex_witness:
  "\<exists>s. Address_Hex (replicate 20 171) = Some (Ok s) \<and> length s = 42 \<and> IsHexAddress s \<and> HexToAddress s = replicate 20 171"
  using HexToAddress_Hex [of "replicate 20 171"] by (simp add: AddressLength_def)

end
