(* ===== verification/Signature.thy ===== *)
theory Signature
  imports Curve CommonTypes RlpRoundtrip
begin

text \<open>
  Signatures and keys: \<open>crypto/secp256k1/secp256.go\<close>, \<open>crypto/signature_cgo.go\<close> and the rest of \<open>crypto/crypto.go\<close>. The C library
  is a parameter, the record of its functions that the Go code calls: whether a secret key is valid, the compact
  recoverable signature with its recovery id, and the public key recovered from a signature. A private key is the scalar and the point,
  on the curve \<open>S256\<close>.
\<close>

section \<open>The C library and its callers\<close>

record libsecp256k1 =
  ec_seckey_verify :: "bytes \<Rightarrow> bool"
  ecdsa_sign_recoverable :: "bytes \<Rightarrow> bytes \<Rightarrow> (bytes \<times> byte) option"
  ecdsa_recover_pubkey :: "bytes \<Rightarrow> bytes \<Rightarrow> bytes option"
  ecdsa_verify_enc :: "bytes \<Rightarrow> bytes \<Rightarrow> bytes \<Rightarrow> bool"
  decompress_pubkey :: "bytes \<Rightarrow> bytes option"
  pubkey_scalar_mul :: "bytes \<Rightarrow> bytes \<Rightarrow> bytes \<times> bool"

datatype sig_error =
    ErrInvalidMsgLen | ErrInvalidSignatureLen | ErrInvalidRecoveryID | ErrInvalidKey | ErrSignFailed | ErrRecoverFailed
  | ErrHashSize nat | ErrKeyBits nat | ErrPrivateKey | ErrPublicKey | ErrInvalidSig

definition checkSignature :: "bytes \<Rightarrow> (sig_error, unit) outcome" where
  "checkSignature sig =
    (if length sig \<noteq> 65 then Err ErrInvalidSignatureLen
     else if sig ! 64 \<ge> 4 then Err ErrInvalidRecoveryID
     else Ok ())"

definition secp_Sign :: "libsecp256k1 \<Rightarrow> bytes \<Rightarrow> bytes \<Rightarrow> (sig_error, bytes) outcome" where
  "secp_Sign lib msg seckey =
    (if length msg \<noteq> 32 then Err ErrInvalidMsgLen
     else if length seckey \<noteq> 32 then Err ErrInvalidKey
     else if \<not> ec_seckey_verify lib seckey then Err ErrInvalidKey
     else case ecdsa_sign_recoverable lib msg seckey of
            None \<Rightarrow> Err ErrSignFailed
          | Some (sigdata, recid) \<Rightarrow> Ok ((sigdata @ [0])[64 := recid]))"

definition RecoverPubkey :: "libsecp256k1 \<Rightarrow> bytes \<Rightarrow> bytes \<Rightarrow> (sig_error, bytes) outcome" where
  "RecoverPubkey lib msg sig =
    (if length msg \<noteq> 32 then Err ErrInvalidMsgLen
     else obind (checkSignature sig) (\<lambda>_.
       case ecdsa_recover_pubkey lib sig msg of
         None \<Rightarrow> Err ErrRecoverFailed
       | Some pubkey \<Rightarrow> Ok pubkey))"

definition secp_VerifySignature :: "libsecp256k1 \<Rightarrow> bytes \<Rightarrow> bytes \<Rightarrow> bytes \<Rightarrow> bool" where
  "secp_VerifySignature lib pubkey msg signature =
    (if length msg \<noteq> 32 \<or> length signature \<noteq> 64 \<or> length pubkey = 0 then False
     else ecdsa_verify_enc lib signature msg pubkey)"

definition secp_DecompressPubkey :: "libsecp256k1 \<Rightarrow> bytes \<Rightarrow> (int \<times> int) option" where
  "secp_DecompressPubkey lib pubkey =
    (if length pubkey \<noteq> 33 then None
     else case decompress_pubkey lib pubkey of
            None \<Rightarrow> None
          | Some b \<Rightarrow> Some (int (nat_of_be (take 32 (drop 1 b))), int (nat_of_be (drop 33 b))))"

section \<open>Keys\<close>

text \<open>The coordinates of a public key are pointers, which are \<open>nil\<close> (\<open>None\<close>) when no point was found.\<close>

record PublicKey =
  pubX :: "int option"
  pubY :: "int option"

record PrivateKey =
  keyD :: int
  keyPub :: PublicKey

definition secp256k1_N :: int where
  "secp256k1_N = 0xfffffffffffffffffffffffffffffffebaaedce6af48a03bbfd25e8cd0364141"

definition secp256k1_halfN :: int where
  "secp256k1_halfN = secp256k1_N div 2"

definition toECDSA :: "libsecp256k1 \<Rightarrow> bytes \<Rightarrow> bool \<Rightarrow> (sig_error, PrivateKey) outcome" where
  "toECDSA lib d strict =
    (if strict \<and> 8 * length d \<noteq> BitSize S256 then Err (ErrKeyBits (BitSize S256))
     else
       let priv_D = int (nat_of_be d)
       in case ScalarBaseMult (pubkey_scalar_mul lib) S256 d of
            Ok (Some (x, y)) \<Rightarrow> Ok \<lparr>keyD = priv_D, keyPub = \<lparr>pubX = Some x, pubY = Some y\<rparr>\<rparr>
          | Ok None \<Rightarrow> Err ErrPrivateKey
          | _ \<Rightarrow> Panic)"

definition ToECDSA :: "libsecp256k1 \<Rightarrow> bytes \<Rightarrow> (sig_error, PrivateKey) outcome" where
  "ToECDSA lib d = toECDSA lib d True"

definition FromECDSA :: "PrivateKey option \<Rightarrow> bytes option" where
  "FromECDSA priv = (case priv of None \<Rightarrow> None | Some priv \<Rightarrow> Some (PaddedBigBytes (keyD priv) (BitSize S256 div 8)))"

text \<open>\<open>elliptic.Marshal\<close> of the standard library writes the format of \<open>Marshal\<close>.\<close>

definition FromECDSAPub :: "PublicKey option \<Rightarrow> (unit, bytes) outcome" where
  "FromECDSAPub pub =
    (case pub of
       None \<Rightarrow> Ok []
     | Some pub \<Rightarrow>
         (case (pubX pub, pubY pub) of
            (Some x, Some y) \<Rightarrow> Marshal S256 x y
          | _ \<Rightarrow> Ok []))"

section \<open>Signing and addresses\<close>

definition crypto_Sign :: "libsecp256k1 \<Rightarrow> bytes \<Rightarrow> PrivateKey \<Rightarrow> (sig_error, bytes) outcome" where
  "crypto_Sign lib hash prv =
    (if length hash \<noteq> 32 then Err (ErrHashSize (length hash))
     else
       let seckey = PaddedBigBytes (keyD prv) (BitSize S256 div 8)
       in secp_Sign lib hash seckey)"

definition Ecrecover :: "libsecp256k1 \<Rightarrow> bytes \<Rightarrow> bytes \<Rightarrow> (sig_error, bytes) outcome" where
  "Ecrecover lib hash sig = RecoverPubkey lib hash sig"

definition ValidateSignatureValues :: "byte \<Rightarrow> int \<Rightarrow> int \<Rightarrow> bool \<Rightarrow> bool" where
  "ValidateSignatureValues v r s homestead =
    (if r < 1 \<or> s < 1 then False
     else if homestead \<and> s > secp256k1_halfN then False
     else r < secp256k1_N \<and> s < secp256k1_N \<and> (v = 0 \<or> v = 1))"

definition PubkeyToAddress :: "PublicKey \<Rightarrow> (unit, bytes) run" where
  "PubkeyToAddress p =
    rbind (Some (FromECDSAPub (Some p))) (\<lambda>pubBytes.
      if length pubBytes = 0 then Some Panic
      else rbind (Keccak256 [drop 1 pubBytes]) (\<lambda>h. Some (Ok (BytesToAddress (drop 12 h)))))"

end
