(* ===== verification/Transaction.thy ===== *)
theory Transaction
  imports Signature
begin

text \<open>
  Transactions and their signatures: \<open>chain/space/protocol/tx.go\<close> and \<open>tx_signing.go\<close>. The pointers of the fields \<open>Cost\<close>, \<open>Amount\<close>, \<open>V\<close>, \<open>R\<close>, \<open>S\<close> are not \<open>nil\<close>
  in a transaction that was made by the constructors or decoded, and are the integers. \<open>Tx\<close> has the three caches of the source; an operation
  that fills a cache returns the transaction with the cache. The clock is a parameter of the constructors. \<open>StorageSize\<close> is a
  float of Go, exact for the sizes that occur, and a number here.
\<close>

section \<open>Transactions\<close>

record Txstruct =
  txCost :: int
  txRecipient :: "bytes option"
  txAmount :: int
  Txtime :: u64
  txPayload :: bytes
  sigV :: int
  sigR :: int
  sigS :: int

datatype Signer = FrontierSigner

definition Signer_Equal :: "Signer \<Rightarrow> Signer \<Rightarrow> bool" where
  "Signer_Equal s s2 = (case s2 of FrontierSigner \<Rightarrow> True)"

record Tx =
  data :: Txstruct
  hash_cache :: "bytes option"
  size_cache :: "nat option"
  from_cache :: "(Signer \<times> bytes) option"

record Attr =
  attrK :: bytes
  attrV :: bytes

definition idtSpaceCreation :: byte where "idtSpaceCreation = 1"
definition idtRecharge :: byte where "idtRecharge = 2"
definition idtAttrSet :: byte where "idtAttrSet = 3"
definition idCreateGroup :: byte where "idCreateGroup = 4"
definition IdPublishCoin :: byte where "IdPublishCoin = 5"
definition IdEpochTx :: byte where "IdEpochTx = 6"
definition IdEpochSigTx :: byte where "IdEpochSigTx = 7"
definition IdApplyGroup :: byte where "IdApplyGroup = 8"
definition IdStellReport :: byte where "IdStellReport = 9"
definition IdStellGroup :: byte where "IdStellGroup = 10"
definition IdCoinGroup :: byte where "IdCoinGroup = 11"
definition IdTransactionGroup :: byte where "IdTransactionGroup = 12"
definition IdCreateContractTx :: byte where "IdCreateContractTx = 13"
definition IdRunContractTx :: byte where "IdRunContractTx = 14"

definition TxbyData :: "Txstruct \<Rightarrow> Tx" where
  "TxbyData d = \<lparr>data = d, hash_cache = None, size_cache = None, from_cache = None\<rparr>"

definition newTx :: "u64 \<Rightarrow> bytes option \<Rightarrow> int option \<Rightarrow> int option \<Rightarrow> bytes \<Rightarrow> Tx" where
  "newTx now to amount cost dat =
    TxbyData \<lparr>txCost = (case cost of None \<Rightarrow> 0 | Some c \<Rightarrow> c), txRecipient = to, txAmount = (case amount of None \<Rightarrow> 0 | Some a \<Rightarrow> a),
      Txtime = now, txPayload = dat, sigV = 0, sigR = 0, sigS = 0\<rparr>"

abbreviation zero_address :: bytes where
  "zero_address \<equiv> replicate AddressLength 0"

definition NewSettleHashTx :: "u64 \<Rightarrow> bytes \<Rightarrow> Tx" where
  "NewSettleHashTx now datahash = newTx now (Some zero_address) (Some 0) (Some 0) (IdStellReport # datahash)"

definition NewTx :: "u64 \<Rightarrow> bytes \<Rightarrow> int option \<Rightarrow> int option \<Rightarrow> bytes \<Rightarrow> Tx" where
  "NewTx now to amount cost dat = newTx now (Some to) amount cost dat"

definition NewSpaceCreation :: "u64 \<Rightarrow> int option \<Rightarrow> bytes \<Rightarrow> Tx" where
  "NewSpaceCreation now cost bindAddr = newTx now (Some bindAddr) (Some 0) cost [idtSpaceCreation]"

definition CreateContractTx :: "u64 \<Rightarrow> int option \<Rightarrow> bytes \<Rightarrow> Tx" where
  "CreateContractTx now cost dat = newTx now (Some zero_address) (Some 0) cost (IdCreateContractTx # dat)"

definition RunContractTx :: "u64 \<Rightarrow> bytes \<Rightarrow> int option \<Rightarrow> int option \<Rightarrow> bytes \<Rightarrow> Tx" where
  "RunContractTx now to amount cost dat = newTx now (Some to) amount cost (IdRunContractTx # dat)"

definition ApplyStellGroup :: "u64 \<Rightarrow> bytes \<Rightarrow> int option \<Rightarrow> int option \<Rightarrow> Tx" where
  "ApplyStellGroup now to amount cost = newTx now (Some to) amount cost [IdStellGroup]"

definition ApplyCoinGroup :: "u64 \<Rightarrow> bytes \<Rightarrow> int option \<Rightarrow> int option \<Rightarrow> Tx" where
  "ApplyCoinGroup now to amount cost = newTx now (Some to) amount cost [IdCoinGroup]"

definition ApplyTransactionGroup :: "u64 \<Rightarrow> bytes \<Rightarrow> int option \<Rightarrow> int option \<Rightarrow> Tx" where
  "ApplyTransactionGroup now to amount cost = newTx now (Some to) amount cost [IdTransactionGroup]"

definition ApplyValidateGroup :: "u64 \<Rightarrow> bytes \<Rightarrow> int option \<Rightarrow> int option \<Rightarrow> Tx" where
  "ApplyValidateGroup now to amount cost = newTx now (Some to) amount cost [IdApplyGroup]"

definition NewRecharge :: "u64 \<Rightarrow> bytes \<Rightarrow> int option \<Rightarrow> int option \<Rightarrow> Tx" where
  "NewRecharge now to amount cost = newTx now (Some to) amount cost [idtRecharge]"

definition Attr_type :: rtype where
  "Attr_type = TStruct [Field ''K'' True [] (TSlice (TUint 8)), Field ''V'' True [] (TSlice (TUint 8))]"

definition NewAttrSet :: "u64 \<Rightarrow> bytes \<Rightarrow> int option \<Rightarrow> Attr \<Rightarrow> (unit, Tx) outcome" where
  "NewAttrSet now to cost attr =
    (case EncodeToBytes Attr_type (VStruct [VBytes (attrK attr), VBytes (attrV attr)]) of
       Ok dat \<Rightarrow> Ok (newTx now (Some to) (Some 0) cost (idtAttrSet # dat))
     | Err _ \<Rightarrow> Ok (newTx now (Some to) (Some 0) cost [idtAttrSet])
     | Panic \<Rightarrow> Panic)"

definition NewCreateGroup :: "u64 \<Rightarrow> bytes \<Rightarrow> Tx" where
  "NewCreateGroup now gaddr = newTx now (Some gaddr) (Some 0) (Some 0) [idCreateGroup]"

definition NewPublishCon :: "u64 \<Rightarrow> int option \<Rightarrow> int option \<Rightarrow> bytes \<Rightarrow> Tx" where
  "NewPublishCon now amount cost dat = newTx now (Some zero_address) amount cost (IdPublishCoin # dat)"

definition NewEpochTx :: "u64 \<Rightarrow> int option \<Rightarrow> bytes \<Rightarrow> Tx" where
  "NewEpochTx now cost dat =
    (let n = (word_of_nat (length dat) :: u32);
         datasize = be_fixed 4 (unat n)
     in newTx now (Some zero_address) (Some 0) cost ([IdEpochTx] @ datasize @ dat))"

section \<open>Encoding\<close>

definition Txstruct_type :: rtype where
  "Txstruct_type = TStruct
    [Field ''Cost'' True [] TBigPtr, Field ''Recipient'' True ''nil'' (TPtr (TArray 20 (TUint 8))),
     Field ''Amount'' True [] TBigPtr, Field ''Txtime'' True [] (TUint 64), Field ''Payload'' True [] (TSlice (TUint 8)),
     Field ''V'' True [] TBigPtr, Field ''R'' True [] TBigPtr, Field ''S'' True [] TBigPtr,
     Field ''Hash'' True ''-'' (TPtr (TArray 32 (TUint 8)))]"

abbreviation address_val :: "bytes option \<Rightarrow> rval" where
  "address_val a \<equiv> (case a of None \<Rightarrow> VNil | Some a \<Rightarrow> VPtr (VBytes a))"

definition Txstruct_val :: "Txstruct \<Rightarrow> rval" where
  "Txstruct_val d = VStruct
    [VBig (txCost d), address_val (txRecipient d), VBig (txAmount d), VUint (Txtime d), VBytes (txPayload d),
     VBig (sigV d), VBig (sigR d), VBig (sigS d), VNil]"

definition big_of :: "rval \<Rightarrow> int" where
  "big_of v = (case v of VBig i \<Rightarrow> i | _ \<Rightarrow> 0)"

definition bytes_of :: "rval \<Rightarrow> bytes" where
  "bytes_of v = (case v of VBytes b \<Rightarrow> b | _ \<Rightarrow> [])"

definition Txstruct_of :: "rval \<Rightarrow> Txstruct option" where
  "Txstruct_of v =
    (case v of
       VStruct [c, to, a, t, p, v, r, s, _] \<Rightarrow>
         Some \<lparr>txCost = big_of c, txRecipient = (case to of VPtr b \<Rightarrow> Some (bytes_of b) | _ \<Rightarrow> None), txAmount = big_of a,
           Txtime = (case t of VUint i \<Rightarrow> i | _ \<Rightarrow> 0), txPayload = bytes_of p, sigV = big_of v, sigR = big_of r, sigS = big_of s\<rparr>
     | _ \<Rightarrow> None)"

text \<open>\<open>*Tx\<close> has the method \<open>EncodeRLP\<close>, which encodes a pointer to the data.\<close>

definition Tx_type :: rtype where
  "Tx_type = TEnc False (TPtr Txstruct_type)"

definition Tx_val :: "Tx \<Rightarrow> rval" where
  "Tx_val tx = VEnc (VPtr (Txstruct_val (data tx)))"

definition Tx_EncodeRLP :: "'s Write \<Rightarrow> 's \<Rightarrow> Tx \<Rightarrow> 's \<times> (rlp_error, unit) outcome" where
  "Tx_EncodeRLP w out tx = Encode w out (TPtr Txstruct_type) (VPtr (Txstruct_val (data tx)))"

text \<open>
  \<open>DecodeRLP\<close> decodes into its receiver: a decoded transaction has the caches of the receiver except for the size. What an
  error leaves in the receiver is not modelled.
\<close>

definition Tx_DecodeRLP :: "Tx \<Rightarrow> Tx reading" where
  "Tx_DecodeRLP tx s =
    (case Stream_Kind s of (k, s1) \<Rightarrow>
       (let size = (case k of Ok (_, sz) \<Rightarrow> sz | _ \<Rightarrow> 0)
        in case Stream_Decode Txstruct_type s1 of
             (Ok v, s2) \<Rightarrow>
               (case Txstruct_of v of
                  Some d \<Rightarrow> (Ok (tx\<lparr>data := d, size_cache := Some (unat (ListSize size))\<rparr>), s2)
                | None \<Rightarrow> (Panic, s2))
           | (Err e, s2) \<Rightarrow> (Err e, s2)
           | (Panic, s2) \<Rightarrow> (Panic, s2)))"

text \<open>
  The hash as a writer: its state is the run of the writes so far, so that a write that panicked or did not return is
  seen by \<open>Sum\<close>. The error of \<open>rlp.Encode\<close> is ignored.
\<close>

definition hw_Write :: "(unit, state) run Write" where
  "hw_Write hw b = (rbind hw (\<lambda>d. rbind (Write b d) (\<lambda>(_, d). Some (Ok d))), length b, None)"

definition rlpHash :: "rtype \<Rightarrow> rval \<Rightarrow> (unit, bytes) run" where
  "rlpHash typ x =
    (case Encode hw_Write (Some (Ok NewKeccak256)) typ x of
       (hw, Panic) \<Rightarrow> rbind hw (\<lambda>_. Some Panic)
     | (hw, _) \<Rightarrow> rbind hw (Sum []))"

definition Tx_Hash :: "Tx \<Rightarrow> (unit, bytes \<times> Tx) run" where
  "Tx_Hash tx =
    (case hash_cache tx of
       Some h \<Rightarrow> Some (Ok (h, tx))
     | None \<Rightarrow> rbind (rlpHash Tx_type (Tx_val tx)) (\<lambda>v. Some (Ok (v, tx\<lparr>hash_cache := Some v\<rparr>))))"

definition writeCounter_Write :: "nat Write" where
  "writeCounter_Write c b = (c + length b, length b, None)"

definition Tx_Size :: "Tx \<Rightarrow> (unit, nat \<times> Tx) outcome" where
  "Tx_Size tx =
    (case size_cache tx of
       Some sz \<Rightarrow> Ok (sz, tx)
     | None \<Rightarrow>
         (case Encode writeCounter_Write 0 (TPtr Txstruct_type) (VPtr (Txstruct_val (data tx))) of
            (c, Panic) \<Rightarrow> Panic
          | (c, _) \<Rightarrow> Ok (c, tx\<lparr>size_cache := Some c\<rparr>)))"

definition DataHash :: "Tx \<Rightarrow> (unit, bytes) run" where
  "DataHash tx = rlpHash (TSlice (TUint 8)) (VBytes (txPayload (data tx)))"

definition Tx_Data :: "Tx \<Rightarrow> bytes" where
  "Tx_Data tx = txPayload (data tx)"

definition Tx_Cost :: "Tx \<Rightarrow> int" where
  "Tx_Cost tx = txCost (data tx)"

definition Tx_Value :: "Tx \<Rightarrow> int" where
  "Tx_Value tx = txAmount (data tx)"

definition Tx_Time :: "Tx \<Rightarrow> u64" where
  "Tx_Time tx = Txtime (data tx)"

definition Tx_To :: "Tx \<Rightarrow> bytes option" where
  "Tx_To tx = (if txRecipient (data tx) = None then None else Some (the (txRecipient (data tx))))"

definition RawSignatureValues :: "Tx \<Rightarrow> int \<times> int \<times> int" where
  "RawSignatureValues tx = (sigV (data tx), sigR (data tx), sigS (data tx))"

text \<open>\<open>copy\<close> to the payload writes as many bytes as the payload has.\<close>

definition AddEpochSig :: "Tx \<Rightarrow> bytes \<Rightarrow> (unit, Tx) outcome" where
  "AddEpochSig tx sig =
    (let dat = Tx_Data tx
     in if length dat < 1 then Panic
        else
          let n = (word_of_nat (length sig) :: u32);
              sigsize = be_fixed 4 (unat n);
              b = [IdEpochSigTx] @ drop 1 dat @ sigsize @ sig;
              payload = txPayload (data tx)
          in Ok (tx\<lparr>data := (data tx)\<lparr>txPayload := take (length payload) b @ drop (length b) payload\<rparr>\<rparr>))"

section \<open>Signing\<close>

definition SignatureValues :: "Signer \<Rightarrow> Tx \<Rightarrow> bytes \<Rightarrow> (sig_error, int \<times> int \<times> int) outcome" where
  "SignatureValues fs tx sig =
    (if length sig \<noteq> 65 then Panic
     else
       let r = int (nat_of_be (take 32 sig));
           s = int (nat_of_be (take 32 (drop 32 sig)));
           v = int (nat_of_be [sig ! 64 + 27])
       in Ok (r, s, v))"

definition Signer_Hash :: "Signer \<Rightarrow> Tx \<Rightarrow> (unit, bytes) run" where
  "Signer_Hash fs tx =
    rlpHash (TSlice (TIface False)) (VList
      [VIface TBigPtr (VBig (txCost (data tx))),
       VIface (TPtr (TArray 20 (TUint 8))) (address_val (txRecipient (data tx))),
       VIface TBigPtr (VBig (txAmount (data tx))),
       VIface (TSlice (TUint 8)) (VBytes (txPayload (data tx)))])"

definition WithSignature :: "Tx \<Rightarrow> Signer \<Rightarrow> bytes \<Rightarrow> (sig_error, Tx) outcome" where
  "WithSignature tx signer sig =
    obind (SignatureValues signer tx sig) (\<lambda>(r, s, v).
      let cpy = TxbyData (data tx)
      in Ok (cpy\<lparr>data := (data cpy)\<lparr>sigR := r, sigS := s, sigV := v\<rparr>\<rparr>))"

text \<open>A run without errors of its own, used where errors of another type may occur.\<close>

definition no_err :: "(unit, 'a) run \<Rightarrow> ('e, 'a) run" where
  "no_err r = (case r of None \<Rightarrow> None | Some (Ok x) \<Rightarrow> Some (Ok x) | Some _ \<Rightarrow> Some Panic)"

definition SignTx :: "libsecp256k1 \<Rightarrow> Tx \<Rightarrow> Signer \<Rightarrow> PrivateKey \<Rightarrow> (sig_error, Tx) run" where
  "SignTx lib tx s prv =
    rbind (no_err (Signer_Hash s tx)) (\<lambda>h.
    rbind (Some (crypto_Sign lib h prv)) (\<lambda>sig.
    Some (WithSignature tx s sig)))"

text \<open>\<open>Uint64\<close> of a \<open>big.Int\<close>: the low 64 bits of the absolute value.\<close>

definition big_Uint64 :: "int \<Rightarrow> u64" where
  "big_Uint64 x = word_of_int \<bar>x\<bar>"

definition recoverPlain :: "libsecp256k1 \<Rightarrow> bytes \<Rightarrow> int \<Rightarrow> int \<Rightarrow> int \<Rightarrow> bool \<Rightarrow> (sig_error, bytes) run" where
  "recoverPlain lib sighash r_val s_val vb homestead =
    (if big_BitLen vb > 8 then Some (Err ErrInvalidSig)
     else
       let v = (ucast (big_Uint64 vb - 27) :: byte)
       in if \<not> ValidateSignatureValues v r_val s_val homestead then Some (Err ErrInvalidSig)
          else
            let r = big_Bytes (nat \<bar>r_val\<bar>);
                s = big_Bytes (nat \<bar>s_val\<bar>)
            in if length r > 32 \<or> length s > 32 then Some Panic
               else
                 let sig = (replicate (32 - length r) 0 @ r) @ (replicate (32 - length s) 0 @ s) @ [v]
                 in rbind (Some (Ecrecover lib sighash sig)) (\<lambda>pub.
                    if length pub = 0 \<or> pub ! 0 \<noteq> 4 then Some (Err ErrPublicKey)
                    else rbind (no_err (Keccak256 [drop 1 pub])) (\<lambda>h. Some (Ok (take 20 (drop 12 h))))))"

definition Signer_Sender :: "libsecp256k1 \<Rightarrow> Signer \<Rightarrow> Tx \<Rightarrow> (sig_error, bytes) run" where
  "Signer_Sender lib fs tx =
    rbind (no_err (Signer_Hash fs tx)) (\<lambda>h. recoverPlain lib h (sigR (data tx)) (sigS (data tx)) (sigV (data tx)) False)"

definition Sender :: "libsecp256k1 \<Rightarrow> Signer \<Rightarrow> Tx \<Rightarrow> (sig_error, bytes \<times> Tx) run" where
  "Sender lib signer tx =
    (let derive = rbind (Signer_Sender lib signer tx) (\<lambda>addr. Some (Ok (addr, tx\<lparr>from_cache := Some (signer, addr)\<rparr>)))
     in case from_cache tx of
          Some (sc_signer, sc_from) \<Rightarrow> if Signer_Equal sc_signer signer then Some (Ok (sc_from, tx)) else derive
        | None \<Rightarrow> derive)"

section \<open>Lists of transactions\<close>

definition Txs_GetRlp :: "Tx list \<Rightarrow> nat \<Rightarrow> (unit, bytes) outcome" where
  "Txs_GetRlp s i =
    (if i < length s then
       case EncodeToBytes Tx_type (Tx_val (s ! i)) of
         Ok b \<Rightarrow> Ok b
       | Err _ \<Rightarrow> Ok []
       | Panic \<Rightarrow> Panic
     else Panic)"

primrec tx_hashes :: "Tx list \<Rightarrow> (unit, bytes list) run" where
  "tx_hashes [] = Some (Ok [])"
| "tx_hashes (tx # txs) = rbind (Tx_Hash tx) (\<lambda>(h, _). rbind (tx_hashes txs) (\<lambda>hs. Some (Ok (h # hs))))"

primrec keep_unless :: "bytes set \<Rightarrow> Tx list \<Rightarrow> (unit, Tx list) run" where
  "keep_unless remove [] = Some (Ok [])"
| "keep_unless remove (tx # txs) =
    rbind (Tx_Hash tx) (\<lambda>(h, tx).
    rbind (keep_unless remove txs) (\<lambda>keep. Some (Ok (if h \<in> remove then keep else tx # keep))))"

definition TxDifference :: "Tx list \<Rightarrow> Tx list \<Rightarrow> (unit, Tx list) run" where
  "TxDifference a b = rbind (tx_hashes b) (\<lambda>hs. keep_unless (set hs) a)"

definition TxByCost_Less :: "Tx list \<Rightarrow> nat \<Rightarrow> nat \<Rightarrow> bool" where
  "TxByCost_Less s i j \<longleftrightarrow> txCost (data (s ! i)) > txCost (data (s ! j))"

end
