(* ===== verification/Merkle.thy ===== *)
theory Merkle
  imports Sha3Spec
begin

text \<open>
  Merkle roots and proofs over lists of hashes, \<open>common/merkle.go\<close>. The recursion of \<open>CalMerkel\<close> and the loop
  of \<open>Root\<close> do not end on an empty list and are partial functions. A slice argument is its list of elements;
  that \<open>Root\<close> also uses the array of its argument as working memory is not visible in the result.
\<close>

section \<open>The code\<close>

fun hash_pairs :: "bytes list \<Rightarrow> (unit, bytes list) run" where
  "hash_pairs [] = Some (Ok [])"
| "hash_pairs [a] = Some Panic"
| "hash_pairs (a # b # tree) = rbind (Keccak256 [a, b]) (\<lambda>h. rbind (hash_pairs tree) (\<lambda>hs. Some (Ok (h # hs))))"

definition even_up :: "bytes list \<Rightarrow> bytes list" where
  "even_up tree = (if length tree mod 2 = 1 then tree @ [last tree] else tree)"

definition add_proof :: "bytes list \<Rightarrow> bytes list option \<Rightarrow> u64 \<Rightarrow> (unit, bytes list option) outcome" where
  "add_proof tree proofs i =
    (case proofs of
       None \<Rightarrow> Ok None
     | Some ps \<Rightarrow> obind (index tree (if i mod 2 = 1 then unat (i - 1) else unat (i + 1))) (\<lambda>h. Ok (Some (ps @ [h]))))"

partial_function (option) CalMerkel :: "bytes list \<Rightarrow> bytes list option \<Rightarrow> u64 \<Rightarrow> (unit, bytes \<times> bytes list option) run" where
  "CalMerkel tree proofs i =
    (if length tree = 1 then Some (Ok (tree ! 0, proofs))
     else
       let tree = even_up tree
       in rbind (Some (add_proof tree proofs i)) (\<lambda>proofs.
          rbind (hash_pairs tree) (\<lambda>hash. CalMerkel hash proofs (i div 2))))"

fun VerigyMerkel :: "bytes \<Rightarrow> bytes list \<Rightarrow> bytes \<Rightarrow> u64 \<Rightarrow> (unit, bool) run" where
  "VerigyMerkel root [] hash i = Some (Ok (hash = root))"
| "VerigyMerkel root (h # proofs) hash i =
    rbind (Keccak256 (if i mod 2 = 0 then [hash, h] else [h, hash])) (\<lambda>hash. VerigyMerkel root proofs hash (i div 2))"

definition MerkekRoot :: "bytes list \<Rightarrow> (unit, bytes) run" where
  "MerkekRoot tree = rbind (CalMerkel tree None 0) (\<lambda>(root, _). Some (Ok root))"

partial_function (option) Root_loop :: "bytes list \<Rightarrow> (unit, bytes) run" where
  "Root_loop tree =
    rbind (hash_pairs tree) (\<lambda>result.
      if length result = 1 then Some (Ok (result ! 0)) else Root_loop (even_up result))"

definition Root :: "bytes list \<Rightarrow> (unit, bytes) run" where
  "Root tree = (if length tree = 1 then Some (Ok (tree ! 0)) else Root_loop (even_up tree))"

section \<open>The tree\<close>

definition H :: "bytes \<Rightarrow> bytes \<Rightarrow> bytes" where
  "H a b = sponge 136 0x01 32 (a @ b)"

lemma Keccak256_pair: "Keccak256 [a, b] = Some (Ok (H a b))"
  using Sum_Write_all [of 136 "[a, b]" 32 "0x01" "[]"] ok_rates by (simp add: Keccak256_def NewKeccak256_def H_def)

fun pairs :: "bytes list \<Rightarrow> bytes list" where
  "pairs (a # b # t) = H a b # pairs t"
| "pairs _ = []"

lemma hash_pairs_eq: "even (length t) \<Longrightarrow> hash_pairs t = Some (Ok (pairs t))"
  by (induction t rule: pairs.induct) (auto simp: Keccak256_pair)

lemma length_pairs [simp]: "length (pairs t) = length t div 2"
  by (induction t rule: pairs.induct) auto

lemma nth_pairs: "i < length t div 2 \<Longrightarrow> pairs t ! i = H (t ! (2 * i)) (t ! (2 * i + 1))"
proof (induction t arbitrary: i rule: pairs.induct)
  case (1 a b t)
  then show ?case by (cases i) auto
qed auto

lemma length_even_up: "length (even_up t) = 2 * ((length t + 1) div 2)"
  by (simp add: even_up_def) presburger

lemma even_even_up [simp]: "even (length (even_up t))"
  by (simp add: length_even_up)

lemma nth_even_up: "i < length t \<Longrightarrow> even_up t ! i = t ! i"
  by (simp add: even_up_def nth_append)

text \<open>The next level of the tree.\<close>

definition level_up :: "bytes list \<Rightarrow> bytes list" where
  "level_up t = pairs (even_up t)"

lemma length_level_up [simp]: "length (level_up t) = (length t + 1) div 2"
  by (simp add: level_up_def length_even_up)

function mroot :: "bytes list \<Rightarrow> bytes" where
  "mroot t = (if length t \<le> 1 then hd t else mroot (level_up t))"
  by pat_completeness auto
termination
  by (relation "measure length") auto

definition sibling :: "bytes list \<Rightarrow> nat \<Rightarrow> bytes" where
  "sibling t i = even_up t ! (if odd i then i - 1 else i + 1)"

function mproof :: "bytes list \<Rightarrow> nat \<Rightarrow> bytes list" where
  "mproof t i = (if length t \<le> 1 then [] else sibling t i # mproof (level_up t) (i div 2))"
  by pat_completeness auto
termination
  by (relation "measure (\<lambda>(t, i). length t)") auto

declare mroot.simps [simp del] mproof.simps [simp del]

lemma hash_even_up: "hash_pairs (even_up t) = Some (Ok (level_up t))"
  by (simp add: hash_pairs_eq level_up_def)

lemma length_cases: "t \<noteq> [] \<Longrightarrow> length t = 1 \<or> 1 < length t"
  by (cases t) auto

lemma CalMerkel_None: "t \<noteq> [] \<Longrightarrow> CalMerkel t None i = Some (Ok (mroot t, None))"
proof (induction t arbitrary: i rule: mroot.induct)
  case (1 t)
  from length_cases [OF 1(2)] show ?case
  proof
    assume "length t = 1"
    then show ?thesis by (subst CalMerkel.simps, subst mroot.simps) (auto simp: length_Suc_conv)
  next
    assume l: "1 < length t"
    then have "level_up t \<noteq> []" by (auto simp flip: length_0_conv)
    then show ?thesis using l 1(1) by (subst CalMerkel.simps, subst mroot.simps) (simp add: add_proof_def hash_even_up)
  qed
qed

lemma u64_index:
  "unat (i :: u64) < n \<Longrightarrow> (if i mod 2 = 1 then unat (i - 1) else unat (i + 1)) = (if odd (unat i) then unat i - 1 else unat i + 1)"
proof -
  have o: "i mod 2 = 1 \<longleftrightarrow> odd (unat i)" by (simp add: word_unat_eq_iff unat_mod odd_iff_mod_2_eq_one)
  have "unat (i - 1) = unat i - 1" if "odd (unat i)" using that by (cases "i = 0") (simp_all add: unat_minus_one)
  moreover have "unat (i + 1) = unat i + 1" if "even (unat i)"
  proof -
    have "unat i < 18446744073709551616" using unsigned_less [of i, where ?'a = nat] by simp
    then have "unat i + 1 < 18446744073709551616" using that by presburger
    then show ?thesis by (simp add: unat_word_ariths)
  qed
  ultimately show ?thesis using o by simp
qed

lemma unat_half: "unat (i div 2 :: u64) = unat i div 2"
  by (simp add: unat_div)

lemma sibling_index: "1 < length t \<Longrightarrow> j < length t \<Longrightarrow> (if odd j then j - 1 else j + 1) < length (even_up t)"
  by (auto simp: length_even_up) presburger+

lemma CalMerkel_proof:
  "unat i < length t \<Longrightarrow> CalMerkel t (Some ps) i = Some (Ok (mroot t, Some (ps @ mproof t (unat i))))"
proof (induction t arbitrary: i ps rule: mroot.induct)
  case (1 t)
  have "t \<noteq> []" using 1(2) by auto
  from length_cases [OF this] show ?case
  proof
    assume "length t = 1"
    then show ?thesis by (subst CalMerkel.simps, subst mroot.simps, subst mproof.simps) (auto simp: length_Suc_conv)
  next
    assume l: "1 < length t"
    have a: "add_proof (even_up t) (Some ps) i = Ok (Some (ps @ [sibling t (unat i)]))"
      using sibling_index [OF l 1(2)] u64_index [OF 1(2)] by (simp add: add_proof_def index_def sibling_def)
    have "unat (i div 2) < length (level_up t)" using 1(2) by (simp add: unat_half)
    then have "CalMerkel (level_up t) (Some (ps @ [sibling t (unat i)])) (i div 2) =
        Some (Ok (mroot (level_up t), Some ((ps @ [sibling t (unat i)]) @ mproof (level_up t) (unat (i div 2)))))"
      using 1(1) l by simp
    then show ?thesis using l
      by (subst CalMerkel.simps, subst mroot.simps, subst mproof.simps) (simp add: a hash_even_up unat_half)
  qed
qed

lemma level_up_nth:
  assumes "1 < length t" "j < length t"
  shows "level_up t ! (j div 2) = (if even j then H (t ! j) (sibling t j) else H (sibling t j) (t ! j))"
proof -
  have "j div 2 < length (even_up t) div 2" using assms by (simp add: length_even_up)
  then have e: "level_up t ! (j div 2) = H (even_up t ! (2 * (j div 2))) (even_up t ! (2 * (j div 2) + 1))"
    unfolding level_up_def by (rule nth_pairs)
  show ?thesis
  proof (cases "even j")
    case True
    then have "2 * (j div 2) = j" by simp
    then show ?thesis using e True assms nth_even_up [of j t] by (simp add: sibling_def)
  next
    case False
    then have "2 * (j div 2) + 1 = j" "2 * (j div 2) = j - 1" by presburger+
    then show ?thesis using e False assms nth_even_up [of j t] by (simp add: sibling_def)
  qed
qed

lemma VerigyMerkel_proof:
  "unat i < length t \<Longrightarrow> VerigyMerkel (mroot t) (mproof t (unat i)) (t ! unat i) i = Some (Ok True)"
proof (induction t arbitrary: i rule: mroot.induct)
  case (1 t)
  have "t \<noteq> []" using 1(2) by auto
  from length_cases [OF this] show ?case
  proof
    assume "length t = 1"
    then show ?thesis using 1(2) by (subst mroot.simps, subst mproof.simps) (auto simp: length_Suc_conv)
  next
    assume l: "1 < length t"
    have o: "i mod 2 = 0 \<longleftrightarrow> even (unat i)" by (simp add: word_unat_eq_iff unat_mod even_iff_mod_2_eq_zero)
    have "unat (i div 2) < length (level_up t)" using 1(2) by (simp add: unat_half)
    then have "VerigyMerkel (mroot (level_up t)) (mproof (level_up t) (unat (i div 2))) (level_up t ! unat (i div 2)) (i div 2) = Some (Ok True)"
      using 1(1) l by simp
    then show ?thesis using l level_up_nth [OF l 1(2)] o
      by (subst mroot.simps, subst mproof.simps) (auto simp: unat_half Keccak256_pair)
  qed
qed

lemma Root_loop_eq: "1 < length t \<Longrightarrow> Root_loop (even_up t) = Some (Ok (mroot t))"
proof (induction t rule: mroot.induct)
  case (1 t)
  show ?case
  proof (cases "length (level_up t) = 1")
    case True
    then obtain x where "level_up t = [x]" using length_Suc_conv [of "level_up t" 0] by (auto simp del: length_level_up)
    then show ?thesis using 1(2) by (subst Root_loop.simps, subst mroot.simps, subst mroot.simps) (simp add: hash_even_up)
  next
    case False
    then have "1 < length (level_up t)" using 1(2) by simp
    then show ?thesis using 1 False by (subst Root_loop.simps, subst mroot.simps) (simp add: hash_even_up)
  qed
qed

lemma Root_eq: "t \<noteq> [] \<Longrightarrow> Root t = Some (Ok (mroot t))"
proof -
  assume "t \<noteq> []"
  from length_cases [OF this] show ?thesis
  proof
    assume "length t = 1"
    then show ?thesis by (subst mroot.simps) (auto simp: Root_def length_Suc_conv)
  qed (simp add: Root_def Root_loop_eq)
qed

lemma half_bound:
  assumes "1 < n" "(n + 1) div 2 \<le> 2 ^ k" "2 ^ k < 2 * ((n + 1) div (2 :: nat))"
  shows "n \<le> 2 * 2 ^ k \<and> 2 ^ k < n"
proof (cases k)
  case (Suc j)
  define q where "q = (2 :: nat) ^ j"
  then have "2 ^ k = 2 * q" using Suc by simp
  then show ?thesis using assms by presburger
qed (use assms in auto)

lemma length_mproof: "t \<noteq> [] \<Longrightarrow> length t \<le> 2 ^ length (mproof t i) \<and> 2 ^ length (mproof t i) < 2 * length t"
proof (induction t i rule: mproof.induct)
  case (1 t i)
  from length_cases [OF 1(2)] show ?case
  proof
    assume "length t = 1"
    then show ?thesis by (simp add: mproof.simps [of t])
  next
    assume l: "1 < length t"
    then have "level_up t \<noteq> []" by (auto simp flip: length_0_conv)
    then have "(length t + 1) div 2 \<le> 2 ^ length (mproof (level_up t) (i div 2)) \<and>
        2 ^ length (mproof (level_up t) (i div 2)) < 2 * ((length t + 1) div 2)" using 1(1) l by simp
    then show ?thesis using l half_bound by (simp add: mproof.simps [of t])
  qed
qed

text \<open>
  C21. Merkle proofs are complete: for every element of a list of hashes \<open>CalMerkel\<close> returns, with the root that
  \<open>MerkekRoot\<close> and the loop of \<open>Root\<close> compute and a proof that \<open>VerigyMerkel\<close> accepts for this element.
\<close>
theorem merkle_complete:
  assumes "unat i < length tree"
  shows "\<exists>root ps. CalMerkel tree (Some []) i = Some (Ok (root, Some ps)) \<and> MerkekRoot tree = Some (Ok root) \<and>
    Root tree = Some (Ok root) \<and> VerigyMerkel root ps (tree ! unat i) i = Some (Ok True)"
proof -
  have "tree \<noteq> []" using assms by auto
  then show ?thesis using CalMerkel_proof [OF assms, of "[]"] VerigyMerkel_proof [OF assms]
    by (simp add: MerkekRoot_def CalMerkel_None Root_eq)
qed

lemma merkle_complete_witness:
  "\<exists>root ps. CalMerkel [replicate 32 1, replicate 32 2, replicate 32 3] (Some []) 2 = Some (Ok (root, Some ps)) \<and>
    VerigyMerkel root ps (replicate 32 3) 2 = Some (Ok True)"
  using merkle_complete [of 2 "[replicate 32 1, replicate 32 2, replicate 32 3]"] by auto

text \<open>What \<open>VerigyMerkel\<close> hashes.\<close>

fun verify_inputs :: "bytes list \<Rightarrow> bytes \<Rightarrow> nat \<Rightarrow> bytes list" where
  "verify_inputs [] h i = []"
| "verify_inputs (p # ps) h i =
    (let x = (if even i then h @ p else p @ h) in x # verify_inputs ps (sponge 136 0x01 32 x) (i div 2))"

fun verify_root :: "bytes list \<Rightarrow> bytes \<Rightarrow> nat \<Rightarrow> bytes" where
  "verify_root [] h i = h"
| "verify_root (p # ps) h i = verify_root ps (sponge 136 0x01 32 (if even i then h @ p else p @ h)) (i div 2)"

lemma VerigyMerkel_eq: "VerigyMerkel root ps h i = Some (Ok (verify_root ps h (unat i) = root))"
proof (induction ps arbitrary: h i)
  case (Cons p ps)
  have "i mod 2 = 0 \<longleftrightarrow> even (unat i)" by (simp add: word_unat_eq_iff unat_mod even_iff_mod_2_eq_zero)
  then show ?case using Cons by (simp add: Keccak256_pair H_def unat_half)
qed simp

lemma length_sponge [simp]: "length (sponge r ds n m) = n"
  by (simp add: sponge_def)

lemma verify_root_inj:
  assumes "length ps = length qs" "\<forall>x \<in> set (h # ps) \<union> set (g # qs). length x = 32" "verify_root ps h i = verify_root qs g i"
    and "inj_on (sponge 136 0x01 32) (set (verify_inputs ps h i) \<union> set (verify_inputs qs g i))"
  shows "h = g \<and> ps = qs"
  using assms
proof (induction ps qs arbitrary: h g i rule: list_induct2)
  case (Cons p ps q qs)
  let ?x = "if even i then h @ p else p @ h" and ?y = "if even i then g @ q else q @ g"
  have "sponge 136 0x01 32 ?x = sponge 136 0x01 32 ?y \<and> ps = qs"
  proof (rule Cons.IH)
    show "inj_on (sponge 136 0x01 32) (set (verify_inputs ps (sponge 136 0x01 32 ?x) (i div 2)) \<union>
        set (verify_inputs qs (sponge 136 0x01 32 ?y) (i div 2)))"
      using Cons.prems(3) by (rule inj_on_subset) (auto simp: Let_def)
  qed (use Cons.prems(1,2) in auto)
  moreover have "inj_on (sponge 136 0x01 32) {?x, ?y}" using Cons.prems(3) by (rule inj_on_subset) (auto simp: Let_def)
  ultimately have "?x = ?y" "ps = qs" by (auto dest: inj_onD)
  then show ?case using Cons.prems(1) by (auto split: if_splits)
qed simp

text \<open>
  C6. Merkle proofs of the right length are sound: if \<open>VerigyMerkel\<close> accepts a hash for the root of a tree and an index of the tree with a proof that has as many hashes as
  the one of \<open>CalMerkel\<close>, then the hash is the element of the tree at that index and the proof is the one \<open>CalMerkel\<close> gives,
  unless the hash function collides on the strings hashed along the two paths. The verifier itself does not check the number of hashes: with
  no hashes at all it accepts the root for every index.
\<close>
theorem merkle_sound:
  assumes "CalMerkel tree (Some []) i = Some (Ok (root, Some qs))" "unat i < length tree"
    and "VerigyMerkel root ps h i = Some (Ok True)" "length ps = length qs" "\<forall>x \<in> set (h # ps) \<union> set (tree ! unat i # qs). length x = 32"
    and "inj_on (sponge 136 0x01 32) (set (verify_inputs ps h (unat i)) \<union> set (verify_inputs qs (tree ! unat i) (unat i)))"
  shows "h = tree ! unat i \<and> ps = qs"
proof -
  have "root = mroot tree" "qs = mproof tree (unat i)" using assms(1) CalMerkel_proof [OF assms(2), of "[]"] by simp_all
  then have "VerigyMerkel root qs (tree ! unat i) i = Some (Ok True)" using VerigyMerkel_proof [OF assms(2)] by simp
  then have "verify_root ps h (unat i) = verify_root qs (tree ! unat i) (unat i)" using assms(3) by (simp add: VerigyMerkel_eq)
  with assms(4,5) show ?thesis using assms(6) by (rule verify_root_inj)
qed

lemma merkle_sound_witness:
  "\<exists>root qs. CalMerkel [replicate 32 1, replicate 32 2] (Some []) 0 = Some (Ok (root, Some qs)) \<and>
    VerigyMerkel root [replicate 32 2] (replicate 32 1) 0 = Some (Ok True) \<and> qs = [replicate 32 2]"
proof -
  let ?a = "replicate 32 (1 :: byte)" and ?b = "replicate 32 (2 :: byte)"
  have m: "mroot [?a, ?b] = H ?a ?b" "mproof [?a, ?b] 0 = [?b]"
    by (simp_all add: mroot.simps mproof.simps level_up_def even_up_def sibling_def)
  have c: "CalMerkel [?a, ?b] (Some []) 0 = Some (Ok (H ?a ?b, Some [?b]))" using CalMerkel_proof [of 0 "[?a, ?b]" "[]"] m by simp
  have v: "VerigyMerkel (H ?a ?b) [?b] ?a 0 = Some (Ok True)" by (simp add: VerigyMerkel_eq H_def)
  have "?a = [?a, ?b] ! unat (0 :: u64) \<and> [?b] = [?b]" by (rule merkle_sound [OF c _ v]) simp_all
  then show ?thesis using c v by blast
qed

text \<open>
  C22. The size of a proof: for \<open>n\<close> leaves it has the least number \<open>k\<close> of hashes with \<open>n \<le> 2 ^ k\<close>.
\<close>
theorem merkle_proof_size:
  assumes "unat i < length tree"
  shows "\<exists>root ps. CalMerkel tree (Some []) i = Some (Ok (root, Some ps)) \<and>
    length tree \<le> 2 ^ length ps \<and> 2 ^ length ps < 2 * length tree"
proof -
  have "tree \<noteq> []" using assms by auto
  then show ?thesis using CalMerkel_proof [OF assms, of "[]"] length_mproof [of tree "unat i"] by simp
qed

lemma merkle_proof_size_witness:
  "\<exists>root ps. CalMerkel [replicate 32 1, replicate 32 2, replicate 32 3] (Some []) 2 = Some (Ok (root, Some ps)) \<and>
    3 \<le> (2 :: nat) ^ length ps \<and> 2 ^ length ps < (6 :: nat)"
  using merkle_proof_size [of 2 "[replicate 32 1, replicate 32 2, replicate 32 3]"] by auto

text \<open>
  C24. The root does not determine the list: a list of odd length greater than one and the list with its last
  element repeated have the same root, since \<open>CalMerkel\<close> repeats the last element itself.
\<close>
theorem merkle_root_ambiguous:
  assumes "odd (length tree)" "1 < length tree"
  shows "MerkekRoot (tree @ [last tree]) = MerkekRoot tree"
proof -
  have "level_up (tree @ [last tree]) = level_up tree" using assms(1) by (simp add: level_up_def even_up_def odd_iff_mod_2_eq_one mod_Suc)
  then have "mroot (tree @ [last tree]) = mroot tree" using assms(2) by (subst (1 2) mroot.simps) auto
  moreover have "tree \<noteq> []" using assms(2) by auto
  ultimately show ?thesis by (simp add: MerkekRoot_def CalMerkel_None)
qed

lemma merkle_root_ambiguous_witness:
  "MerkekRoot [replicate 32 1, replicate 32 2, replicate 32 3, replicate 32 3] =
   MerkekRoot [replicate 32 1, replicate 32 2, replicate 32 3]"
  using merkle_root_ambiguous [of "[replicate 32 1, replicate 32 2, replicate 32 3]"] by simp

text \<open>
  On the empty list \<open>MerkekRoot\<close> and \<open>Root\<close> do not return.
\<close>
theorem merkle_empty_diverges: "MerkekRoot [] = None \<and> Root [] = None"
proof -
  have "Root_loop u = Some r \<Longrightarrow> u \<noteq> []" for u r
    by (erule Root_loop.raw_induct [rotated]) (force simp: rbind_def even_up_def split: option.splits if_splits)
  then have "Root_loop [] = None" by (cases "Root_loop []") auto
  moreover have "p = None \<longrightarrow> u \<noteq> []" if "CalMerkel u p i = Some r" for u p i r
    using that
    by (rule CalMerkel.raw_induct [where P = "\<lambda>u p i r. p = None \<longrightarrow> u \<noteq> []", rotated])
      (fastforce simp: even_up_def add_proof_def split: if_splits)
  then have "CalMerkel [] None 0 = None" by (cases "CalMerkel [] None 0") auto
  ultimately show ?thesis by (simp add: MerkekRoot_def Root_def even_up_def)
qed

end
