(* ===== verification/TransactionSpec.thy ===== *)
theory TransactionSpec
  imports Transaction Merkle
begin

text \<open>
  What the operations on transactions compute. \<open>append_writer\<close> is the contract of a writer that accepts everything, as the hash and
  the counter of \<open>Size\<close> do; \<open>tx_enc\<close> is the encoding of a transaction and \<open>keccak\<close> the hash function as a sponge.
\<close>

section \<open>Writers that accept everything\<close>

locale append_writer =
  fixes wr :: "'s Write" and holding :: "'s \<Rightarrow> bytes \<Rightarrow> bool"
  assumes wr_ok: "holding s m \<Longrightarrow> \<exists>s'. wr s p = (s', length p, None) \<and> holding s' (m @ p)"
begin

lemma toWriter_loop_ok:
  "heads_ok strpos (length s) hs \<Longrightarrow> holding out m \<Longrightarrow>
    \<exists>out'. toWriter_loop wr s hs strpos out = (out', Ok ()) \<and> holding out' (m @ render strpos s hs)"
proof (induction hs arbitrary: strpos out m)
  case Nil
  then show ?case using wr_ok [of out m "drop strpos s"] by auto
next
  case (Cons h hs)
  then have le: "strpos \<le> offset h" "offset h \<le> length s" by (auto dest: heads_ok_le)
  let ?p = "take (offset h - strpos) (drop strpos s)"
  have "\<exists>out1. (if offset h > strpos then case (slice s strpos (offset h) :: (rlp_error, bytes) outcome) of
             Ok p \<Rightarrow> (case wr out p of (out, n, None) \<Rightarrow> (out, Ok (strpos + n)) | (out, n, Some err) \<Rightarrow> (out, Err err))
           | _ \<Rightarrow> (out, Panic) else (out, Ok strpos)) = (out1, Ok (offset h)) \<and> holding out1 (m @ ?p)"
    using wr_ok [OF Cons.prems(2), of ?p] Cons.prems(2) le by (auto simp: slice_def)
  then obtain out1 where o1: "(if offset h > strpos then case (slice s strpos (offset h) :: (rlp_error, bytes) outcome) of
             Ok p \<Rightarrow> (case wr out p of (out, n, None) \<Rightarrow> (out, Ok (strpos + n)) | (out, n, Some err) \<Rightarrow> (out, Err err))
           | _ \<Rightarrow> (out, Panic) else (out, Ok strpos)) = (out1, Ok (offset h))" "holding out1 (m @ ?p)" by blast
  obtain out2 where o2: "wr out1 (listhead_encode h) = (out2, length (listhead_encode h), None)"
    "holding out2 ((m @ ?p) @ listhead_encode h)"
    using wr_ok [OF o1(2)] by blast
  have "heads_ok (offset h) (length s) hs" using Cons.prems(1) by simp
  from Cons.IH [OF this o2(2)] show ?case using o1(1) o2(1) by (simp add: Let_def)
qed

lemma Encode_ok:
  assumes "rlp_top t v = Ok b" "length b < 2 ^ 64" "holding out m"
  shows "\<exists>out'. Encode wr out t v = (out', Ok ()) \<and> holding out' (m @ b)"
proof -
  obtain w where w: "encbuf_encode t v encbuf_reset = Ok w" "holds w b" using assms(1,2) by (rule encbuf_encode_holds)
  then show ?thesis using toWriter_loop_ok [of 0 "str w" "lheads w" out m] assms(3)
    by (auto simp: Encode_def toWriter_def holds_def)
qed

end

lemma Encode_Err: "rlp_top t v = Err e \<Longrightarrow> Encode wr out t v = (out, Err e)"
  using writes_encoders(1) [of t v encbuf_reset] by (simp add: Encode_def writes_def)

interpretation counter: append_writer writeCounter_Write "\<lambda>c m. c = length m"
  by unfold_locales (simp add: writeCounter_Write_def)

interpretation buffer: append_writer buffer_Write "\<lambda>b m. b = m"
  by unfold_locales (simp add: buffer_Write_def)

interpretation hw: append_writer hw_Write "\<lambda>hw m. \<exists>d. hw = Some (Ok d) \<and> hash_repr 136 1 32 d m"
proof
  fix hw :: "(unit, state) run" and m p assume "\<exists>d. hw = Some (Ok d) \<and> hash_repr 136 1 32 d m"
  then obtain d where d: "hw = Some (Ok d)" "hash_repr 136 1 32 d m" by blast
  obtain d' where "Write p d = Some (Ok (length p, d'))" "hash_repr 136 1 32 d' (m @ p)" using sponge.wr_ok [OF d(2)] by blast
  then show "\<exists>s'. hw_Write hw p = (s', length p, None) \<and> (\<exists>d. s' = Some (Ok d) \<and> hash_repr 136 1 32 d (m @ p))"
    by (simp add: hw_Write_def d)
qed

abbreviation keccak :: "bytes \<Rightarrow> bytes" where
  "keccak m \<equiv> sponge 136 1 32 m"

lemma new_hw: "\<exists>d. Some (Ok NewKeccak256) = Some (Ok d) \<and> hash_repr 136 1 32 d []"
  using fresh_repr [OF ok_rates(1), of 1 32] by (simp add: NewKeccak256_def)

lemma rlpHash_Ok: "rlp_top t v = Ok b \<Longrightarrow> length b < 2 ^ 64 \<Longrightarrow> rlpHash t v = Some (Ok (keccak b))"
  using hw.Encode_ok [OF _ _ new_hw, of t v b] by (auto simp: rlpHash_def Sum_repr)

lemma rlpHash_Err: "rlp_top t v = Err e \<Longrightarrow> rlpHash t v = Some (Ok (keccak []))"
  using new_hw by (auto simp: rlpHash_def Encode_Err Sum_repr)

lemma Keccak256_single: "Keccak256 [m] = Some (Ok (keccak m))"
  using Sum_Write_all [OF ok_rates(1), of "[m]" 32 1 "[]"] by (simp add: Keccak256_def NewKeccak256_def)

section \<open>The encoding of a transaction\<close>

definition rlp_address :: "bytes option \<Rightarrow> bytes" where
  "rlp_address a = rlp_str (case a of None \<Rightarrow> [] | Some a \<Rightarrow> a)"

definition tx_enc :: "Txstruct \<Rightarrow> bytes" where
  "tx_enc d = rlp_list (rlp_nat (nat (txCost d)) @ rlp_address (txRecipient d) @ rlp_nat (nat (txAmount d)) @ rlp_nat (unat (Txtime d)) @
    rlp_str (txPayload d) @ rlp_nat (nat (sigV d)) @ rlp_nat (nat (sigR d)) @ rlp_nat (nat (sigS d)))"

definition sig_enc :: "Txstruct \<Rightarrow> bytes" where
  "sig_enc d = rlp_list (rlp_nat (nat (txCost d)) @ rlp_address (txRecipient d) @ rlp_nat (nat (txAmount d)) @ rlp_str (txPayload d))"

definition tx_wf :: "Txstruct \<Rightarrow> bool" where
  "tx_wf d \<longleftrightarrow> txCost d \<ge> 0 \<and> txAmount d \<ge> 0 \<and> sigV d \<ge> 0 \<and> sigR d \<ge> 0 \<and> sigS d \<ge> 0 \<and>
    (\<forall>a. txRecipient d = Some a \<longrightarrow> length a = AddressLength) \<and> length (tx_enc d) < 2 ^ 64 \<and> length (sig_enc d) < 2 ^ 64"

lemma Txstruct_decodable: "decodable False Txstruct_type"
  by (simp add: Txstruct_type_def tag_eval)

lemma enc_Txstruct: "tx_wf d \<Longrightarrow> enc Txstruct_type no_tags (Txstruct_val d) (tx_enc d)"
  using unat_u64_less [of "Txtime d"]
  by (cases "txRecipient d") (simp_all add: Txstruct_type_def Txstruct_val_def enc_def tx_wf_def tx_enc_def rlp_address_def AddressLength_def
      rlp_of.simps structFields_def tag_eval rlp_big_def isStructOrArray_def obytes_def)

lemma rlp_top_Txstruct:
  "tx_wf d \<Longrightarrow> rlp_top (TPtr Txstruct_type) (VPtr (Txstruct_val d)) = Ok (tx_enc d)"
  using enc_Txstruct [of d] genTypeInfo_decodable(1) [OF Txstruct_decodable]
  by (simp add: rlp_top.simps rlp_of.simps genTypeInfo.simps enc_def)

lemma rlp_top_Tx: "tx_wf (data tx) \<Longrightarrow> rlp_top Tx_type (Tx_val tx) = Ok (tx_enc (data tx))"
  using rlp_top_Txstruct [of "data tx"] genTypeInfo_decodable(1) [OF Txstruct_decodable]
  by (simp add: Tx_type_def Tx_val_def rlp_top.simps [of "TEnc _ _"] rlp_of.simps [of "TEnc _ _"] genTypeInfo.simps)

lemma Signer_Hash_eq: "tx_wf (data tx) \<Longrightarrow> Signer_Hash fs tx = Some (Ok (keccak (sig_enc (data tx))))"
  unfolding Signer_Hash_def
  by (rule rlpHash_Ok, cases "txRecipient (data tx)")
    (simp_all add: sig_enc_def rlp_address_def tx_wf_def rlp_top.simps rlp_of.simps genTypeInfo.simps isByte_def rlp_big_def obytes_def no_tags_def)


lemma Stream_Decode_good:
  assumes "good strict (decoder t no_tags) E" "genTypeInfo t = Ok ()" "stream_ok s" "skind s = None" "E v e" "inp s = e @ r" "length e \<le> avail s"
  shows "\<exists>s'. Stream_Decode t s = (Ok v, s') \<and> reads e s s'"
  using acceptsD [OF goodD(1) [OF assms(1)] assms(3-7)] assms(2) by (auto simp: Stream_Decode_def swrap_def)

lemma Stream_Decode_peek:
  "good strict (decoder t no_tags) E \<Longrightarrow> genTypeInfo t = Ok () \<Longrightarrow> Stream_Kind s = (x, s1) \<Longrightarrow> Stream_Decode t s1 = Stream_Decode t s"
  using peekD [OF goodD(4), of strict "decoder t no_tags" E s x s1] by (simp add: Stream_Decode_def swrap_def)

lemma ListSize_eq:
  assumes "length (rlp_list c) < 2 ^ 64"
  shows "unat (ListSize (word_of_nat (length c))) = length (rlp_list c)"
proof -
  have c: "unat (word_of_nat (length c) :: u64) = length c" using assms by (simp add: rlp_list_def unat_of_nat)
  then have h: "headsize (word_of_nat (length c)) = length (rlp_head 0xC0 0xF7 (length c))"
    using headsize_rlp_head [of "word_of_nat (length c)" "0xC0" "0xF7"] by simp
  show ?thesis unfolding ListSize_def h using assms by (simp add: rlp_list_def unat_of_nat flip: of_nat_add)
qed

lemma Tx_DecodeRLP_eq:
  assumes "tx_wf d" "stream_ok s" "skind s = None" "inp s = tx_enc d @ r" "length (tx_enc d) \<le> avail s"
  shows "\<exists>s'. Tx_DecodeRLP rcv s = (Ok (rcv\<lparr>data := d, size_cache := Some (length (tx_enc d))\<rparr>), s') \<and> reads (tx_enc d) s s'"
proof -
  note g = good_decoder(1) [OF Txstruct_decodable field_tags_no_tags] and ti = genTypeInfo_decodable(1) [OF Txstruct_decodable]
  obtain c where c: "tx_enc d = rlp_list c" by (simp add: tx_enc_def)
  have l: "length (rlp_list c) < 2 ^ 64" using assms(1) by (simp add: tx_wf_def c)
  then have n: "length c < 2 ^ 64" by (simp add: rlp_list_def)
  obtain s1 where k: "Stream_Kind s = (Ok (KList, word_of_nat (length c)), s1)"
    using Stream_Kind_ok [OF assms(2,3) header_list [OF n], of "c @ r"] assms(4,5) n by (simp add: c rlp_list_def unat_of_nat)
  obtain s' where s': "Stream_Decode Txstruct_type s = (Ok (Txstruct_val d), s')" "reads (tx_enc d) s s'"
    using Stream_Decode_good [OF g ti assms(2,3) enc_Txstruct [OF assms(1)] assms(4,5)] by blast
  have "Txstruct_of (Txstruct_val d) = Some d"
    by (cases "txRecipient d") (simp_all add: Txstruct_of_def Txstruct_val_def big_of_def bytes_of_def)
  then show ?thesis using s' k Stream_Decode_peek [OF g ti k] ListSize_eq [OF l] by (simp add: Tx_DecodeRLP_def c)
qed

text \<open>
  C28. Transactions survive encoding: \<open>EncodeRLP\<close> of a well-formed transaction (nonnegative integers, an address of 20 bytes if there is one)
  writes its encoding, from which \<open>DecodeRLP\<close>, called on any transaction, restores the data and sets the size to the number of bytes read. The caches
  of the hash and the sender stay those of the transaction it is called on.
\<close>
theorem Tx_EncodeRLP_DecodeRLP:
  assumes "tx_wf (data tx)"
  shows "\<exists>e s tx'. Tx_EncodeRLP buffer_Write [] tx = (e, Ok ()) \<and> Tx_DecodeRLP rcv (NewStream e (word_of_nat (length e)) True) = (Ok tx', s) \<and>
    inp s = [] \<and> data tx' = data tx \<and> size_cache tx' = Some (length e) \<and> hash_cache tx' = hash_cache rcv \<and> from_cache tx' = from_cache rcv"
proof -
  let ?e = "tx_enc (data tx)"
  have l: "length ?e < 2 ^ 64" using assms by (simp add: tx_wf_def)
  have "Tx_EncodeRLP buffer_Write [] tx = (?e, Ok ())"
    using buffer.Encode_ok [OF rlp_top_Txstruct [OF assms] l, of "[]"] by (simp add: Tx_EncodeRLP_def)
  moreover obtain s where "Tx_DecodeRLP rcv (byte_stream ?e) = (Ok (rcv\<lparr>data := data tx, size_cache := Some (length ?e)\<rparr>), s)" "reads ?e (byte_stream ?e) s"
    using Tx_DecodeRLP_eq [OF assms byte_stream(1,2) [OF l], of "[]" rcv] byte_stream(3,4) [OF l] by auto
  moreover from this(2) have "inp s = []" using byte_stream(3) [OF l] by (simp add: reads_def same_def adv_def)
  ultimately show ?thesis by auto
qed

text \<open>A transaction for the witnesses.\<close>

definition sample_tx :: Tx where
  "sample_tx = NewRecharge 7 zero_address (Some 5) (Some 1)"

lemma sample_tx_wf: "tx_wf (data sample_tx)"
  by (simp add: sample_tx_def NewRecharge_def newTx_def TxbyData_def tx_wf_def AddressLength_def tx_enc_def sig_enc_def rlp_address_def
      rlp_list_def rlp_str_def rlp_head_def big_Bytes.simps)

lemma Tx_EncodeRLP_DecodeRLP_witness:
  "\<exists>e s tx'. Tx_EncodeRLP buffer_Write [] sample_tx = (e, Ok ()) \<and>
    Tx_DecodeRLP (sample_tx\<lparr>hash_cache := Some [1]\<rparr>) (NewStream e (word_of_nat (length e)) True) = (Ok tx', s) \<and>
    data tx' = data sample_tx \<and> hash_cache tx' = Some [1]"
  using Tx_EncodeRLP_DecodeRLP [OF sample_tx_wf, of "sample_tx\<lparr>hash_cache := Some [1]\<rparr>"] by fastforce

section \<open>The caches\<close>

lemma Tx_Hash_eq: "tx_wf (data tx) \<Longrightarrow> hash_cache tx = None \<Longrightarrow>
    Tx_Hash tx = Some (Ok (keccak (tx_enc (data tx)), tx\<lparr>hash_cache := Some (keccak (tx_enc (data tx)))\<rparr>))"
  using rlpHash_Ok [OF rlp_top_Tx] by (simp add: Tx_Hash_def tx_wf_def)

lemma Tx_Size_eq: "tx_wf (data tx) \<Longrightarrow> size_cache tx = None \<Longrightarrow>
    Tx_Size tx = Ok (length (tx_enc (data tx)), tx\<lparr>size_cache := Some (length (tx_enc (data tx)))\<rparr>)"
  using counter.Encode_ok [OF rlp_top_Txstruct, of "data tx" 0 "[]"] by (simp add: Tx_Size_def tx_wf_def)

lemma rbind_Ok_iff: "rbind r f = Some (Ok y) \<longleftrightarrow> (\<exists>x. r = Some (Ok x) \<and> f x = Some (Ok y))"
  by (cases r rule: option.exhaust [case_product outcome.exhaust [of "the r"]]) (auto split: option.splits outcome.splits)

text \<open>
  The transactions that arise from constructors, and from decoding into a transaction whose hash and sender are not cached, by the
  operations that fill caches or sign.
\<close>

inductive made :: "libsecp256k1 \<Rightarrow> Tx \<Rightarrow> bool" for lib where
  new: "tx_wf d \<Longrightarrow> made lib (TxbyData d)"
| decoded: "tx_wf d \<Longrightarrow> hash_cache rcv = None \<Longrightarrow> from_cache rcv = None \<Longrightarrow>
    Tx_DecodeRLP rcv (NewStream (tx_enc d) (word_of_nat (length (tx_enc d))) True) = (Ok tx, s) \<Longrightarrow> made lib tx"
| hashed: "made lib tx \<Longrightarrow> Tx_Hash tx = Some (Ok (h, tx')) \<Longrightarrow> made lib tx'"
| sized: "made lib tx \<Longrightarrow> Tx_Size tx = Ok (n, tx') \<Longrightarrow> made lib tx'"
| sent: "made lib tx \<Longrightarrow> Sender lib FrontierSigner tx = Some (Ok (a, tx')) \<Longrightarrow> made lib tx'"
| signed: "made lib tx \<Longrightarrow> WithSignature tx FrontierSigner sig = Ok tx' \<Longrightarrow> tx_wf (data tx') \<Longrightarrow> made lib tx'"

definition caches_ok :: "libsecp256k1 \<Rightarrow> Tx \<Rightarrow> bool" where
  "caches_ok lib tx \<longleftrightarrow> tx_wf (data tx) \<and> hash_cache tx \<in> {None, Some (keccak (tx_enc (data tx)))} \<and>
    size_cache tx \<in> {None, Some (length (tx_enc (data tx)))} \<and>
    (\<forall>a. from_cache tx = Some (FrontierSigner, a) \<longrightarrow> Signer_Sender lib FrontierSigner tx = Some (Ok a))"

lemma Signer_Sender_data: "data tx' = data tx \<Longrightarrow> Signer_Sender lib fs tx' = Signer_Sender lib fs tx"
  by (simp add: Signer_Sender_def Signer_Hash_def)

lemma made_caches_ok: "made lib tx \<Longrightarrow> caches_ok lib tx"
proof (induction rule: made.induct)
  case (new d)
  then show ?case by (simp add: caches_ok_def TxbyData_def)
next
  case (decoded d rcv tx s)
  have l: "length (tx_enc d) < 2 ^ 64" using decoded(1) by (simp add: tx_wf_def)
  then show ?case using decoded Tx_DecodeRLP_eq [OF decoded(1) byte_stream(1,2) [OF l], of "[]" rcv] byte_stream(3,4) [OF l]
    by (auto simp: caches_ok_def)
next
  case (hashed tx h tx')
  then show ?case using Tx_Hash_eq [of tx]
    by (cases "hash_cache tx") (auto simp: caches_ok_def Tx_Hash_def Signer_Sender_data [of "tx\<lparr>hash_cache := _\<rparr>" tx])
next
  case (sized tx n tx')
  then show ?case using Tx_Size_eq [of tx]
    by (cases "size_cache tx") (auto simp: caches_ok_def Tx_Size_def Signer_Sender_data [of "tx\<lparr>size_cache := _\<rparr>" tx])
next
  case (sent tx a tx')
  then show ?case
    by (auto simp: caches_ok_def Sender_def Let_def Signer_Equal_def rbind_Ok_iff Signer_Sender_data [of "tx\<lparr>from_cache := _\<rparr>" tx]
        split: option.splits Signer.splits)
next
  case (signed tx sig tx')
  then show ?case by (auto simp: caches_ok_def WithSignature_def Let_def TxbyData_def obind_Ok_iff split: prod.splits)
qed

text \<open>
  C29. The caches of a transaction are never stale: for every transaction that comes from the constructors, or from decoding into a transaction whose hash
  and sender are not cached (such as a new one), by hashing, measuring, recovering the sender and signing, in any order, \<open>Hash\<close> returns the Keccak-256 hash of its encoding, \<open>Size\<close> the length
  of its encoding, and \<open>Sender\<close> the sender recovered from its signature, whatever is cached.
\<close>
theorem made_not_stale:
  assumes "made lib tx"
  shows "\<exists>tx1 tx2 tx3. Tx_Hash tx = Some (Ok (keccak (tx_enc (data tx)), tx1)) \<and> data tx1 = data tx \<and>
    Tx_Size tx = Ok (length (tx_enc (data tx)), tx2) \<and> data tx2 = data tx \<and>
    Sender lib FrontierSigner tx = rbind (Signer_Sender lib FrontierSigner tx) (\<lambda>a. Some (Ok (a, tx3 a))) \<and> (\<forall>a. data (tx3 a) = data tx)"
proof -
  have ok: "caches_ok lib tx" using assms by (rule made_caches_ok)
  have "\<exists>tx1. Tx_Hash tx = Some (Ok (keccak (tx_enc (data tx)), tx1)) \<and> data tx1 = data tx"
    using ok Tx_Hash_eq [of tx] by (cases "hash_cache tx") (auto simp: caches_ok_def Tx_Hash_def)
  moreover have "\<exists>tx2. Tx_Size tx = Ok (length (tx_enc (data tx)), tx2) \<and> data tx2 = data tx"
    using ok Tx_Size_eq [of tx] by (cases "size_cache tx") (auto simp: caches_ok_def Tx_Size_def)
  moreover have "\<exists>tx3. Sender lib FrontierSigner tx = rbind (Signer_Sender lib FrontierSigner tx) (\<lambda>a. Some (Ok (a, tx3 a))) \<and> (\<forall>a. data (tx3 a) = data tx)"
  proof (cases "from_cache tx")
    case None
    then show ?thesis by (intro exI [of _ "\<lambda>a. tx\<lparr>from_cache := Some (FrontierSigner, a)\<rparr>"]) (simp add: Sender_def)
  next
    case (Some c)
    then obtain a where "from_cache tx = Some (FrontierSigner, a)" by (cases c, cases "fst c") auto
    then show ?thesis using ok by (intro exI [of _ "\<lambda>a. tx"]) (simp add: Sender_def caches_ok_def Signer_Equal_def)
  qed
  ultimately show ?thesis by blast
qed

definition no_lib :: libsecp256k1 where
  "no_lib = \<lparr>ec_seckey_verify = (\<lambda>_. False), ecdsa_sign_recoverable = (\<lambda>_ _. None), ecdsa_recover_pubkey = (\<lambda>_ _. None),
    ecdsa_verify_enc = (\<lambda>_ _ _. False), decompress_pubkey = (\<lambda>_. None), pubkey_scalar_mul = (\<lambda>p _. (p, False))\<rparr>"

lemma made_not_stale_witness:
  "\<exists>tx1 tx2. Tx_Hash sample_tx = Some (Ok (keccak (tx_enc (data sample_tx)), tx1)) \<and>
    Tx_Size sample_tx = Ok (length (tx_enc (data sample_tx)), tx2)"
proof -
  have "sample_tx = TxbyData (data sample_tx)" by (simp add: sample_tx_def NewRecharge_def newTx_def TxbyData_def)
  then have "made no_lib sample_tx" using made.new [OF sample_tx_wf] by metis
  from made_not_stale [OF this] show ?thesis by blast
qed

text \<open>
  C34. \<open>AddEpochSig\<close> does not add the signature and leaves the caches behind: for every nonempty payload the result is the same for
  all signatures, the payload with its first byte replaced, and when the hash was asked for before, \<open>Hash\<close> still returns the
  hash of the old payload. For an empty payload it panics.
\<close>
theorem AddEpochSig_drops_signature:
  "AddEpochSig tx sig = (case txPayload (data tx) of [] \<Rightarrow> Panic | _ # p \<Rightarrow> Ok (tx\<lparr>data := (data tx)\<lparr>txPayload := IdEpochSigTx # p\<rparr>\<rparr>)) \<and>
   (case AddEpochSig (tx\<lparr>hash_cache := Some h\<rparr>) sig of
      Ok tx' \<Rightarrow> Tx_Hash tx' = Some (Ok (h, tx'))
    | _ \<Rightarrow> txPayload (data tx) = [])"
  by (cases "txPayload (data tx)") (simp_all add: AddEpochSig_def Tx_Data_def Let_def Tx_Hash_def)

section \<open>Signing and recovering the sender\<close>

text \<open>
  What the C library documents: a valid secret key signs every message, the signature has its two numbers in range and a recovery
  id below 4, and recovery gives the uncompressed public key.
\<close>

definition ecdsa_ok :: "libsecp256k1 \<Rightarrow> (bytes \<Rightarrow> bytes) \<Rightarrow> bool" where
  "ecdsa_ok lib pub \<longleftrightarrow>
    (\<forall>msg sk. length msg = 32 \<and> length sk = 32 \<and> ec_seckey_verify lib sk \<longrightarrow>
      (\<exists>r s v. ecdsa_sign_recoverable lib msg sk = Some (be_fixed 32 r @ be_fixed 32 s, v) \<and>
        0 < r \<and> int r < secp256k1_N \<and> 0 < s \<and> int s < secp256k1_N \<and> v < 4 \<and>
        ecdsa_recover_pubkey lib (be_fixed 32 r @ be_fixed 32 s @ [v]) msg = Some (4 # pub sk)))"

lemma N_less: "int n < secp256k1_N \<Longrightarrow> n < 256 ^ 32"
  by (simp add: secp256k1_N_def)

lemma small_v:
  assumes "v < (4 :: byte)"
  shows "unat (v + 27) = unat v + 27" "big_BitLen (int (unat v + 27)) \<le> 8" "ucast (big_Uint64 (int (unat v + 27)) - 27 :: u64) = v"
proof -
  have v: "unat v < 4" using assms by (simp add: word_less_nat_alt)
  then show "unat (v + 27) = unat v + 27" by (simp add: unat_word_ariths)
  show "big_BitLen (int (unat v + 27)) \<le> 8" using v by (simp add: big_BitLen_def nat_bits_le nat_add_distrib)
  show "ucast (big_Uint64 (int (unat v + 27)) - 27 :: u64) = v"
    by (simp add: big_Uint64_def) (rule bit_word_eqI, simp add: bit_simps)
qed

lemma recoverPlain_signature:
  assumes "0 < r" "int r < secp256k1_N" "0 < s" "int s < secp256k1_N" "v < 4" "length h = 32"
    and "ecdsa_recover_pubkey lib (be_fixed 32 r @ be_fixed 32 s @ [v]) h = Some (4 # pk)"
  shows "recoverPlain lib h (int r) (int s) (int (unat v + 27)) False =
    Some (if v < 2 then Ok (drop 12 (keccak pk)) else Err ErrInvalidSig)"
proof (cases "v < 2")
  case True
  then have v: "v = 0 \<or> v = 1" by (auto simp: word_less_nat_alt word_unat_eq_iff less_2_cases_iff)
  have "ValidateSignatureValues v (int r) (int s) False" using assms(1-4) v by (simp add: ValidateSignatureValues_def)
  moreover have "Ecrecover lib h (be_fixed 32 r @ be_fixed 32 s @ [v]) = Ok (4 # pk)"
    using assms(5-7) by (simp add: Ecrecover_def RecoverPubkey_def checkSignature_def nth_append not_le)
  ultimately show ?thesis
    using True small_v [OF assms(5)] be_fixed_pad [OF N_less [OF assms(2)]] be_fixed_pad [OF N_less [OF assms(4)]]
      length_big_Bytes_le [OF N_less [OF assms(2)]] length_big_Bytes_le [OF N_less [OF assms(4)]]
    by (simp add: recoverPlain_def Let_def Keccak256_single no_err_def length_sponge not_less)
next
  case False
  then have "\<not> ValidateSignatureValues v (int r) (int s) False" by (auto simp: ValidateSignatureValues_def)
  then show ?thesis using False small_v [OF assms(5)] by (simp add: recoverPlain_def Let_def not_less)
qed

text \<open>
  C27. Signatures are recovered: for a valid secret key, \<open>SignTx\<close> returns a copy of the transaction with the signature, whose other data are unchanged, and
  \<open>Sender\<close> of this copy is the address of the public key, the last 20 bytes of its hash. The exception are the signatures with recovery id 2
  or 3, which \<open>SignTx\<close> returns without error and \<open>Sender\<close> rejects.
\<close>
theorem SignTx_Sender:
  assumes "ecdsa_ok lib pub" "ec_seckey_verify lib (be_fixed 32 (nat (keyD prv)))" "0 \<le> keyD prv" "keyD prv < 256 ^ 32" "tx_wf (data tx)"
  shows "\<exists>tx' v. SignTx lib tx FrontierSigner prv = Some (Ok tx') \<and> v < 4 \<and>
    data tx' = (data tx)\<lparr>sigV := int v + 27, sigR := sigR (data tx'), sigS := sigS (data tx')\<rparr> \<and>
    Signer_Sender lib FrontierSigner tx' =
      Some (if v < 2 then Ok (drop 12 (keccak (pub (be_fixed 32 (nat (keyD prv)))))) else Err ErrInvalidSig)"
proof -
  let ?h = "keccak (sig_enc (data tx))" and ?sk = "be_fixed 32 (nat (keyD prv))"
  have h: "length ?h = 32" by (simp add: length_sponge)
  from assms(1) obtain r s v where sg: "ecdsa_sign_recoverable lib ?h ?sk = Some (be_fixed 32 r @ be_fixed 32 s, v)"
    and rs: "0 < r" "int r < secp256k1_N" "0 < s" "int s < secp256k1_N" "v < 4"
    and rec: "ecdsa_recover_pubkey lib (be_fixed 32 r @ be_fixed 32 s @ [v]) ?h = Some (4 # pub ?sk)"
    using assms(2) h unfolding ecdsa_ok_def by (metis length_be_fixed)
  have "PaddedBigBytes (keyD prv) (BitSize S256 div 8) = ?sk" using assms(3,4) by (simp add: PaddedBigBytes_eq S256_def nat_less_iff)
  then have sig: "crypto_Sign lib ?h prv = Ok (be_fixed 32 r @ be_fixed 32 s @ [v])"
    using assms(2) h sg by (simp add: crypto_Sign_def secp_Sign_def list_update_append)
  have rn: "nat_of_be (be_fixed 32 r) = r" "nat_of_be (be_fixed 32 s) = s" using N_less rs(2,4) by (simp_all add: nat_of_be_fixed)
  define d where "d = (data tx)\<lparr>sigR := int r, sigS := int s, sigV := int (unat v + 27)\<rparr>"
  have sv: "SignatureValues FrontierSigner tx (be_fixed 32 r @ be_fixed 32 s @ [v]) = Ok (int r, int s, int (unat v + 27))"
    using small_v(1) [OF rs(5)] by (simp add: SignatureValues_def Let_def rn nth_append)
  have st: "SignTx lib tx FrontierSigner prv = Some (Ok (TxbyData d))"
    by (simp add: SignTx_def Signer_Hash_eq [OF assms(5)] no_err_def sig WithSignature_def sv d_def TxbyData_def)
  have "Signer_Hash FrontierSigner (TxbyData d) = Signer_Hash FrontierSigner tx" by (simp add: Signer_Hash_def d_def TxbyData_def)
  then have "Signer_Sender lib FrontierSigner (TxbyData d) = Some (if v < 2 then Ok (drop 12 (keccak (pub ?sk))) else Err ErrInvalidSig)"
    using recoverPlain_signature [OF rs h rec] by (simp add: Signer_Sender_def Signer_Hash_eq [OF assms(5)] no_err_def) (simp add: TxbyData_def d_def)
  moreover have "v < 2 \<longleftrightarrow> unat v < 2" "unat v < 4" using rs(5) by (simp_all add: word_less_nat_alt)
  moreover have "data (TxbyData d) = (data tx)\<lparr>sigV := int (unat v) + 27, sigR := sigR (data (TxbyData d)), sigS := sigS (data (TxbyData d))\<rparr>"
    by (simp add: TxbyData_def d_def)
  ultimately show ?thesis using st by (intro exI [of _ "TxbyData d"] exI [of _ "unat v"]) simp
qed

definition toy_lib :: libsecp256k1 where
  "toy_lib = no_lib\<lparr>ec_seckey_verify := (\<lambda>sk. 0 < nat_of_be sk \<and> int (nat_of_be sk) < secp256k1_N),
    ecdsa_sign_recoverable := (\<lambda>msg sk. Some (sk @ be_fixed 32 1, 0)),
    ecdsa_recover_pubkey := (\<lambda>sig msg. Some (4 # take 32 sig @ take 32 sig))\<rparr>"

lemma toy_lib_ok: "ecdsa_ok toy_lib (\<lambda>sk. sk @ sk)"
  unfolding ecdsa_ok_def
proof (intro allI impI, elim conjE)
  fix msg sk :: bytes assume l: "length sk = 32" and v: "ec_seckey_verify toy_lib sk"
  have "be_fixed 32 (nat_of_be sk) = sk" using be_fixed_nat_of_be [of sk] l by simp
  then show "\<exists>r s v. ecdsa_sign_recoverable toy_lib msg sk = Some (be_fixed 32 r @ be_fixed 32 s, v) \<and>
      0 < r \<and> int r < secp256k1_N \<and> 0 < s \<and> int s < secp256k1_N \<and> v < 4 \<and>
      ecdsa_recover_pubkey toy_lib (be_fixed 32 r @ be_fixed 32 s @ [v]) msg = Some (4 # sk @ sk)"
    using l v by (intro exI [of _ "nat_of_be sk"] exI [of _ 1] exI [of _ 0]) (simp add: toy_lib_def secp256k1_N_def)
qed

lemma SignTx_Sender_witness:
  "\<exists>tx'. SignTx toy_lib sample_tx FrontierSigner \<lparr>keyD = 7, keyPub = \<lparr>pubX = Some 0, pubY = Some 0\<rparr>\<rparr> = Some (Ok tx') \<and>
    Signer_Sender toy_lib FrontierSigner tx' \<in>
      {Some (Ok (drop 12 (keccak (be_fixed 32 7 @ be_fixed 32 7)))), Some (Err ErrInvalidSig)}"
proof -
  have "ec_seckey_verify toy_lib (be_fixed 32 (nat 7))" by (simp add: toy_lib_def nat_of_be_fixed secp256k1_N_def)
  then show ?thesis
    using SignTx_Sender [OF toy_lib_ok _ _ _ sample_tx_wf, of "\<lparr>keyD = 7, keyPub = \<lparr>pubX = Some 0, pubY = Some 0\<rparr>\<rparr>"] by fastforce
qed

section \<open>Negative integers\<close>

text \<open>
  \<open>rlpHash\<close> ignores that a negative integer cannot be encoded, so that all transactions with a negative cost have the same hash.
\<close>

lemma Tx_Hash_negative: "txCost (data tx) < 0 \<Longrightarrow> hash_cache tx = None \<Longrightarrow> \<exists>tx'. Tx_Hash tx = Some (Ok (keccak [], tx'))"
proof -
  assume "txCost (data tx) < 0" "hash_cache tx = None"
  moreover from this(1) have "rlp_top Tx_type (Tx_val tx) = Err ErrNegativeBigInt"
    using genTypeInfo_decodable(1) [OF Txstruct_decodable]
    by (simp add: Tx_type_def Tx_val_def Txstruct_type_def Txstruct_val_def rlp_top.simps rlp_of.simps genTypeInfo.simps structFields_def tag_eval rlp_big_def)
  ultimately show ?thesis by (simp add: Tx_Hash_def rlpHash_Err)
qed

end
