(* ===== verification/Blocks.thy ===== *)
theory Blocks
  imports TransactionSpec
begin

text \<open>
  Blocks and the hash of a list of transactions: \<open>chain/space/protocol/block.go\<close> and \<open>derive_sha.go\<close>. The pointers to integers of a header may be
  \<open>nil\<close> (\<open>None\<close>); a slice that is copied is the list. The hash function of the trie is a parameter, as in the other
  theories of the trie; the hash of a header is the modelled Keccak-256. The trie of \<open>DeriveSha\<close> has no database.
\<close>

section \<open>The hash of a list\<close>

function DeriveSha_loop :: "nat \<Rightarrow> (nat \<Rightarrow> (unit, bytes) outcome) \<Rightarrow> nat \<Rightarrow> Trie \<Rightarrow> (trie_error, Trie) run" where
  "DeriveSha_loop len getRlp i trie =
    (if i < len then
       case Encode buffer_Write [] (TUint 64) (VUint (of_nat i)) of
         (keybuf, Panic) \<Rightarrow> Some Panic
       | (keybuf, _) \<Rightarrow>
           (case getRlp i of
              Ok b \<Rightarrow> rbind (Trie_Update None keybuf b trie) (\<lambda>trie. DeriveSha_loop len getRlp (i + 1) trie)
            | _ \<Rightarrow> Some Panic)
     else Some (Ok trie))"
  by pat_completeness auto
termination by (relation "measure (\<lambda>(len, _, i, _). len - i)") auto

declare DeriveSha_loop.simps [simp del]

definition DeriveSha :: "(bytes \<Rightarrow> bytes) \<Rightarrow> nat \<Rightarrow> (nat \<Rightarrow> (unit, bytes) outcome) \<Rightarrow> (trie_error, bytes) run" where
  "DeriveSha K len getRlp =
    (let trie = \<lparr>root = NilN, originalRoot = replicate 32 0, cachegen = 0, cachelimit = 0\<rparr>
     in rbind (DeriveSha_loop len getRlp 0 trie) (\<lambda>trie.
        case Trie_Hash K trie of Ok (h, _) \<Rightarrow> Some (Ok h) | _ \<Rightarrow> Some Panic))"

definition EmptyRootHash :: "(bytes \<Rightarrow> bytes) \<Rightarrow> (trie_error, bytes) run" where
  "EmptyRootHash K = DeriveSha K 0 (Txs_GetRlp [])"

section \<open>Headers\<close>

record Header =
  UncleHash :: bytes
  hdNumber :: "int option"
  IdIndex :: "int option"
  hdWalletID :: u64
  GroupID :: "32 word"
  Timestamp :: "int option"
  GasUsed :: "int option"
  Version :: bytes
  Percent :: bytes
  PK :: bytes
  Sign :: bytes
  LiquidationHash :: bytes
  ExtraIndex :: bytes
  SpaceRoot :: bytes
  AccRoot :: bytes
  GroupRoot :: bytes
  CoinRoot :: bytes
  TxHash :: bytes
  ConsensusGroupHash :: bytes
  ExtraHash :: bytes

definition ModuleSize :: nat where "ModuleSize = 4"

abbreviation hash_type :: rtype where "hash_type \<equiv> TArray 32 (TUint 8)"

abbreviation slice_type :: rtype where "slice_type \<equiv> TSlice (TUint 8)"

definition Header_type :: rtype where
  "Header_type = TStruct
    [Field ''UncleHash'' True [] hash_type, Field ''Number'' True [] TBigPtr, Field ''IdIndex'' True [] TBigPtr,
     Field ''WalletID'' True [] (TUint 64), Field ''GroupID'' True [] (TUint 32), Field ''Timestamp'' True [] TBigPtr,
     Field ''GasUsed'' True [] TBigPtr, Field ''Version'' True [] slice_type, Field ''Percent'' True [] slice_type,
     Field ''PK'' True [] slice_type, Field ''Sign'' True [] slice_type, Field ''LiquidationHash'' True [] slice_type,
     Field ''ExtraIndex'' True [] (TArray ModuleSize (TUint 8)), Field ''SpaceRoot'' True [] hash_type,
     Field ''AccRoot'' True [] hash_type, Field ''GroupRoot'' True [] hash_type, Field ''CoinRoot'' True [] hash_type,
     Field ''TxHash'' True [] hash_type, Field ''ConsensusGroupHash'' True [] hash_type, Field ''ExtraHash'' True [] hash_type]"

definition bigptr_val :: "int option \<Rightarrow> rval" where
  "bigptr_val p = (case p of None \<Rightarrow> VNil | Some i \<Rightarrow> VBig i)"

definition Header_val :: "Header \<Rightarrow> rval" where
  "Header_val h = VStruct
    [VBytes (UncleHash h), bigptr_val (hdNumber h), bigptr_val (IdIndex h), VUint (hdWalletID h), VUint (ucast (GroupID h)),
     bigptr_val (Timestamp h), bigptr_val (GasUsed h), VBytes (Version h), VBytes (Percent h), VBytes (PK h), VBytes (Sign h),
     VBytes (LiquidationHash h), VBytes (ExtraIndex h), VBytes (SpaceRoot h), VBytes (AccRoot h), VBytes (GroupRoot h),
     VBytes (CoinRoot h), VBytes (TxHash h), VBytes (ConsensusGroupHash h), VBytes (ExtraHash h)]"

definition CopyHeader :: "Header \<Rightarrow> Header" where
  "CopyHeader h =
    h\<lparr>Timestamp := (case Timestamp h of None \<Rightarrow> Some 0 | t \<Rightarrow> t), hdNumber := (case hdNumber h of None \<Rightarrow> Some 0 | n \<Rightarrow> n),
      IdIndex := (case IdIndex h of None \<Rightarrow> Some 0 | i \<Rightarrow> i), GasUsed := (case GasUsed h of None \<Rightarrow> Some 0 | g \<Rightarrow> g)\<rparr>"

definition Header_Hash :: "Header \<Rightarrow> (unit, bytes) run" where
  "Header_Hash h = rlpHash (TPtr Header_type) (VPtr (Header_val h))"

definition HashNoSig :: "Header \<Rightarrow> (unit, bytes) run" where
  "HashNoSig h =
    (let H = (\<lambda>b. VIface hash_type (VBytes b)); B = (\<lambda>p. VIface TBigPtr (bigptr_val p)); S = (\<lambda>b. VIface slice_type (VBytes b))
     in rlpHash (TSlice (TIface False)) (VList
       [H (UncleHash h), B (hdNumber h), B (IdIndex h), VIface (TUint 32) (VUint (ucast (GroupID h))),
        VIface (TUint 64) (VUint (hdWalletID h)), B (Timestamp h), B (GasUsed h), S (Version h), S (Percent h), S (PK h),
        VIface (TArray ModuleSize (TUint 8)) (VBytes (ExtraIndex h)), H (SpaceRoot h), H (AccRoot h), H (GroupRoot h),
        H (CoinRoot h), H (TxHash h), H (ConsensusGroupHash h), H (ExtraHash h), S (LiquidationHash h)]))"

section \<open>Blocks\<close>

record Block_Body =
  Transactions :: "Tx list"
  ExtraData :: bytes

record Block =
  blockHeader :: Header
  blockBody :: "Block_Body option"

definition NewBlock :: "(bytes \<Rightarrow> bytes) \<Rightarrow> Header \<Rightarrow> Block_Body option \<Rightarrow> (trie_error, Block) run" where
  "NewBlock K hdr body =
    (let h = CopyHeader hdr
     in case body of
          None \<Rightarrow> rbind (EmptyRootHash K) (\<lambda>e.
            Some (Ok \<lparr>blockHeader = h\<lparr>TxHash := e, ExtraHash := replicate 32 0\<rparr>, blockBody = None\<rparr>))
        | Some body \<Rightarrow>
            let txs = Transactions body
            in rbind (if length txs > 0 then DeriveSha K (length txs) (Txs_GetRlp txs) else EmptyRootHash K) (\<lambda>e.
                 Some (Ok \<lparr>blockHeader = h\<lparr>TxHash := e\<rparr>,
                   blockBody = Some \<lparr>Transactions = (if length txs > 0 then txs else []), ExtraData = []\<rparr>\<rparr>)))"

definition NewBlockWithHeader :: "Header \<Rightarrow> Block" where
  "NewBlockWithHeader hdr = \<lparr>blockHeader = CopyHeader hdr, blockBody = None\<rparr>"

primrec find_transaction :: "bytes \<Rightarrow> Tx list \<Rightarrow> (unit, Tx option \<times> Tx list) run" where
  "find_transaction hash [] = Some (Ok (None, []))"
| "find_transaction hash (tx # txs) =
    rbind (Tx_Hash tx) (\<lambda>(h, tx).
      if h = hash then Some (Ok (Some tx, tx # txs))
      else rbind (find_transaction hash txs) (\<lambda>(r, txs). Some (Ok (r, tx # txs))))"

definition Block_Transaction :: "bytes \<Rightarrow> Block \<Rightarrow> (unit, Tx option \<times> Block) run" where
  "Block_Transaction hash b =
    (case blockBody b of
       None \<Rightarrow> Some Panic
     | Some body \<Rightarrow> rbind (find_transaction hash (Transactions body)) (\<lambda>(r, txs).
         Some (Ok (r, b\<lparr>blockBody := Some (body\<lparr>Transactions := txs\<rparr>)\<rparr>))))"

definition SetPK :: "bytes \<Rightarrow> Block \<Rightarrow> Block" where
  "SetPK pk b = (if length pk > 0 then b\<lparr>blockHeader := (blockHeader b)\<lparr>PK := pk\<rparr>\<rparr> else b)"

definition SetSigner :: "bytes \<Rightarrow> Block \<Rightarrow> Block" where
  "SetSigner sig b = (if length sig > 0 then b\<lparr>blockHeader := (blockHeader b)\<lparr>Sign := sig\<rparr>\<rparr> else b)"

definition WithBody :: "(bytes \<Rightarrow> bytes) \<Rightarrow> Block \<Rightarrow> Tx list \<Rightarrow> bytes \<Rightarrow> (trie_error, Block) run" where
  "WithBody K b txs extradata =
    rbind (if length txs > 0 then DeriveSha K (length txs) (Txs_GetRlp txs) else EmptyRootHash K) (\<lambda>e.
      Some (Ok \<lparr>blockHeader = (CopyHeader (blockHeader b))\<lparr>TxHash := e\<rparr>,
        blockBody = Some \<lparr>Transactions = (if length txs > 0 then txs else []),
          ExtraData = (if length extradata > 0 then extradata else [])\<rparr>\<rparr>))"

definition Block_Hash :: "Block \<Rightarrow> (unit, bytes) run" where
  "Block_Hash b = Header_Hash (blockHeader b)"

section \<open>A trie without a database\<close>

definition same_without_db :: "reader option \<Rightarrow> u16 \<Rightarrow> node \<Rightarrow> bytes \<Rightarrow> bytes \<Rightarrow> node \<Rightarrow> (trie_error, bool \<times> node) outcome \<Rightarrow> bool" where
  "same_without_db db gen n prefx key val y \<longleftrightarrow>
    (db = Some Map.empty \<longrightarrow> (\<forall>d n'. y = Ok (d, n') \<longrightarrow> trie_insert None gen n prefx key val = Some (Ok (d, n'))))"

lemma trie_insert_None:
  assumes "trie_insert (Some Map.empty) gen n prefx key val = Some (Ok r)"
  shows "trie_insert None gen n prefx key val = Some (Ok r)"
proof -
  have "same_without_db (Some Map.empty) gen n prefx key val (Ok r)"
    using assms
  proof (rule trie_insert.raw_induct [where P = same_without_db, rotated], goal_cases)
    case (1 f db gen n prefx key val y)
    have IH: "trie_insert None g m p k w = Some (Ok (d, n'))" if "db = Some Map.empty" "f db g m p k w = Some (Ok (d, n'))" for g m p k w d n'
      using 1(1) [OF that(2)] that(1) by (simp add: same_without_db_def)
    show ?case unfolding same_without_db_def
    proof (intro impI allI)
      fix d n' assume "db = Some Map.empty" "y = Ok (d, n')"
      then show "trie_insert None gen n prefx key val = Some (Ok (d, n'))"
        using 1(2) IH by (subst trie_insert.simps)
          (cases n; fastforce simp: rbind_Ok_iff Let_def resolveHash_def split: if_splits node.splits)
    qed
  qed
  then show ?thesis by (cases r) (simp add: same_without_db_def)
qed

lemma Trie_Update_None:
  assumes "Trie_repr Hf Map.empty T m" "v \<noteq> []"
  shows "\<exists>T'. Trie_Update None k v T = Some (Ok T') \<and> Trie_repr Hf Map.empty T' (m(k \<mapsto> v))"
proof -
  obtain T' where "TryUpdate (Some Map.empty) k v T = Some (Ok T')" "Trie_repr Hf Map.empty T' (m(k \<mapsto> v))"
    using TryUpdate_repr [OF assms(1), of k v] assms(2) by (auto simp: stored_bytes_def)
  then have "TryUpdate None k v T = Some (Ok T')"
    using assms(2) by (auto simp: TryUpdate_def rbind_Ok_iff dest!: trie_insert_None)
  then show ?thesis using \<open>Trie_repr Hf Map.empty T' _\<close> by (simp add: Trie_Update_def)
qed

section \<open>Encodings are injective\<close>

lemma enc_inj:
  assumes "decodable strict t" "length b < 2 ^ 64" "enc t no_tags v b" "enc t no_tags v' b"
  shows "v = v'"
proof -
  have "\<exists>s'. decoder t no_tags (byte_stream b) = (Ok x, s')" if "enc t no_tags x b" for x
    using acceptsD [OF goodD(1) [OF good_decoder(1) [OF assms(1) field_tags_no_tags]] byte_stream(1,2) [OF assms(2)] that, of "[]"]
      byte_stream [OF assms(2)] by auto
  from this [OF assms(3)] this [OF assms(4)] show ?thesis by auto
qed

lemma tx_enc_inj:
  assumes "tx_wf d" "tx_wf d'" "tx_enc d = tx_enc d'"
  shows "d = d'"
proof -
  have "Txstruct_val d = Txstruct_val d'"
    using enc_inj [OF Txstruct_decodable _ enc_Txstruct [OF assms(1)]] enc_Txstruct [OF assms(2)] assms by (simp add: tx_wf_def)
  then show ?thesis by (cases d; cases d') (auto simp: Txstruct_val_def split: option.splits)
qed

lemma length_rlp_nat: "i < 2 ^ 64 \<Longrightarrow> length (rlp_nat i) < 2 ^ 64"
  using length_big_Bytes_le [of i 8] by (simp add: rlp_str_def rlp_head_def)

lemma rlp_nat_inj:
  assumes "i < 2 ^ 64" "j < 2 ^ 64" "rlp_nat i = rlp_nat j"
  shows "i = j"
proof -
  have e: "enc (TUint 64) no_tags (VUint w) (rlp_nat (unat w))" for w :: u64
    using unat_u64_less [of w] by (simp add: enc_def rlp_of.simps)
  have "VUint (of_nat i) = VUint (of_nat j)"
    using e [of "of_nat i"] e [of "of_nat j"] assms length_rlp_nat [of j] by (intro enc_inj [of True "TUint 64" "rlp_nat i"]) (simp_all add: unat_of_nat)
  then have "(of_nat i :: u64) = of_nat j" by simp
  then have "unat (of_nat i :: u64) = unat (of_nat j :: u64)" by (rule arg_cong)
  then show ?thesis using assms by (simp add: unat_of_nat)
qed

section \<open>What \<open>DeriveSha\<close> commits to\<close>

primrec index_map :: "bytes list \<Rightarrow> nat \<Rightarrow> bytes \<rightharpoonup> bytes" where
  "index_map es 0 = Map.empty"
| "index_map es (Suc n) = (index_map es n)(rlp_nat n \<mapsto> es ! n)"

lemma index_map_lookup: "i < 2 ^ 64 \<Longrightarrow> n \<le> 2 ^ 64 \<Longrightarrow> index_map es n (rlp_nat i) = (if i < n then Some (es ! i) else None)"
proof (induction n)
  case (Suc n)
  then show ?case using rlp_nat_inj [of i n] by (auto simp: less_Suc_eq)
qed simp

lemma index_map_inj:
  assumes "length es < 2 ^ 64" "length es' < 2 ^ 64" "index_map es (length es) = index_map es' (length es')"
  shows "es = es'"
proof -
  have "(if i < length es then Some (es ! i) else None) = (if i < length es' then Some (es' ! i) else None)" if "i < 2 ^ 64" for i
    using that assms index_map_lookup [of i "length es" es] index_map_lookup [of i "length es'" es'] by simp
  note eq = this
  have "length es = length es'"
    using eq [of "length es"] eq [of "length es'"] assms(1,2) by (auto split: if_splits intro: linorder_cases [of "length es" "length es'"])
  moreover have "es ! i = es' ! i" if "i < length es" for i
    using eq [of i] that \<open>length es = length es'\<close> assms(1) by simp
  ultimately show ?thesis by (rule nth_equalityI)
qed

lemma index_key:
  assumes "i < 2 ^ 64"
  shows "Encode buffer_Write [] (TUint 64) (VUint (of_nat i)) = (rlp_nat i, Ok ())"
proof -
  have "rlp_top (TUint 64) (VUint (of_nat i)) = Ok (rlp_nat i)"
    using assms by (simp add: rlp_top.simps rlp_of.simps genTypeInfo.simps unat_of_nat)
  then show ?thesis using buffer.Encode_ok [OF _ length_rlp_nat [OF assms], of "TUint 64" "VUint (of_nat i)" "[]" "[]"] by simp
qed

lemma DeriveSha_loop_repr:
  assumes "\<And>i. i < length es \<Longrightarrow> getRlp i = Ok (es ! i)" "[] \<notin> set es" "length es < 2 ^ 64"
  shows "i \<le> length es \<Longrightarrow> Trie_repr Hf Map.empty T (index_map es i) \<Longrightarrow>
    \<exists>T'. DeriveSha_loop (length es) getRlp i T = Some (Ok T') \<and> Trie_repr Hf Map.empty T' (index_map es (length es))"
proof (induction "length es - i" arbitrary: i T)
  case 0
  then show ?case by (subst DeriveSha_loop.simps) simp
next
  case (Suc k)
  then have i: "i < length es" by simp
  then have "es ! i \<noteq> []" using assms(2) nth_mem by metis
  then obtain T' where T': "Trie_Update None (rlp_nat i) (es ! i) T = Some (Ok T')" "Trie_repr Hf Map.empty T' (index_map es (Suc i))"
    using Trie_Update_None [OF Suc.prems(2), of "es ! i" "rlp_nat i"] by auto
  then show ?case using Suc.hyps(1) [of "Suc i" T'] Suc.hyps(2) i assms(1) [OF i] assms(3)
    by (subst DeriveSha_loop.simps) (simp add: index_key)
qed

lemma DeriveSha_repr:
  assumes "\<And>i. i < length es \<Longrightarrow> getRlp i = Ok (es ! i)" "[] \<notin> set es" "length es < 2 ^ 64"
    and "sound_hash K S Map.empty" "encoded_in K S (index_map es (length es))"
  shows "\<exists>t. tree_map t (index_map es (length es)) \<and> DeriveSha K (length es) getRlp = Some (Ok (root_hash K t))"
proof -
  obtain T where T: "DeriveSha_loop (length es) getRlp 0 empty_trie = Some (Ok T)"
      "Trie_repr (cached_ok K Map.empty) Map.empty T (index_map es (length es))"
    using DeriveSha_loop_repr [OF assms(1-3), of 0 "cached_ok K Map.empty" empty_trie] empty_repr [of K Map.empty] by auto
  show ?thesis using Trie_Hash_repr [OF T(2) assms(4,5)] T(1) by (auto simp: DeriveSha_def Let_def empty_trie_def)
qed

lemma Txs_GetRlp_Ok:
  assumes "i < length txs" "tx_wf (data (txs ! i))"
  shows "Txs_GetRlp txs i = Ok (tx_enc (data (txs ! i)))"
proof -
  have "length (tx_enc (data (txs ! i))) < 2 ^ 64" using assms(2) by (simp add: tx_wf_def)
  then obtain w where "encbuf_encode Tx_type (Tx_val (txs ! i)) encbuf_reset = Ok w" "holds w (tx_enc (data (txs ! i)))"
    by (rule encbuf_encode_holds [OF rlp_top_Tx [OF assms(2)]])
  then show ?thesis using assms(1) by (simp add: Txs_GetRlp_def EncodeToBytes_def holds_def toBytes_render)
qed

abbreviation tx_encs :: "Tx list \<Rightarrow> bytes list" where
  "tx_encs txs \<equiv> map (\<lambda>tx. tx_enc (data tx)) txs"

definition txs_ok :: "(bytes \<Rightarrow> bytes) \<Rightarrow> bytes set \<Rightarrow> Tx list \<Rightarrow> bool" where
  "txs_ok K S txs \<longleftrightarrow> (\<forall>tx \<in> set txs. tx_wf (data tx)) \<and> length txs < 2 ^ 64 \<and> encoded_in K S (index_map (tx_encs txs) (length txs))"

lemma DeriveSha_txs:
  assumes "sound_hash K S Map.empty" "txs_ok K S txs"
  shows "\<exists>t. tree_map t (index_map (tx_encs txs) (length txs)) \<and> DeriveSha K (length txs) (Txs_GetRlp txs) = Some (Ok (root_hash K t))"
proof -
  have "[] \<noteq> tx_enc d" for d by (simp add: tx_enc_def rlp_list_def rlp_head_def)
  then have "[] \<notin> set (tx_encs txs)" by auto
  then show ?thesis using DeriveSha_repr [of "tx_encs txs" "Txs_GetRlp txs" K S] assms Txs_GetRlp_Ok [of _ txs] by (simp add: txs_ok_def)
qed

lemma tx_encs_inj:
  assumes "\<forall>tx \<in> set txs. tx_wf (data tx)" "\<forall>tx \<in> set txs'. tx_wf (data tx)" "tx_encs txs = tx_encs txs'"
  shows "map data txs = map data txs'"
  using assms by (induction txs txs' rule: list_induct2') (auto intro: tx_enc_inj)

lemma DeriveSha_both:
  assumes "sound_hash K S Map.empty" "txs_ok K S txs" "txs_ok K S txs'"
  shows "\<exists>h h'. DeriveSha K (length txs) (Txs_GetRlp txs) = Some (Ok h) \<and> DeriveSha K (length txs') (Txs_GetRlp txs') = Some (Ok h') \<and>
    length h = 32 \<and> (h = h' \<longleftrightarrow> map data txs = map data txs')"
proof -
  obtain t where t: "tree_map t (index_map (tx_encs txs) (length txs))" "DeriveSha K (length txs) (Txs_GetRlp txs) = Some (Ok (root_hash K t))"
    using DeriveSha_txs [OF assms(1,2)] by blast
  obtain u where u: "tree_map u (index_map (tx_encs txs') (length txs'))" "DeriveSha K (length txs') (Txs_GetRlp txs') = Some (Ok (root_hash K u))"
    using DeriveSha_txs [OF assms(1,3)] by blast
  have "root_hash K t = root_hash K u \<longleftrightarrow> index_map (tx_encs txs) (length txs) = index_map (tx_encs txs') (length txs')"
    using root_hash_inj [OF assms(1) _ _ t(1) u(1)] assms(2,3) by (simp add: txs_ok_def)
  also have "\<dots> \<longleftrightarrow> map data txs = map data txs'"
  proof
    assume "index_map (tx_encs txs) (length txs) = index_map (tx_encs txs') (length txs')"
    then have "tx_encs txs = tx_encs txs'" using index_map_inj [of "tx_encs txs" "tx_encs txs'"] assms(2,3) by (simp add: txs_ok_def)
    then show "map data txs = map data txs'" using assms(2,3) by (intro tx_encs_inj) (auto simp: txs_ok_def)
  next
    assume "map data txs = map data txs'"
    then have "tx_encs txs = tx_encs txs'" "length txs = length txs'" by (metis map_map comp_apply map_cong, metis length_map)
    then show "index_map (tx_encs txs) (length txs) = index_map (tx_encs txs') (length txs')" by simp
  qed
  finally show ?thesis using t(2) u(2) assms(1) by (auto simp: sound_hash_def length_root_hash)
qed

text \<open>
  C39. \<open>DeriveSha\<close> commits to a list of transactions: for lists of well-formed transactions it returns 32 bytes, although its trie has no database, and the bytes of
  two lists are the same exactly when the lists have the same transactions in the same order, as long as the hash function does not
  collide on the nodes of the two tries.
\<close>
theorem DeriveSha_iff:
  assumes "sound_hash K S Map.empty" "txs_ok K S txs" "txs_ok K S txs'"
  shows "\<exists>h h'. DeriveSha K (length txs) (Txs_GetRlp txs) = Some (Ok h) \<and> DeriveSha K (length txs') (Txs_GetRlp txs') = Some (Ok h') \<and>
    length h = 32 \<and> (h = h' \<longleftrightarrow> map data txs = map data txs')"
  using assms by (rule DeriveSha_both)

section \<open>What the hash of a block commits to\<close>

abbreviation bigptr_enc :: "int option \<Rightarrow> bytes" where
  "bigptr_enc p \<equiv> rlp_nat (case p of None \<Rightarrow> 0 | Some i \<Rightarrow> nat i)"

definition header_enc :: "Header \<Rightarrow> bytes" where
  "header_enc h = rlp_list (rlp_str (UncleHash h) @ bigptr_enc (hdNumber h) @ bigptr_enc (IdIndex h) @ rlp_nat (unat (hdWalletID h)) @
    rlp_nat (unat (GroupID h)) @ bigptr_enc (Timestamp h) @ bigptr_enc (GasUsed h) @ rlp_str (Version h) @ rlp_str (Percent h) @
    rlp_str (PK h) @ rlp_str (Sign h) @ rlp_str (LiquidationHash h) @ rlp_str (ExtraIndex h) @ rlp_str (SpaceRoot h) @ rlp_str (AccRoot h) @
    rlp_str (GroupRoot h) @ rlp_str (CoinRoot h) @ rlp_str (TxHash h) @ rlp_str (ConsensusGroupHash h) @ rlp_str (ExtraHash h))"

definition header_wf :: "Header \<Rightarrow> bool" where
  "header_wf h \<longleftrightarrow> (\<exists>n i t g. hdNumber h = Some (int n) \<and> IdIndex h = Some (int i) \<and> Timestamp h = Some (int t) \<and> GasUsed h = Some (int g)) \<and>
    length (ExtraIndex h) = ModuleSize \<and> length (UncleHash h) = 32 \<and> length (SpaceRoot h) = 32 \<and> length (AccRoot h) = 32 \<and>
    length (GroupRoot h) = 32 \<and> length (CoinRoot h) = 32 \<and> length (TxHash h) = 32 \<and> length (ConsensusGroupHash h) = 32 \<and>
    length (ExtraHash h) = 32 \<and> length (header_enc h) < 2 ^ 64"

lemma Header_decodable: "decodable False Header_type"
  by (simp add: Header_type_def ModuleSize_def tag_eval)

lemma unat_u32_less: "unat (g :: 32 word) < 4294967296"
  using unsigned_less [of g] by simp

lemma unat_ucast_32: "unat (ucast (g :: 32 word) :: u64) = unat g"
  using unat_u32_less [of g] by (simp add: unsigned_ucast_eq take_bit_nat_eq_self)

lemma ucast_32_inj: "(ucast (g :: 32 word) :: u64) = ucast g' \<longleftrightarrow> g = g'"
  using unat_ucast_32 [of g] unat_ucast_32 [of g'] by (metis word_eq_iff_unsigned)

lemma bigptr_val_inj: "bigptr_val p = bigptr_val q \<longleftrightarrow> p = q"
  by (auto simp: bigptr_val_def split: option.splits)

lemma enc_Header: "header_wf h \<Longrightarrow> enc Header_type no_tags (Header_val h) (header_enc h)"
  using unat_u64_less [of "hdWalletID h"] unat_u32_less [of "GroupID h"]
  by (auto simp: Header_type_def Header_val_def enc_def header_wf_def header_enc_def bigptr_val_def ModuleSize_def rlp_of.simps structFields_def
      tag_eval rlp_big_def isStructOrArray_def obytes_def unat_ucast_32)

lemma Header_val_inj: "Header_val h = Header_val h' \<Longrightarrow> h = h'"
  by (simp add: Header_val_def bigptr_val_inj ucast_32_inj)

lemma header_enc_inj:
  assumes "header_wf h" "header_wf h'" "header_enc h = header_enc h'"
  shows "h = h'"
  using enc_inj [OF Header_decodable _ enc_Header [OF assms(1)]] enc_Header [OF assms(2)] assms Header_val_inj by (simp add: header_wf_def)

lemma Header_Hash_eq:
  assumes "header_wf h"
  shows "Header_Hash h = Some (Ok (keccak (header_enc h)))"
proof -
  have "rlp_top (TPtr Header_type) (VPtr (Header_val h)) = Ok (header_enc h)"
    using enc_Header [OF assms] genTypeInfo_decodable(1) [OF Header_decodable] by (simp add: rlp_top.simps rlp_of.simps genTypeInfo.simps enc_def)
  then show ?thesis using assms unfolding Header_Hash_def by (intro rlpHash_Ok) (simp_all add: header_wf_def)
qed

lemma WithBody_TxHash:
  assumes "WithBody K b txs ex = Some (Ok c)"
  shows "DeriveSha K (length txs) (Txs_GetRlp txs) = Some (Ok (TxHash (blockHeader c)))"
proof (cases txs)
  case Nil
  then show ?thesis using assms by (auto simp: WithBody_def rbind_Ok_iff EmptyRootHash_def)
next
  case (Cons tx txs')
  then show ?thesis using assms by (auto simp: WithBody_def rbind_Ok_iff)
qed

lemma DeriveSha_inj:
  assumes "sound_hash K S Map.empty" "txs_ok K S txs" "txs_ok K S txs'"
    and "DeriveSha K (length txs) (Txs_GetRlp txs) = DeriveSha K (length txs') (Txs_GetRlp txs')"
  shows "map data txs = map data txs'"
  using DeriveSha_both [OF assms(1-3)] assms(4) by auto

text \<open>
  C40. The hash of a block commits to its header and its transactions: two blocks made by \<open>WithBody\<close> from well-formed transactions and with
  well-formed headers (those that can be encoded; \<open>rlpHash\<close> and \<open>GetRlp\<close> ignore the errors of encoding) that have the same \<open>Hash\<close> have the
  same header and the same transactions in the same order, as long as Keccak-256 does not collide on the two headers and the
  hash function of the trie not on the nodes of the two tries.
\<close>
theorem Block_Hash_commits:
  assumes "WithBody K b txs ex = Some (Ok c)" "WithBody K b' txs' ex' = Some (Ok c')" "Block_Hash c = Block_Hash c'"
    and "header_wf (blockHeader c)" "header_wf (blockHeader c')" "inj_on keccak {header_enc (blockHeader c), header_enc (blockHeader c')}"
    and "sound_hash K S Map.empty" "txs_ok K S txs" "txs_ok K S txs'"
  shows "blockHeader c = blockHeader c' \<and> map data txs = map data txs'"
proof -
  have "keccak (header_enc (blockHeader c)) = keccak (header_enc (blockHeader c'))"
    using assms(3) Header_Hash_eq [OF assms(4)] Header_Hash_eq [OF assms(5)] by (simp add: Block_Hash_def)
  then have "header_enc (blockHeader c) = header_enc (blockHeader c')" using assms(6) by (auto dest: inj_onD)
  then have h: "blockHeader c = blockHeader c'" using header_enc_inj assms(4,5) by blast
  then show ?thesis using DeriveSha_inj [OF assms(7-9)] WithBody_TxHash [OF assms(1)] WithBody_TxHash [OF assms(2)] by simp
qed

section \<open>Instances\<close>

definition one_leaf :: node where
  "one_leaf = ShortN [8, 0, 16] (ValueN (tx_enc (data sample_tx))) blank"

lemma tx_enc_sample: "tx_enc (data sample_tx) = 0xDC # 1 # 0x94 # replicate 20 0 @ [5, 7, 2, 0x80, 0x80, 0x80]"
  by (simp add: sample_tx_def NewRecharge_def newTx_def TxbyData_def tx_enc_def rlp_address_def AddressLength_def idtRecharge_def
      rlp_list_def rlp_str_def rlp_head_def big_Bytes.simps)

lemma keybytesToHex_80: "keybytesToHex [0x80] = [8, 0, 16]"
  by (simp add: keybytesToHex_def)

lemma content_one_leaf: "content one_leaf q = (if q = [8, 0, 16] then Some (tx_enc (data sample_tx)) else None)"
  unfolding one_leaf_def by (rule content_Short_cases) auto

lemma tree_map_one_leaf: "tree_map one_leaf [[0x80] \<mapsto> tx_enc (data sample_tx)]"
proof -
  have "wft one_leaf" by (simp add: one_leaf_def tkey_iff is_value_iff tx_enc_sample)
  moreover have "content one_leaf (keybytesToHex k) = ([[0x80] \<mapsto> tx_enc (data sample_tx)]) k" for k
    unfolding content_one_leaf keybytesToHex_80 [symmetric] by simp
  moreover have "q \<in> range keybytesToHex" if "content one_leaf q \<noteq> None" for q
    using that unfolding content_one_leaf keybytesToHex_80 [symmetric] by (auto split: if_splits)
  ultimately show ?thesis unfolding tree_map_def fun_eq_iff by simp
qed

lemma one_leaf_ok: "txs_ok pad_hash {tree_enc pad_hash one_leaf} [sample_tx]"
proof -
  have "encs pad_hash one_leaf = {tree_enc pad_hash one_leaf}" by (simp add: one_leaf_def)
  moreover have "compact [8, 0, 16] = [0x20, 0x80]" by code_simp
  then have "length (tree_enc pad_hash one_leaf) < 2 ^ 64"
    by (simp add: one_leaf_def tree_enc_def cref_simps rlp_list_def rlp_str_def rlp_head_def tx_enc_sample)
  ultimately have "fits pad_hash one_leaf \<and> encs pad_hash one_leaf \<subseteq> {tree_enc pad_hash one_leaf}" by (simp add: fits_def)
  then have "encoded_in pad_hash {tree_enc pad_hash one_leaf} [[0x80] \<mapsto> tx_enc (data sample_tx)]"
    unfolding encoded_in_def using tree_map_unique [OF _ tree_map_one_leaf] by metis
  moreover have "rlp_nat 0 = [0x80]" by (simp add: rlp_str_def rlp_head_def)
  ultimately show ?thesis using sample_tx_wf by (simp add: txs_ok_def)
qed

lemma no_txs_ok: "txs_ok K S []"
  by (simp add: txs_ok_def encoded_empty)

lemma DeriveSha_iff_witness:
  "\<exists>h h'. DeriveSha pad_hash 1 (Txs_GetRlp [sample_tx]) = Some (Ok h) \<and> DeriveSha pad_hash 0 (Txs_GetRlp []) = Some (Ok h') \<and> h \<noteq> h'"
  using DeriveSha_iff [OF sound_pad_hash one_leaf_ok no_txs_ok] by fastforce

definition sample_header :: Header where
  "sample_header = (let z = replicate 32 0 in \<lparr>UncleHash = z, hdNumber = None, IdIndex = Some 3, hdWalletID = 1, GroupID = 2, Timestamp = Some 9, GasUsed = None,
    Version = [1], Percent = [], PK = [], Sign = [], LiquidationHash = [], ExtraIndex = replicate 4 0, SpaceRoot = z, AccRoot = z, GroupRoot = z,
    CoinRoot = z, TxHash = z, ConsensusGroupHash = z, ExtraHash = z\<rparr>)"

lemma sample_header_wf:
  assumes "length h = 32"
  shows "header_wf ((CopyHeader sample_header)\<lparr>TxHash := h\<rparr>)"
proof -
  define x where "x = (CopyHeader sample_header)\<lparr>TxHash := h\<rparr>"
  have f: "hdNumber x = Some (int 0)" "IdIndex x = Some (int 3)" "Timestamp x = Some (int 9)" "GasUsed x = Some (int 0)"
    "hdWalletID x = 1" "GroupID x = 2" "Version x = [1]" "Percent x = []" "PK x = []" "Sign x = []" "LiquidationHash x = []"
    by (simp_all add: x_def sample_header_def CopyHeader_def Let_def)
  have l: "length (ExtraIndex x) = 4" "length (UncleHash x) = 32" "length (SpaceRoot x) = 32" "length (AccRoot x) = 32" "length (GroupRoot x) = 32"
    "length (CoinRoot x) = 32" "length (TxHash x) = 32" "length (ConsensusGroupHash x) = 32" "length (ExtraHash x) = 32"
    by (simp_all add: x_def sample_header_def CopyHeader_def Let_def assms)
  have str: "length (rlp_str b) = Suc (length b)" if "1 < length b" "length b < 56" for b
    using that by (simp add: rlp_str_def rlp_head_def)
  have nat: "length (rlp_nat n) = 1" if "n < 128" for n
    using that big_Bytes_small [of n] by (cases "n = 0") (simp_all add: rlp_str_def rlp_head_def word_less_nat_alt unat_of_nat)
  have small: "length (rlp_str []) = 1" "length (rlp_str [1]) = 1" by (simp_all add: rlp_str_def rlp_head_def)
  have head: "length (rlp_list c) < 2 ^ 64" if "length c < 2 ^ 16" for c
    using that length_big_Bytes_le [of "length c" 2] by (simp add: rlp_list_def rlp_head_def)
  have "length (header_enc x) < 2 ^ 64"
    unfolding header_enc_def by (rule head) (simp add: f l str nat small)
  then show ?thesis unfolding header_wf_def ModuleSize_def using f l by (fold x_def) blast
qed

lemma Block_Hash_commits_witness:
  "\<exists>c c'. WithBody pad_hash (NewBlockWithHeader sample_header) [sample_tx] [] = Some (Ok c) \<and>
    WithBody pad_hash (NewBlockWithHeader (sample_header\<lparr>hdNumber := Some 0\<rparr>)) [sample_tx] [1] = Some (Ok c') \<and>
    c \<noteq> c' \<and> blockHeader c = blockHeader c'"
proof -
  let ?b = "NewBlockWithHeader sample_header" and ?b' = "NewBlockWithHeader (sample_header\<lparr>hdNumber := Some 0\<rparr>)"
  obtain h where h: "DeriveSha pad_hash 1 (Txs_GetRlp [sample_tx]) = Some (Ok h)" "length h = 32"
    using DeriveSha_both [OF sound_pad_hash one_leaf_ok one_leaf_ok] by auto
  have eq: "CopyHeader (blockHeader ?b) = CopyHeader sample_header" "CopyHeader (blockHeader ?b') = CopyHeader sample_header"
    by (simp_all add: NewBlockWithHeader_def sample_header_def CopyHeader_def Let_def)
  define hdr where "hdr = (CopyHeader sample_header)\<lparr>TxHash := h\<rparr>"
  define c where "c = \<lparr>blockHeader = hdr, blockBody = Some \<lparr>Transactions = [sample_tx], ExtraData = []\<rparr>\<rparr>"
  define c' where "c' = \<lparr>blockHeader = hdr, blockBody = Some \<lparr>Transactions = [sample_tx], ExtraData = [1]\<rparr>\<rparr>"
  have c: "WithBody pad_hash ?b [sample_tx] [] = Some (Ok c)" "WithBody pad_hash ?b' [sample_tx] [1] = Some (Ok c')"
    unfolding WithBody_def eq c_def c'_def hdr_def using h(1) by simp_all
  have wf: "header_wf hdr" using sample_header_wf h(2) by (simp add: hdr_def)
  have "blockHeader c = blockHeader c'"
    using Block_Hash_commits [OF c _ _ _ _ sound_pad_hash one_leaf_ok one_leaf_ok] wf by (simp add: c_def c'_def Block_Hash_def)
  moreover have "c \<noteq> c'" by (simp add: c_def c'_def)
  ultimately show ?thesis using c by blast
qed

end
