(* ===== verification/SecureTrie.thy ===== *)
theory SecureTrie
  imports TrieCommit
begin

text \<open>
  The trie with hashed keys, \<open>chain/space/trie/secure_trie.go\<close>. The pointer \<open>secKeyCacheOwner\<close> matters only in
  whether it is the trie itself (\<open>owned\<close>). The order in which Go ranges over a map is the parameter
  \<open>range_map\<close>. The buffers for the hash and for the database key are overwritten before each use and are
  left out.
\<close>

section \<open>The code\<close>

record SecureTrie =
  strie :: Trie
  secKeyCache :: "bytes \<rightharpoonup> bytes"
  owned :: bool

definition secureKeyPrefix :: bytes where
  "secureKeyPrefix = [115, 101, 99, 117, 114, 101, 45, 107, 101, 121, 45]"

definition NewSecure :: "bytes \<Rightarrow> reader option \<Rightarrow> u16 \<Rightarrow> (trie_error, SecureTrie) outcome" where
  "NewSecure rt db limit =
    (if db = None then Panic
     else obind (New rt db) (\<lambda>trie. Ok \<lparr>strie = SetCacheLimit limit trie, secKeyCache = Map.empty, owned = False\<rparr>))"

definition hashKey :: "(bytes \<Rightarrow> bytes) \<Rightarrow> bytes \<Rightarrow> bytes" where
  "hashKey K key = K key"

definition secKey :: "bytes \<Rightarrow> bytes" where
  "secKey key = secureKeyPrefix @ key"

definition getSecKeyCache :: "SecureTrie \<Rightarrow> SecureTrie" where
  "getSecKeyCache t = (if owned t then t else t\<lparr>owned := True, secKeyCache := Map.empty\<rparr>)"

definition Secure_TryGet :: "(bytes \<Rightarrow> bytes) \<Rightarrow> reader option \<Rightarrow> bytes \<Rightarrow> SecureTrie \<Rightarrow> (trie_error, bytes option \<times> SecureTrie) run" where
  "Secure_TryGet K db key t =
    rbind (TryGet db (hashKey K key) (strie t)) (\<lambda>(v, trie). Some (Ok (v, t\<lparr>strie := trie\<rparr>)))"

definition Secure_Get :: "(bytes \<Rightarrow> bytes) \<Rightarrow> reader option \<Rightarrow> bytes \<Rightarrow> SecureTrie \<Rightarrow> (trie_error, bytes option \<times> SecureTrie) run" where
  "Secure_Get K db key t = (case Secure_TryGet K db key t of Some (Err e) \<Rightarrow> Some (Ok (None, t)) | r \<Rightarrow> r)"

definition Secure_TryUpdate :: "(bytes \<Rightarrow> bytes) \<Rightarrow> reader option \<Rightarrow> bytes \<Rightarrow> bytes \<Rightarrow> SecureTrie \<Rightarrow> (trie_error, SecureTrie) run" where
  "Secure_TryUpdate K db key val t =
    (let hk = hashKey K key
     in rbind (TryUpdate db hk val (strie t)) (\<lambda>trie.
        let t = getSecKeyCache (t\<lparr>strie := trie\<rparr>)
        in Some (Ok (t\<lparr>secKeyCache := (secKeyCache t)(hk \<mapsto> key)\<rparr>))))"

definition Secure_Update :: "(bytes \<Rightarrow> bytes) \<Rightarrow> reader option \<Rightarrow> bytes \<Rightarrow> bytes \<Rightarrow> SecureTrie \<Rightarrow> (trie_error, SecureTrie) run" where
  "Secure_Update K db key val t = (case Secure_TryUpdate K db key val t of Some (Err e) \<Rightarrow> Some (Ok t) | r \<Rightarrow> r)"

text \<open>The cached key is dropped even when the deletion fails.\<close>

definition drop_cached :: "bytes \<Rightarrow> SecureTrie \<Rightarrow> SecureTrie" where
  "drop_cached hk t = (let t = getSecKeyCache t in t\<lparr>secKeyCache := (secKeyCache t)(hk := None)\<rparr>)"

definition Secure_TryDelete :: "(bytes \<Rightarrow> bytes) \<Rightarrow> reader option \<Rightarrow> bytes \<Rightarrow> SecureTrie \<Rightarrow> (trie_error, SecureTrie) run" where
  "Secure_TryDelete K db key t =
    (let hk = hashKey K key; t = drop_cached hk t
     in rbind (TryDelete db hk (strie t)) (\<lambda>trie. Some (Ok (t\<lparr>strie := trie\<rparr>))))"

definition Secure_Delete :: "(bytes \<Rightarrow> bytes) \<Rightarrow> reader option \<Rightarrow> bytes \<Rightarrow> SecureTrie \<Rightarrow> (trie_error, SecureTrie) run" where
  "Secure_Delete K db key t =
    (case Secure_TryDelete K db key t of Some (Err e) \<Rightarrow> Some (Ok (drop_cached (hashKey K key) t)) | r \<Rightarrow> r)"

definition GetKey :: "reader \<Rightarrow> bytes \<Rightarrow> SecureTrie \<Rightarrow> bytes option \<times> SecureTrie" where
  "GetKey Get shaKey t =
    (let t = getSecKeyCache t
     in case secKeyCache t shaKey of Some key \<Rightarrow> (Some key, t) | None \<Rightarrow> (Get (secKey shaKey), t))"

fun put_keys :: "'d writer \<Rightarrow> (bytes \<times> bytes) list \<Rightarrow> 'd \<Rightarrow> 'd \<times> string option" where
  "put_keys put [] d = (d, None)"
| "put_keys put ((hk, key) # ks) d =
    (case put (secKey hk) key d of (d, None) \<Rightarrow> put_keys put ks d | (d, Some e) \<Rightarrow> (d, Some e))"

definition Secure_CommitTo :: "(bytes \<Rightarrow> bytes) \<Rightarrow> ((bytes \<rightharpoonup> bytes) \<Rightarrow> (bytes \<times> bytes) list) \<Rightarrow> 'd writer \<Rightarrow> SecureTrie \<Rightarrow> 'd \<Rightarrow>
    'd \<times> (string, bytes) outcome \<times> SecureTrie" where
  "Secure_CommitTo K range_map put t d =
    (let t = getSecKeyCache t
     in case (if secKeyCache t \<noteq> Map.empty then put_keys put (range_map (secKeyCache t)) d else (d, None)) of
          (d, Some e) \<Rightarrow> (d, Err e, t)
        | (d, None) \<Rightarrow>
            let t = t\<lparr>secKeyCache := Map.empty\<rparr>
            in case Trie_CommitTo K put (strie t) d of (d, r, trie) \<Rightarrow> (d, r, t\<lparr>strie := trie\<rparr>))"

definition Secure_Hash :: "(bytes \<Rightarrow> bytes) \<Rightarrow> SecureTrie \<Rightarrow> (string, bytes \<times> SecureTrie) outcome" where
  "Secure_Hash K t = obind (Trie_Hash K (strie t)) (\<lambda>(h, trie). Ok (h, t\<lparr>strie := trie\<rparr>))"

definition Secure_Root :: "(bytes \<Rightarrow> bytes) \<Rightarrow> SecureTrie \<Rightarrow> (string, bytes \<times> SecureTrie) outcome" where
  "Secure_Root K t = obind (Trie_Root K (strie t)) (\<lambda>(h, trie). Ok (h, t\<lparr>strie := trie\<rparr>))"

definition Secure_Copy :: "SecureTrie \<Rightarrow> SecureTrie" where
  "Secure_Copy t = t\<lparr>owned := False\<rparr>"

section \<open>The secure trie as a map\<close>

text \<open>
  The underlying trie stands for a map of hashed keys. \<open>S\<close> are the keys in use, on which the hash function does
  not collide; the cache and the database know their preimages: a cached key is stored under its hash.
\<close>

definition Secure_repr :: "(bytes \<Rightarrow> bytes) \<Rightarrow> bytes set \<Rightarrow> (bool \<Rightarrow> bytes option \<Rightarrow> bool \<Rightarrow> node \<Rightarrow> bool) \<Rightarrow> reader \<Rightarrow>
    SecureTrie \<Rightarrow> (bytes \<rightharpoonup> bytes) \<Rightarrow> bool" where
  "Secure_repr K S H Get t m \<longleftrightarrow> (\<exists>m'. Trie_repr H Get (strie t) m' \<and> (\<forall>k \<in> S. m k = m' (K k)) \<and>
     (\<forall>q. m' q \<noteq> None \<longrightarrow> q \<in> K ` S)) \<and> (owned t \<longrightarrow> (\<forall>h k. secKeyCache t h = Some k \<longrightarrow> h = K k))"

lemma Secure_reprI:
  "Trie_repr H Get (strie t) m' \<Longrightarrow> (\<And>k. k \<in> S \<Longrightarrow> m k = m' (K k)) \<Longrightarrow> (\<And>q. m' q \<noteq> None \<Longrightarrow> q \<in> K ` S) \<Longrightarrow>
    (\<And>h k. owned t \<Longrightarrow> secKeyCache t h = Some k \<Longrightarrow> h = K k) \<Longrightarrow> Secure_repr K S H Get t m"
  by (auto simp: Secure_repr_def)

lemma Secure_reprE:
  assumes "Secure_repr K S H Get t m"
  obtains m' where "Trie_repr H Get (strie t) m'" "\<And>k. k \<in> S \<Longrightarrow> m k = m' (K k)" "\<And>q. m' q \<noteq> None \<Longrightarrow> q \<in> K ` S"
    "\<And>h k. owned t \<Longrightarrow> secKeyCache t h = Some k \<Longrightarrow> h = K k"
  using assms unfolding Secure_repr_def by metis

lemma Secure_TryGet_repr:
  assumes "k \<in> S" "Secure_repr K S H Get t m"
  shows "\<exists>t'. Secure_TryGet K (Some Get) k t = Some (Ok (m k, t')) \<and> Secure_repr K S H Get t' m"
proof -
  obtain m' where m': "Trie_repr H Get (strie t) m'" "\<And>k. k \<in> S \<Longrightarrow> m k = m' (K k)" "\<And>q. m' q \<noteq> None \<Longrightarrow> q \<in> K ` S"
    "\<And>h k. owned t \<Longrightarrow> secKeyCache t h = Some k \<Longrightarrow> h = K k" using assms(2) by (rule Secure_reprE) (rule that)
  obtain T where T: "TryGet (Some Get) (K k) (strie t) = Some (Ok (m' (K k), T))" "Trie_repr H Get T m'" using TryGet_repr [OF m'(1)] by blast
  have "Secure_repr K S H Get (t\<lparr>strie := T\<rparr>) m" by (rule Secure_reprI [of H Get _ m']) (use T m' in auto)
  then show ?thesis using T assms(1) m'(2) by (simp add: Secure_TryGet_def hashKey_def)
qed

lemma Secure_TryUpdate_repr:
  assumes "inj_on K S" "k \<in> S" "Secure_repr K S H Get t m"
  shows "\<exists>t'. Secure_TryUpdate K (Some Get) k v t = Some (Ok t') \<and> Secure_repr K S H Get t' (m(k := stored_bytes v))"
proof -
  obtain m' where m': "Trie_repr H Get (strie t) m'" "\<And>k. k \<in> S \<Longrightarrow> m k = m' (K k)" "\<And>q. m' q \<noteq> None \<Longrightarrow> q \<in> K ` S"
    "\<And>h k. owned t \<Longrightarrow> secKeyCache t h = Some k \<Longrightarrow> h = K k" using assms(3) by (rule Secure_reprE) (rule that)
  obtain T where T: "TryUpdate (Some Get) (K k) v (strie t) = Some (Ok T)" "Trie_repr H Get T (m'(K k := stored_bytes v))"
    using TryUpdate_repr [OF m'(1)] by blast
  let ?t = "getSecKeyCache (t\<lparr>strie := T\<rparr>)"
  have "Secure_repr K S H Get (?t\<lparr>secKeyCache := (secKeyCache ?t)(K k \<mapsto> k)\<rparr>) (m(k := stored_bytes v))"
  proof (rule Secure_reprI [of H Get _ "m'(K k := stored_bytes v)"])
    show "q \<in> K ` S" if "(m'(K k := stored_bytes v)) q \<noteq> None" for q using that m'(3) assms(2) by (auto split: if_splits)
  qed (use T m' assms in \<open>auto simp: getSecKeyCache_def inj_on_eq_iff split: if_splits\<close>)
  then show ?thesis using T by (simp add: Secure_TryUpdate_def hashKey_def Let_def)
qed

lemma Secure_TryDelete_repr:
  assumes "inj_on K S" "k \<in> S" "Secure_repr K S H Get t m"
  shows "\<exists>t'. Secure_TryDelete K (Some Get) k t = Some (Ok t') \<and> Secure_repr K S H Get t' (m(k := None))"
proof -
  obtain m' where m': "Trie_repr H Get (strie t) m'" "\<And>k. k \<in> S \<Longrightarrow> m k = m' (K k)" "\<And>q. m' q \<noteq> None \<Longrightarrow> q \<in> K ` S"
    "\<And>h k. owned t \<Longrightarrow> secKeyCache t h = Some k \<Longrightarrow> h = K k" using assms(3) by (rule Secure_reprE) (rule that)
  obtain T where T: "TryDelete (Some Get) (K k) (strie t) = Some (Ok T)" "Trie_repr H Get T (m'(K k := None))"
    using TryDelete_repr [OF m'(1)] by blast
  have s: "strie (drop_cached (K k) t) = strie t" by (simp add: drop_cached_def getSecKeyCache_def)
  have "Secure_repr K S H Get ((drop_cached (K k) t)\<lparr>strie := T\<rparr>) (m(k := None))"
  proof (rule Secure_reprI [of H Get _ "m'(K k := None)"])
    show "q \<in> K ` S" if "(m'(K k := None)) q \<noteq> None" for q using that m'(3) by (auto split: if_splits)
  qed (use T m' assms in \<open>auto simp: drop_cached_def getSecKeyCache_def inj_on_eq_iff Let_def split: if_splits\<close>)
  then show ?thesis using T s by (simp add: Secure_TryDelete_def hashKey_def Let_def)
qed

text \<open>The keys for which the contract holds: those in use, if they do not collide.\<close>

definition usable :: "(bytes \<Rightarrow> bytes) \<Rightarrow> bytes set \<Rightarrow> bytes set" where
  "usable K S = (if inj_on K S then S else {})"

interpretation secure: kv_map "usable K S" "Secure_repr K S H Get" "Secure_TryGet K (Some Get)" "Secure_TryUpdate K (Some Get)"
    "Secure_TryDelete K (Some Get)" stored_bytes
  for K S H Get
  by unfold_locales (auto simp: usable_def intro: Secure_TryGet_repr Secure_TryUpdate_repr Secure_TryDelete_repr split: if_splits)

text \<open>
  C7. The secure trie refines the map of the original keys: as long as the hash function does not collide on
  the keys in use, every sequence of lookups, updates and deletions returns without error and behaves
  as on a finite map, although the trie is keyed by hashes.
\<close>
theorem Secure_ops_refine:
  assumes "inj_on K S" "op_key ` set ops \<subseteq> S" "Secure_repr K S H Get t m"
  shows "\<exists>t'. exec_ops (Secure_TryGet K (Some Get)) (Secure_TryUpdate K (Some Get)) (Secure_TryDelete K (Some Get)) ops t =
      Some (Ok (fst (spec_ops stored_bytes ops m), t')) \<and>
    Secure_repr K S H Get t' (snd (spec_ops stored_bytes ops m))"
  using assms by (intro secure.exec_repr) (simp_all add: usable_def)

lemma NewSecure_empty: "\<exists>t. NewSecure (replicate 32 0) (Some Get) l = Ok t \<and> Secure_repr K S H Get t Map.empty"
proof -
  obtain T where T: "New (replicate 32 0) (Some Get) = Ok T" by (simp add: New_def)
  have "Trie_repr H Get (SetCacheLimit l T) Map.empty" using New_empty [OF T, of H] by (simp add: Trie_repr_def SetCacheLimit_def)
  then have "Secure_repr K S H Get \<lparr>strie = SetCacheLimit l T, secKeyCache = Map.empty, owned = False\<rparr> Map.empty"
    by (intro Secure_reprI) auto
  then show ?thesis using T by (auto simp: NewSecure_def)
qed

lemma Secure_ops_refine_witness:
  "\<exists>t t'. NewSecure (replicate 32 0) (Some Map.empty) 0 = Ok t \<and>
    exec_ops (Secure_TryGet rev (Some Map.empty)) (Secure_TryUpdate rev (Some Map.empty)) (Secure_TryDelete rev (Some Map.empty))
      [Put [1, 2] [7], Put [2, 1] [8], Look [1, 2], Del [1, 2], Look [1, 2], Look [2, 1]] t =
      Some (Ok ([Some [7], None, Some [8]], t'))"
proof -
  obtain t where t: "NewSecure (replicate 32 0) (Some Map.empty) 0 = Ok t" "Secure_repr rev UNIV (\<lambda>_ _ _ _. True) Map.empty t Map.empty"
    using NewSecure_empty by blast
  have "inj_on rev UNIV" by simp
  from Secure_ops_refine [OF this subset_UNIV t(2), of "[Put [1, 2] [7], Put [2, 1] [8], Look [1, 2], Del [1, 2], Look [1, 2], Look [2, 1]]"]
  show ?thesis using t(1) by (auto simp: stored_bytes_def)
qed

section \<open>Preimages\<close>

lemma put_keys_puts:
  "puts_ok get put \<Longrightarrow> distinct (map fst ks) \<Longrightarrow> \<exists>d'. put_keys put ks d = (d', None) \<and>
    (\<forall>h k. (h, k) \<in> set ks \<longrightarrow> get d' (secKey h) = Some k) \<and> (\<forall>q. q \<notin> (\<lambda>p. secKey (fst p)) ` set ks \<longrightarrow> get d' q = get d q)"
proof (induction ks arbitrary: d)
  case (Cons p ks)
  obtain h k where p: "p = (h, k)" by fastforce
  obtain d1 where d1: "put (secKey h) k d = (d1, None)" "get d1 = (get d)(secKey h \<mapsto> k)"
    using Cons.prems(1) unfolding puts_ok_def by blast
  obtain d2 where d2: "put_keys put ks d1 = (d2, None)" "\<forall>h k. (h, k) \<in> set ks \<longrightarrow> get d2 (secKey h) = Some k"
      "\<forall>q. q \<notin> (\<lambda>p. secKey (fst p)) ` set ks \<longrightarrow> get d2 q = get d1 q"
    using Cons.IH [OF Cons.prems(1), of d1] Cons.prems(2) by auto
  have "secKey h \<notin> (\<lambda>p. secKey (fst p)) ` set ks" using Cons.prems(2) p by (auto simp: secKey_def image_iff)
  then have "get d2 (secKey h) = Some k" using d2(3) d1(2) by simp
  then show ?case using p d1 d2 by auto
qed simp

text \<open>
  C23. The preimage of a key can be found again: after an update \<open>GetKey\<close> gives the key for its hash from the
  cache, and \<open>CommitTo\<close>, in whatever order it ranges over the cache, writes it to the database before the
  trie is written.
\<close>
theorem GetKey_after_Update:
  assumes "Secure_TryUpdate K db k v t = Some (Ok t')" "puts_ok get put"
    and "distinct (map fst (range_map (secKeyCache t')))" "map_of (range_map (secKeyCache t')) = secKeyCache t'"
  shows "fst (GetKey Get (K k) t') = Some k \<and> (\<exists>d1. put_keys put (range_map (secKeyCache t')) d = (d1, None) \<and>
    get d1 (secKey (K k)) = Some k \<and>
    Secure_CommitTo K range_map put t' d =
      (case Trie_CommitTo K put (strie t') d1 of (d2, r, trie) \<Rightarrow> (d2, r, t'\<lparr>secKeyCache := Map.empty, strie := trie\<rparr>)))"
proof -
  have t': "owned t'" "secKeyCache t' (K k) = Some k" using assms(1)
    by (cases "TryUpdate db (K k) v (strie t)"; cases "the (TryUpdate db (K k) v (strie t))";
      force simp: Secure_TryUpdate_def hashKey_def Let_def getSecKeyCache_def)+
  have "(K k, k) \<in> set (range_map (secKeyCache t'))" using t'(2) assms(4) map_of_SomeD by metis
  then obtain d1 where d1: "put_keys put (range_map (secKeyCache t')) d = (d1, None)" "get d1 (secKey (K k)) = Some k"
    using put_keys_puts [OF assms(2,3), of d] by blast
  moreover have "secKeyCache t' \<noteq> Map.empty" using t'(2) by auto
  ultimately show ?thesis using t'
    by (auto simp: GetKey_def getSecKeyCache_def Secure_CommitTo_def Let_def split: prod.splits)
qed

lemma GetKey_after_Update_witness:
  "\<exists>t'. Secure_TryUpdate rev (Some Map.empty) [1, 2] [7] \<lparr>strie = empty_trie, secKeyCache = Map.empty, owned = False\<rparr> = Some (Ok t') \<and>
    fst (GetKey Map.empty [2, 1] t') = Some [1, 2] \<and>
    (\<exists>d1. put_keys put_map [([2, 1], [1, 2])] Map.empty = (d1, None) \<and> d1 (secKey [2, 1]) = Some [1, 2])"
proof -
  let ?t = "\<lparr>strie = empty_trie, secKeyCache = Map.empty, owned = False\<rparr>"
  obtain T where "TryUpdate (Some Map.empty) [2, 1] [7] empty_trie = Some (Ok T)"
    using TryUpdate_repr [OF empty_repr [of id Map.empty], of "[2, 1]" "[7]"] by blast
  then obtain t' where t': "Secure_TryUpdate rev (Some Map.empty) [1, 2] [7] ?t = Some (Ok t')" "secKeyCache t' = [[2, 1] \<mapsto> [1, 2]]"
    by (simp add: Secure_TryUpdate_def hashKey_def getSecKeyCache_def)
  have p: "puts_ok (\<lambda>d. d) put_map" by (simp add: puts_ok_def put_map_def)
  show ?thesis using GetKey_after_Update [OF t'(1) p, of "\<lambda>_. [([2, 1], [1, 2])]" Map.empty Map.empty] t' by auto
qed

end
