(* ===== verification/StateDB.thy ===== *)
theory StateDB
  imports SecureTrie RlpRoundtrip
begin

text \<open>
  The state of accounts and spaces, \<open>chain/space/state\<close>. A cached object is found under its address (or the low 64 bits of its id), and
  an operation on a pointer to it replaces the entry of the cache. The callback \<open>onDirty\<close>, which the source sets to \<open>nil\<close> after the first
  call, is the flag \<open>ao_onDirty\<close>; an operation on an object returns whether it called it. The order in which Go ranges over a map is
  a parameter (\<open>ranges\<close> for the attributes of an account, \<open>order\<close> for the dirty objects). The database and the hash function are parameters,
  as in the tries. An operation returns the error of the source as a value.
\<close>

section \<open>Accounts\<close>

record Account =
  BindSpaceId :: int
  acc_Balance :: int
  WalletID :: u64
  CodeHash :: bytes
  Accountkey :: "bytes list"
  AccountValue :: "bytes list"

record accountObject =
  ao_address :: bytes
  ao_data :: Account
  accountAttribute :: "bytes \<rightharpoonup> bytes"
  ao_onDirty :: bool

definition newAccountObject :: "bytes \<Rightarrow> Account \<Rightarrow> accountObject" where
  "newAccountObject address acc =
    \<lparr>ao_address = address, ao_data = acc,
     accountAttribute = fold (\<lambda>(k, v) m. m(k \<mapsto> v)) (zip (Accountkey acc) (AccountValue acc)) Map.empty, ao_onDirty = True\<rparr>"

definition Account_type :: rtype where
  "Account_type = TStruct
    [Field ''BindSpaceId'' True [] TBigPtr, Field ''Balance'' True [] TBigPtr, Field ''WalletID'' True [] (TUint 64),
     Field ''CodeHash'' True [] (TSlice (TUint 8)), Field ''Accountkey'' True [] (TSlice TString),
     Field ''AccountValue'' True [] (TSlice TString)]"

definition Account_val :: "Account \<Rightarrow> rval" where
  "Account_val a = VStruct
    [VBig (BindSpaceId a), VBig (acc_Balance a), VUint (WalletID a), VBytes (CodeHash a), VList (map VBytes (Accountkey a)),
     VList (map VBytes (AccountValue a))]"

definition val_big :: "rval \<Rightarrow> int" where
  "val_big v = (case v of VBig i \<Rightarrow> i | _ \<Rightarrow> 0)"

definition val_bytes :: "rval \<Rightarrow> bytes" where
  "val_bytes v = (case v of VBytes b \<Rightarrow> b | _ \<Rightarrow> [])"

definition val_uint :: "rval \<Rightarrow> u64" where
  "val_uint v = (case v of VUint i \<Rightarrow> i | _ \<Rightarrow> 0)"

definition val_list :: "rval \<Rightarrow> bytes list" where
  "val_list v = (case v of VList vs \<Rightarrow> map val_bytes vs | _ \<Rightarrow> [])"

definition Account_of :: "rval \<Rightarrow> Account" where
  "Account_of v = (let vs = (case v of VStruct vs \<Rightarrow> vs | _ \<Rightarrow> []) in
    \<lparr>BindSpaceId = val_big (vs ! 0), acc_Balance = val_big (vs ! 1), WalletID = val_uint (vs ! 2), CodeHash = val_bytes (vs ! 3),
     Accountkey = val_list (vs ! 4), AccountValue = val_list (vs ! 5)\<rparr>)"

text \<open>\<open>EncodeRLP\<close> first writes the attributes into the two lists of the data, in the order of ranging over the map.\<close>

definition collect_attributes :: "((bytes \<rightharpoonup> bytes) \<Rightarrow> bytes list) \<Rightarrow> accountObject \<Rightarrow> accountObject" where
  "collect_attributes ranges self =
    (let ks = ranges (accountAttribute self)
     in self\<lparr>ao_data := (ao_data self)\<lparr>Accountkey := ks, AccountValue := map (\<lambda>k. the (accountAttribute self k)) ks\<rparr>\<rparr>)"

definition account_EncodeRLP :: "((bytes \<rightharpoonup> bytes) \<Rightarrow> bytes list) \<Rightarrow> 's Write \<Rightarrow> 's \<Rightarrow> accountObject \<Rightarrow>
    ('s \<times> (rlp_error, unit) outcome) \<times> accountObject" where
  "account_EncodeRLP ranges w out self =
    (let self = collect_attributes ranges self in (Encode w out Account_type (Account_val (ao_data self)), self))"

definition account_empty :: "accountObject \<Rightarrow> bool" where
  "account_empty self \<longleftrightarrow>
    sgn (BindSpaceId (ao_data self)) = 0 \<and> accountAttribute self = Map.empty \<and> sgn (acc_Balance (ao_data self)) = 0"

definition account_mark :: "accountObject \<Rightarrow> accountObject \<times> bool" where
  "account_mark self = (if ao_onDirty self then (self\<lparr>ao_onDirty := False\<rparr>, True) else (self, False))"

definition setBalance_gas :: "int \<Rightarrow> accountObject \<Rightarrow> accountObject \<times> bool" where
  "setBalance_gas amount self = account_mark (self\<lparr>ao_data := (ao_data self)\<lparr>acc_Balance := amount\<rparr>\<rparr>)"

definition SetBalance_gas :: "int \<Rightarrow> accountObject \<Rightarrow> accountObject \<times> bool" where
  "SetBalance_gas amount self = setBalance_gas amount self"

definition AddBalance_gas :: "int \<Rightarrow> accountObject \<Rightarrow> accountObject \<times> bool" where
  "AddBalance_gas amount self =
    (if sgn amount = 0 then if account_empty self then (self, False) else (self, False)
     else SetBalance_gas (acc_Balance (ao_data self) + amount) self)"

definition SubBalance_gas :: "int \<Rightarrow> accountObject \<Rightarrow> accountObject \<times> bool" where
  "SubBalance_gas amount self =
    (if sgn amount = 0 then (self, False) else SetBalance_gas (acc_Balance (ao_data self) - amount) self)"

definition SetSpaceID :: "int \<Rightarrow> accountObject \<Rightarrow> accountObject \<times> bool" where
  "SetSpaceID spid self = account_mark (self\<lparr>ao_data := (ao_data self)\<lparr>BindSpaceId := spid\<rparr>\<rparr>)"

definition obj_GetAttribute :: "accountObject \<Rightarrow> bytes \<Rightarrow> bytes" where
  "obj_GetAttribute self key = (case accountAttribute self key of Some s \<Rightarrow> s | None \<Rightarrow> [])"

definition obj_SetAttribute :: "bytes \<Rightarrow> bytes \<Rightarrow> accountObject \<Rightarrow> accountObject \<times> bool" where
  "obj_SetAttribute key val self = account_mark (self\<lparr>accountAttribute := (accountAttribute self)(key \<mapsto> val)\<rparr>)"

definition obj_DelAttribute :: "bytes \<Rightarrow> accountObject \<Rightarrow> accountObject \<times> bool" where
  "obj_DelAttribute key self = account_mark (self\<lparr>accountAttribute := (accountAttribute self)(key := None)\<rparr>)"

section \<open>Spaces\<close>

record Space =
  sp_Nonce :: u64
  sp_Balance :: int
  sp_BindAddr :: "bytes list"

record spaceObject =
  so_id :: int
  so_data :: Space
  so_onDirty :: bool

definition newSpaceObject :: "int \<Rightarrow> Space \<Rightarrow> spaceObject" where
  "newSpaceObject spid space = \<lparr>so_id = spid, so_data = space, so_onDirty = True\<rparr>"

definition Space_type :: rtype where
  "Space_type = TStruct
    [Field ''Nonce'' True [] (TUint 64), Field ''Balance'' True [] TBigPtr, Field ''BindAddr'' True [] (TSlice (TArray 20 (TUint 8)))]"

definition Space_val :: "Space \<Rightarrow> rval" where
  "Space_val s = VStruct [VUint (sp_Nonce s), VBig (sp_Balance s), VList (map VBytes (sp_BindAddr s))]"

definition Space_of :: "rval \<Rightarrow> Space" where
  "Space_of v = (let vs = (case v of VStruct vs \<Rightarrow> vs | _ \<Rightarrow> []) in
    \<lparr>sp_Nonce = val_uint (vs ! 0), sp_Balance = val_big (vs ! 1), sp_BindAddr = val_list (vs ! 2)\<rparr>)"

definition space_EncodeRLP :: "'s Write \<Rightarrow> 's \<Rightarrow> spaceObject \<Rightarrow> 's \<times> (rlp_error, unit) outcome" where
  "space_EncodeRLP w out c = Encode w out Space_type (Space_val (so_data c))"

definition space_empty :: "spaceObject \<Rightarrow> bool" where
  "space_empty s \<longleftrightarrow> sp_Nonce (so_data s) = 0 \<and> sgn (sp_Balance (so_data s)) = 0 \<and> length (sp_BindAddr (so_data s)) = 0"

definition space_mark :: "spaceObject \<Rightarrow> spaceObject \<times> bool" where
  "space_mark self = (if so_onDirty self then (self\<lparr>so_onDirty := False\<rparr>, True) else (self, False))"

definition space_setBalance :: "int \<Rightarrow> spaceObject \<Rightarrow> spaceObject \<times> bool" where
  "space_setBalance amount self =
    space_mark (self\<lparr>so_data := (so_data self)\<lparr>sp_Balance := amount, sp_Nonce := sp_Nonce (so_data self) + 1\<rparr>\<rparr>)"

definition space_SetBalance :: "int \<Rightarrow> spaceObject \<Rightarrow> spaceObject \<times> bool" where
  "space_SetBalance amount self = space_setBalance amount self"

definition space_AddBalance :: "int \<Rightarrow> spaceObject \<Rightarrow> spaceObject \<times> bool" where
  "space_AddBalance amount c = (if sgn amount = 0 then (c, False) else space_SetBalance (sp_Balance (so_data c) + amount) c)"

definition space_SubBalance :: "int \<Rightarrow> spaceObject \<Rightarrow> spaceObject \<times> bool" where
  "space_SubBalance amount c = (if sgn amount = 0 then (c, False) else space_SetBalance (sp_Balance (so_data c) - amount) c)"

definition AppendAddress :: "bytes \<Rightarrow> spaceObject \<Rightarrow> spaceObject \<times> bool" where
  "AppendAddress addr self = space_mark (self\<lparr>so_data := (so_data self)\<lparr>sp_BindAddr := sp_BindAddr (so_data self) @ [addr]\<rparr>\<rparr>)"

definition RemoveAddress :: "bytes \<Rightarrow> spaceObject \<Rightarrow> spaceObject \<times> bool" where
  "RemoveAddress addr self =
    space_mark (self\<lparr>so_data := (so_data self)\<lparr>sp_BindAddr := filter (\<lambda>local. local \<noteq> addr) (sp_BindAddr (so_data self))\<rparr>\<rparr>)"

section \<open>The state\<close>

datatype state_error = TrieErr trie_error | DecodeErr rlp_error | CommitErr string | errSpaceIdExist | errAddressExist

record StateDB =
  trieSpace :: SecureTrie
  trieAccount :: SecureTrie
  spaceObjects :: "u64 \<rightharpoonup> spaceObject"
  accountObjects :: "bytes \<rightharpoonup> accountObject"
  spaceObjectsDirty :: "u64 set"
  accountObjectsDirty :: "bytes set"
  dbErr :: "state_error option"

type_synonym 'a stated = "(unit, 'a \<times> StateDB) run"

definition OpenSpaceTrie :: "reader option \<Rightarrow> bytes \<Rightarrow> (trie_error, SecureTrie) outcome" where
  "OpenSpaceTrie db rt = NewSecure rt db 0"

definition OpenAccountTrie :: "reader option \<Rightarrow> bytes \<Rightarrow> (trie_error, SecureTrie) outcome" where
  "OpenAccountTrie db rt = NewSecure rt db 0"

definition state_New :: "bytes \<Rightarrow> bytes \<Rightarrow> reader option \<Rightarrow> (trie_error, StateDB) outcome" where
  "state_New rootSpace rootAccount db =
    obind (OpenSpaceTrie db rootSpace) (\<lambda>trSpace.
    obind (OpenAccountTrie db rootAccount) (\<lambda>trAccount.
      Ok \<lparr>trieSpace = trSpace, trieAccount = trAccount, spaceObjects = Map.empty, accountObjects = Map.empty,
        spaceObjectsDirty = {}, accountObjectsDirty = {}, dbErr = None\<rparr>))"

definition setError :: "state_error option \<Rightarrow> StateDB \<Rightarrow> StateDB" where
  "setError err self = (if dbErr self = None then self\<lparr>dbErr := err\<rparr> else self)"

definition state_Error :: "StateDB \<Rightarrow> state_error option" where
  "state_Error self = dbErr self"

definition MarkAccountObjectsDirty :: "bytes \<Rightarrow> StateDB \<Rightarrow> StateDB" where
  "MarkAccountObjectsDirty addr self = self\<lparr>accountObjectsDirty := insert addr (accountObjectsDirty self)\<rparr>"

definition setAccountObject :: "accountObject \<Rightarrow> StateDB \<Rightarrow> StateDB" where
  "setAccountObject object self = self\<lparr>accountObjects := (accountObjects self)(ao_address object \<mapsto> object)\<rparr>"

text \<open>The effect of an operation on the object behind a pointer, with its call of \<open>onDirty\<close>.\<close>

definition store_account :: "accountObject \<times> bool \<Rightarrow> StateDB \<Rightarrow> StateDB" where
  "store_account r self =
    (case r of (object, marked) \<Rightarrow>
       (let self = setAccountObject object self in if marked then MarkAccountObjectsDirty (ao_address object) self else self))"

definition getAccountObject :: "(bytes \<Rightarrow> bytes) \<Rightarrow> reader option \<Rightarrow> bytes \<Rightarrow> StateDB \<Rightarrow> (accountObject option \<times> state_error option) stated" where
  "getAccountObject K db addr self =
    (case accountObjects self addr of
       Some obj \<Rightarrow> Some (Ok ((Some obj, None), self))
     | None \<Rightarrow>
         (case Secure_TryGet K db addr (trieAccount self) of
            None \<Rightarrow> None
          | Some Panic \<Rightarrow> Some Panic
          | Some (Err e) \<Rightarrow> Some (Ok ((None, Some (TrieErr e)), setError (Some (TrieErr e)) self))
          | Some (Ok (v, tr)) \<Rightarrow>
              (let self = self\<lparr>trieAccount := tr\<rparr>; b = (case v of None \<Rightarrow> [] | Some b \<Rightarrow> b)
               in if length b = 0 then Some (Ok ((None, None), setError None self))
                  else case DecodeBytes b Account_type of
                         Err e \<Rightarrow> Some (Ok ((None, Some (DecodeErr e)), self))
                       | Panic \<Rightarrow> Some Panic
                       | Ok acc \<Rightarrow>
                           (let obj = newAccountObject addr (Account_of acc)
                            in Some (Ok ((Some obj, None), setAccountObject obj self))))))"

definition GetAccountObject :: "(bytes \<Rightarrow> bytes) \<Rightarrow> reader option \<Rightarrow> bytes \<Rightarrow> StateDB \<Rightarrow> (accountObject option \<times> state_error option) stated" where
  "GetAccountObject K db addr self =
    rbind (getAccountObject K db addr self) (\<lambda>((obj, err), self).
      if err \<noteq> None \<or> obj = None then Some (Ok ((None, err), self)) else Some (Ok ((obj, err), self)))"

definition state_GetBalance :: "(bytes \<Rightarrow> bytes) \<Rightarrow> reader option \<Rightarrow> bytes \<Rightarrow> StateDB \<Rightarrow> (int \<times> state_error option) stated" where
  "state_GetBalance K db addr self =
    rbind (getAccountObject K db addr self) (\<lambda>((obj, err), self).
      case obj of Some obj \<Rightarrow> Some (Ok ((acc_Balance (ao_data obj), None), self)) | None \<Rightarrow> Some (Ok ((0, err), self)))"

definition state_GetWalletID :: "(bytes \<Rightarrow> bytes) \<Rightarrow> reader option \<Rightarrow> bytes \<Rightarrow> StateDB \<Rightarrow> (u64 \<times> state_error option) stated" where
  "state_GetWalletID K db addr self =
    rbind (getAccountObject K db addr self) (\<lambda>((obj, err), self).
      case obj of Some obj \<Rightarrow> Some (Ok ((WalletID (ao_data obj), None), self)) | None \<Rightarrow> Some (Ok ((0, err), self)))"

definition state_AddBalance :: "(bytes \<Rightarrow> bytes) \<Rightarrow> reader option \<Rightarrow> bytes \<Rightarrow> int \<Rightarrow> StateDB \<Rightarrow> state_error option stated" where
  "state_AddBalance K db addr amount self =
    rbind (getAccountObject K db addr self) (\<lambda>((obj, err), self).
      case obj of Some obj \<Rightarrow> Some (Ok (err, store_account (AddBalance_gas amount obj) self)) | None \<Rightarrow> Some (Ok (err, self)))"

definition state_SubBalance :: "(bytes \<Rightarrow> bytes) \<Rightarrow> reader option \<Rightarrow> bytes \<Rightarrow> int \<Rightarrow> StateDB \<Rightarrow> state_error option stated" where
  "state_SubBalance K db addr amount self =
    rbind (getAccountObject K db addr self) (\<lambda>((obj, err), self).
      case obj of Some obj \<Rightarrow> Some (Ok (err, store_account (SubBalance_gas amount obj) self)) | None \<Rightarrow> Some (Ok (err, self)))"

definition state_SetBalance :: "(bytes \<Rightarrow> bytes) \<Rightarrow> reader option \<Rightarrow> bytes \<Rightarrow> int \<Rightarrow> StateDB \<Rightarrow> state_error option stated" where
  "state_SetBalance K db addr amount self =
    rbind (getAccountObject K db addr self) (\<lambda>((obj, err), self).
      case obj of Some obj \<Rightarrow> Some (Ok (err, store_account (SetBalance_gas amount obj) self)) | None \<Rightarrow> Some (Ok (err, self)))"

definition state_SetAttribute :: "(bytes \<Rightarrow> bytes) \<Rightarrow> reader option \<Rightarrow> bytes \<Rightarrow> bytes \<Rightarrow> bytes \<Rightarrow> StateDB \<Rightarrow> state_error option stated" where
  "state_SetAttribute K db addr key val self =
    rbind (GetAccountObject K db addr self) (\<lambda>((obj, err), self).
      case obj of Some obj \<Rightarrow> Some (Ok (err, store_account (obj_SetAttribute key val obj) self)) | None \<Rightarrow> Some (Ok (err, self)))"

definition state_DelAttribute :: "(bytes \<Rightarrow> bytes) \<Rightarrow> reader option \<Rightarrow> bytes \<Rightarrow> bytes \<Rightarrow> StateDB \<Rightarrow> state_error option stated" where
  "state_DelAttribute K db addr key self =
    rbind (GetAccountObject K db addr self) (\<lambda>((obj, err), self).
      case obj of Some obj \<Rightarrow> Some (Ok (err, store_account (obj_DelAttribute key obj) self)) | None \<Rightarrow> Some (Ok (err, self)))"

definition state_GetAttribute :: "(bytes \<Rightarrow> bytes) \<Rightarrow> reader option \<Rightarrow> bytes \<Rightarrow> bytes \<Rightarrow> StateDB \<Rightarrow> (bytes option \<times> state_error option) stated" where
  "state_GetAttribute K db addr key self =
    rbind (GetAccountObject K db addr self) (\<lambda>((obj, err), self).
      Some (Ok ((case obj of Some obj \<Rightarrow> Some (obj_GetAttribute obj key) | None \<Rightarrow> None, err), self)))"

text \<open>
  \<open>createAccountObject\<close> replaces an account that exists: \<open>err\<close> is \<open>nil\<close> both when the account was found and when there is none.
\<close>

definition createAccountObject :: "(bytes \<Rightarrow> bytes) \<Rightarrow> reader option \<Rightarrow> u64 \<Rightarrow> bytes \<Rightarrow> StateDB \<Rightarrow>
    (accountObject option \<times> state_error option) stated" where
  "createAccountObject K db wid addr self =
    rbind (getAccountObject K db addr self) (\<lambda>((prev, err), self).
      if err = None then
        let newobj = newAccountObject addr \<lparr>BindSpaceId = 0, acc_Balance = 0, WalletID = wid, CodeHash = [], Accountkey = [], AccountValue = []\<rparr>
        in Some (Ok ((Some newobj, None), setAccountObject newobj self))
      else Some (Ok ((prev, Some errAddressExist), self)))"

section \<open>Spaces in the state\<close>

definition id_Uint64 :: "int \<Rightarrow> u64" where
  "id_Uint64 x = word_of_int \<bar>x\<bar>"

definition id_Bytes :: "int \<Rightarrow> bytes" where
  "id_Bytes x = big_Bytes (nat \<bar>x\<bar>)"

definition MarkSpaceObjectsDirty :: "u64 \<Rightarrow> StateDB \<Rightarrow> StateDB" where
  "MarkSpaceObjectsDirty i self = self\<lparr>spaceObjectsDirty := insert i (spaceObjectsDirty self)\<rparr>"

definition setSpaceObject :: "spaceObject \<Rightarrow> StateDB \<Rightarrow> StateDB" where
  "setSpaceObject object self = self\<lparr>spaceObjects := (spaceObjects self)(id_Uint64 (so_id object) \<mapsto> object)\<rparr>"

definition store_space :: "spaceObject \<times> bool \<Rightarrow> StateDB \<Rightarrow> StateDB" where
  "store_space r self =
    (case r of (object, marked) \<Rightarrow>
       (let self = setSpaceObject object self in if marked then MarkSpaceObjectsDirty (id_Uint64 (so_id object)) self else self))"

definition getSpaceObject :: "(bytes \<Rightarrow> bytes) \<Rightarrow> reader option \<Rightarrow> int \<Rightarrow> StateDB \<Rightarrow> (spaceObject option \<times> state_error option) stated" where
  "getSpaceObject K db spid self =
    (case spaceObjects self (id_Uint64 spid) of
       Some obj \<Rightarrow> Some (Ok ((Some obj, None), self))
     | None \<Rightarrow>
         (case Secure_TryGet K db (id_Bytes spid) (trieSpace self) of
            None \<Rightarrow> None
          | Some Panic \<Rightarrow> Some Panic
          | Some (Err e) \<Rightarrow> Some (Ok ((None, Some (TrieErr e)), setError (Some (TrieErr e)) self))
          | Some (Ok (v, tr)) \<Rightarrow>
              (let self = self\<lparr>trieSpace := tr\<rparr>; b = (case v of None \<Rightarrow> [] | Some b \<Rightarrow> b)
               in if length b = 0 then Some (Ok ((None, None), setError None self))
                  else case DecodeBytes b Space_type of
                         Err e \<Rightarrow> Some (Ok ((None, Some (DecodeErr e)), self))
                       | Panic \<Rightarrow> Some Panic
                       | Ok space \<Rightarrow>
                           (let obj = newSpaceObject spid (Space_of space)
                            in Some (Ok ((Some obj, None), setSpaceObject obj self))))))"

definition GetSpaceObject :: "(bytes \<Rightarrow> bytes) \<Rightarrow> reader option \<Rightarrow> int \<Rightarrow> StateDB \<Rightarrow> (spaceObject option \<times> state_error option) stated" where
  "GetSpaceObject K db spid self = getSpaceObject K db spid self"

definition getSpaceObjectByAddr :: "(bytes \<Rightarrow> bytes) \<Rightarrow> reader option \<Rightarrow> bytes \<Rightarrow> StateDB \<Rightarrow> (spaceObject option \<times> state_error option) stated" where
  "getSpaceObjectByAddr K db addr self =
    rbind (getAccountObject K db addr self) (\<lambda>((obj, err), self).
      case obj of Some obj \<Rightarrow> getSpaceObject K db (BindSpaceId (ao_data obj)) self | None \<Rightarrow> Some (Ok ((None, err), self)))"

definition CreateSpaceObject :: "(bytes \<Rightarrow> bytes) \<Rightarrow> reader option \<Rightarrow> int \<Rightarrow> StateDB \<Rightarrow> (spaceObject option \<times> state_error option) stated" where
  "CreateSpaceObject K db spid self =
    rbind (getSpaceObject K db spid self) (\<lambda>((obj, _), self).
      case obj of
        None \<Rightarrow>
          (let newobj = newSpaceObject spid \<lparr>sp_Nonce = 0, sp_Balance = 0, sp_BindAddr = []\<rparr>
           in Some (Ok ((Some newobj, None), setSpaceObject newobj self)))
      | Some obj \<Rightarrow> Some (Ok ((Some obj, Some errSpaceIdExist), self)))"

definition GetSpaceBalanceByAddress :: "(bytes \<Rightarrow> bytes) \<Rightarrow> reader option \<Rightarrow> bytes \<Rightarrow> StateDB \<Rightarrow> (int \<times> state_error option) stated" where
  "GetSpaceBalanceByAddress K db addr self =
    rbind (getSpaceObjectByAddr K db addr self) (\<lambda>((obj, err), self).
      case obj of Some obj \<Rightarrow> Some (Ok ((sp_Balance (so_data obj), None), self)) | None \<Rightarrow> Some (Ok ((0, err), self)))"

definition GetSpaceBalanceByID :: "(bytes \<Rightarrow> bytes) \<Rightarrow> reader option \<Rightarrow> int \<Rightarrow> StateDB \<Rightarrow> (int \<times> state_error option) stated" where
  "GetSpaceBalanceByID K db spid self =
    rbind (getSpaceObject K db spid self) (\<lambda>((obj, err), self).
      case obj of Some obj \<Rightarrow> Some (Ok ((sp_Balance (so_data obj), None), self)) | None \<Rightarrow> Some (Ok ((0, err), self)))"

definition AddSpaceBalanceByID :: "(bytes \<Rightarrow> bytes) \<Rightarrow> reader option \<Rightarrow> int \<Rightarrow> int \<Rightarrow> StateDB \<Rightarrow> state_error option stated" where
  "AddSpaceBalanceByID K db spid amount self =
    rbind (getSpaceObject K db spid self) (\<lambda>((obj, err), self).
      case obj of Some obj \<Rightarrow> Some (Ok (err, store_space (space_AddBalance amount obj) self)) | None \<Rightarrow> Some (Ok (err, self)))"

definition SubSpaceBalanceByID :: "(bytes \<Rightarrow> bytes) \<Rightarrow> reader option \<Rightarrow> int \<Rightarrow> int \<Rightarrow> StateDB \<Rightarrow> state_error option stated" where
  "SubSpaceBalanceByID K db spid amount self =
    rbind (getSpaceObject K db spid self) (\<lambda>((obj, err), self).
      case obj of Some obj \<Rightarrow> Some (Ok (err, store_space (space_SubBalance amount obj) self)) | None \<Rightarrow> Some (Ok (err, self)))"

definition AddSpaceBalanceByAddress :: "(bytes \<Rightarrow> bytes) \<Rightarrow> reader option \<Rightarrow> bytes \<Rightarrow> int \<Rightarrow> StateDB \<Rightarrow> state_error option stated" where
  "AddSpaceBalanceByAddress K db addr amount self =
    rbind (getSpaceObjectByAddr K db addr self) (\<lambda>((obj, err), self).
      case obj of Some obj \<Rightarrow> Some (Ok (err, store_space (space_AddBalance amount obj) self)) | None \<Rightarrow> Some (Ok (err, self)))"

definition SubSpaceBalanceByAddress :: "(bytes \<Rightarrow> bytes) \<Rightarrow> reader option \<Rightarrow> bytes \<Rightarrow> int \<Rightarrow> StateDB \<Rightarrow> state_error option stated" where
  "SubSpaceBalanceByAddress K db addr amount self =
    rbind (getSpaceObjectByAddr K db addr self) (\<lambda>((obj, err), self).
      case obj of Some obj \<Rightarrow> Some (Ok (err, store_space (space_SubBalance amount obj) self)) | None \<Rightarrow> Some (Ok (err, self)))"

definition SetSpaceBalanceByAddress :: "(bytes \<Rightarrow> bytes) \<Rightarrow> reader option \<Rightarrow> bytes \<Rightarrow> int \<Rightarrow> StateDB \<Rightarrow> state_error option stated" where
  "SetSpaceBalanceByAddress K db addr amount self =
    rbind (getSpaceObjectByAddr K db addr self) (\<lambda>((obj, err), self).
      case obj of Some obj \<Rightarrow> Some (Ok (err, store_space (space_SetBalance amount obj) self)) | None \<Rightarrow> Some (Ok (err, self)))"

section \<open>Binding accounts to spaces\<close>

text \<open>The current contents behind a pointer to a cached object.\<close>

definition cur_account :: "StateDB \<Rightarrow> accountObject \<Rightarrow> accountObject" where
  "cur_account self account = (case accountObjects self (ao_address account) of Some a \<Rightarrow> a | None \<Rightarrow> account)"

definition cur_space :: "StateDB \<Rightarrow> spaceObject \<Rightarrow> spaceObject" where
  "cur_space self space = (case spaceObjects self (id_Uint64 (so_id space)) of Some s \<Rightarrow> s | None \<Rightarrow> space)"

definition unassociateSpaceAndAccount :: "spaceObject option \<Rightarrow> accountObject option \<Rightarrow> StateDB \<Rightarrow> StateDB" where
  "unassociateSpaceAndAccount space account self =
    (case (account, space) of
       (Some account, Some space) \<Rightarrow>
         (let self = store_account (SetSpaceID 0 (cur_account self account)) self
          in store_space (RemoveAddress (ao_address account) (cur_space self space)) self)
     | _ \<Rightarrow> self)"

definition associateSpaceAndAccount :: "(bytes \<Rightarrow> bytes) \<Rightarrow> reader option \<Rightarrow> spaceObject option \<Rightarrow> accountObject option \<Rightarrow> StateDB \<Rightarrow>
    (unit, StateDB) run" where
  "associateSpaceAndAccount K db space account self =
    (case (account, space) of
       (Some account, Some space) \<Rightarrow>
         rbind
           (if \<not> account_empty (cur_account self account) then
              rbind (getSpaceObject K db (BindSpaceId (ao_data (cur_account self account))) self) (\<lambda>((prev, err), self).
                if err = None then Some (Ok (unassociateSpaceAndAccount prev (Some account) self)) else Some (Ok self))
            else Some (Ok self)) (\<lambda>self.
           let self = store_account (SetSpaceID (so_id (cur_space self space)) (cur_account self account)) self
           in Some (Ok (store_space (AppendAddress (ao_address account) (cur_space self space)) self)))
     | _ \<Rightarrow> Some (Ok self))"

definition BindAddr :: "(bytes \<Rightarrow> bytes) \<Rightarrow> reader option \<Rightarrow> int \<Rightarrow> u64 \<Rightarrow> bytes \<Rightarrow> StateDB \<Rightarrow> u64 stated" where
  "BindAddr K db spid walletid bindAddr self =
    rbind (getSpaceObject K db spid self) (\<lambda>((space, err), self).
      if err = None then
        rbind (GetAccountObject K db bindAddr self) (\<lambda>((acc, err), self).
          if err = None then
            rbind (associateSpaceAndAccount K db space acc self) (\<lambda>self. Some (Ok (walletid, self)))
          else
            rbind (createAccountObject K db walletid bindAddr self) (\<lambda>((newacc, _), self).
              if newacc \<noteq> None then
                rbind (associateSpaceAndAccount K db space newacc self) (\<lambda>self. Some (Ok (walletid + 1, self)))
              else Some (Ok (walletid, self))))
      else Some (Ok (walletid, self)))"

definition UnbindAddr :: "(bytes \<Rightarrow> bytes) \<Rightarrow> reader option \<Rightarrow> int \<Rightarrow> bytes \<Rightarrow> StateDB \<Rightarrow> (unit, StateDB) run" where
  "UnbindAddr K db spid bindAddr self =
    rbind (getSpaceObject K db spid self) (\<lambda>((space, _), self).
      if space \<noteq> None then
        rbind (getAccountObject K db bindAddr self) (\<lambda>((acc, err), self).
          if err = None then Some (Ok (unassociateSpaceAndAccount space acc self)) else Some (Ok self))
      else Some (Ok self))"

definition CreateSpaceAndBindAddr :: "(bytes \<Rightarrow> bytes) \<Rightarrow> reader option \<Rightarrow> int \<Rightarrow> u64 \<Rightarrow> bytes \<Rightarrow> StateDB \<Rightarrow> u64 stated" where
  "CreateSpaceAndBindAddr K db spid walletid bindAddr self =
    rbind (GetAccountObject K db bindAddr self) (\<lambda>((acc, _), self).
      if acc = None then
        rbind (createAccountObject K db walletid bindAddr self) (\<lambda>((newacc, _), self).
        rbind (CreateSpaceObject K db spid self) (\<lambda>((newspa, err), self).
        rbind (if err = None then associateSpaceAndAccount K db newspa newacc self else Some (Ok self)) (\<lambda>self.
          if newacc \<noteq> None then Some (Ok (walletid + 1, self)) else Some (Ok (walletid, self)))))
      else
        rbind (CreateSpaceObject K db spid self) (\<lambda>((new, err), self).
        rbind (if err = None then associateSpaceAndAccount K db new acc self else Some (Ok self)) (\<lambda>self.
          Some (Ok (walletid, self)))))"

section \<open>Roots and commits\<close>

definition updateAccountObject :: "(bytes \<Rightarrow> bytes) \<Rightarrow> reader option \<Rightarrow> ((bytes \<rightharpoonup> bytes) \<Rightarrow> bytes list) \<Rightarrow> accountObject \<Rightarrow> StateDB \<Rightarrow>
    (unit, StateDB) run" where
  "updateAccountObject K db ranges object self =
    (let addr = ao_address object;
         object = collect_attributes ranges object;
         self = setAccountObject object self
     in case EncodeToBytes (TEnc False Account_type) (VEnc (Account_val (ao_data object))) of
          Ok dat \<Rightarrow>
            (case Secure_TryUpdate K db addr dat (trieAccount self) of
               None \<Rightarrow> None
             | Some Panic \<Rightarrow> Some Panic
             | Some (Err e) \<Rightarrow> Some (Ok (setError (Some (TrieErr e)) self))
             | Some (Ok tr) \<Rightarrow> Some (Ok (setError None (self\<lparr>trieAccount := tr\<rparr>))))
        | _ \<Rightarrow> Some Panic)"

definition deleteAccountObject :: "(bytes \<Rightarrow> bytes) \<Rightarrow> reader option \<Rightarrow> accountObject \<Rightarrow> StateDB \<Rightarrow> (unit, StateDB) run" where
  "deleteAccountObject K db object self =
    (let addr = ao_address object
     in case Secure_TryDelete K db addr (trieAccount self) of
          None \<Rightarrow> None
        | Some Panic \<Rightarrow> Some Panic
        | Some (Err e) \<Rightarrow> Some (Ok (setError (Some (TrieErr e)) (self\<lparr>trieAccount := drop_cached (hashKey K addr) (trieAccount self)\<rparr>)))
        | Some (Ok tr) \<Rightarrow> Some (Ok (setError None (self\<lparr>trieAccount := tr\<rparr>))))"

primrec AccountFinalise_loop :: "(bytes \<Rightarrow> bytes) \<Rightarrow> reader option \<Rightarrow> ((bytes \<rightharpoonup> bytes) \<Rightarrow> bytes list) \<Rightarrow> bool \<Rightarrow> bytes list \<Rightarrow> StateDB \<Rightarrow>
    (unit, StateDB) run" where
  "AccountFinalise_loop K db ranges deleteEmptyObjects [] self = Some (Ok self)"
| "AccountFinalise_loop K db ranges deleteEmptyObjects (addr # addrs) self =
    (case accountObjects self addr of
       None \<Rightarrow> Some Panic
     | Some stateObject \<Rightarrow>
         rbind
           (if deleteEmptyObjects \<and> account_empty stateObject then deleteAccountObject K db stateObject self
            else updateAccountObject K db ranges stateObject self) (\<lambda>self.
         AccountFinalise_loop K db ranges deleteEmptyObjects addrs
           (self\<lparr>accountObjectsDirty := accountObjectsDirty self - {addr}\<rparr>)))"

definition AccountFinalise :: "(bytes \<Rightarrow> bytes) \<Rightarrow> reader option \<Rightarrow> ((bytes \<rightharpoonup> bytes) \<Rightarrow> bytes list) \<Rightarrow> (bytes set \<Rightarrow> bytes list) \<Rightarrow> bool \<Rightarrow> StateDB \<Rightarrow>
    (unit, StateDB) run" where
  "AccountFinalise K db ranges order deleteEmptyObjects self =
    AccountFinalise_loop K db ranges deleteEmptyObjects (order (accountObjectsDirty self)) self"

definition updateSpaceObject :: "(bytes \<Rightarrow> bytes) \<Rightarrow> reader option \<Rightarrow> spaceObject \<Rightarrow> StateDB \<Rightarrow> (unit, StateDB) run" where
  "updateSpaceObject K db object self =
    (case EncodeToBytes (TEnc False Space_type) (VEnc (Space_val (so_data object))) of
       Ok dat \<Rightarrow>
         (case Secure_TryUpdate K db (id_Bytes (so_id object)) dat (trieSpace self) of
            None \<Rightarrow> None
          | Some Panic \<Rightarrow> Some Panic
          | Some (Err e) \<Rightarrow> Some (Ok (setError (Some (TrieErr e)) self))
          | Some (Ok tr) \<Rightarrow> Some (Ok (setError None (self\<lparr>trieSpace := tr\<rparr>))))
     | _ \<Rightarrow> Some Panic)"

definition deleteSpaceObject :: "(bytes \<Rightarrow> bytes) \<Rightarrow> reader option \<Rightarrow> spaceObject \<Rightarrow> StateDB \<Rightarrow> (unit, StateDB) run" where
  "deleteSpaceObject K db object self =
    (let key = id_Bytes (so_id object)
     in case Secure_TryDelete K db key (trieSpace self) of
          None \<Rightarrow> None
        | Some Panic \<Rightarrow> Some Panic
        | Some (Err e) \<Rightarrow> Some (Ok (setError (Some (TrieErr e)) (self\<lparr>trieSpace := drop_cached (hashKey K key) (trieSpace self)\<rparr>)))
        | Some (Ok tr) \<Rightarrow> Some (Ok (setError None (self\<lparr>trieSpace := tr\<rparr>))))"

primrec SpaceFinalise_loop :: "(bytes \<Rightarrow> bytes) \<Rightarrow> reader option \<Rightarrow> bool \<Rightarrow> u64 list \<Rightarrow> StateDB \<Rightarrow> (unit, StateDB) run" where
  "SpaceFinalise_loop K db deleteEmptyObjects [] self = Some (Ok self)"
| "SpaceFinalise_loop K db deleteEmptyObjects (i # ids) self =
    (case spaceObjects self i of
       None \<Rightarrow> Some Panic
     | Some stateObject \<Rightarrow>
         rbind
           (if deleteEmptyObjects \<and> space_empty stateObject then deleteSpaceObject K db stateObject self
            else updateSpaceObject K db stateObject self) (\<lambda>self.
         SpaceFinalise_loop K db deleteEmptyObjects ids (self\<lparr>spaceObjectsDirty := spaceObjectsDirty self - {i}\<rparr>)))"

definition SpaceFinalise :: "(bytes \<Rightarrow> bytes) \<Rightarrow> reader option \<Rightarrow> (u64 set \<Rightarrow> u64 list) \<Rightarrow> bool \<Rightarrow> StateDB \<Rightarrow> (unit, StateDB) run" where
  "SpaceFinalise K db order deleteEmptyObjects self =
    SpaceFinalise_loop K db deleteEmptyObjects (order (spaceObjectsDirty self)) self"

definition IntermediateAccountRoot :: "(bytes \<Rightarrow> bytes) \<Rightarrow> reader option \<Rightarrow> ((bytes \<rightharpoonup> bytes) \<Rightarrow> bytes list) \<Rightarrow> (bytes set \<Rightarrow> bytes list) \<Rightarrow> bool \<Rightarrow>
    StateDB \<Rightarrow> bytes stated" where
  "IntermediateAccountRoot K db ranges order deleteEmptyObjects self =
    rbind (AccountFinalise K db ranges order deleteEmptyObjects self) (\<lambda>self.
      case Secure_Hash K (trieAccount self) of
        Ok (h, tr) \<Rightarrow> Some (Ok (h, self\<lparr>trieAccount := tr\<rparr>))
      | _ \<Rightarrow> Some Panic)"

definition IntermediateSpaceRoot :: "(bytes \<Rightarrow> bytes) \<Rightarrow> reader option \<Rightarrow> (u64 set \<Rightarrow> u64 list) \<Rightarrow> bool \<Rightarrow> StateDB \<Rightarrow> bytes stated" where
  "IntermediateSpaceRoot K db order deleteEmptyObjects self =
    rbind (SpaceFinalise K db order deleteEmptyObjects self) (\<lambda>self.
      case Secure_Hash K (trieSpace self) of
        Ok (h, tr) \<Rightarrow> Some (Ok (h, self\<lparr>trieSpace := tr\<rparr>))
      | _ \<Rightarrow> Some Panic)"

definition IntermediateRoot :: "(bytes \<Rightarrow> bytes) \<Rightarrow> reader option \<Rightarrow> ((bytes \<rightharpoonup> bytes) \<Rightarrow> bytes list) \<Rightarrow> (bytes set \<Rightarrow> bytes list) \<Rightarrow>
    (u64 set \<Rightarrow> u64 list) \<Rightarrow> bool \<Rightarrow> StateDB \<Rightarrow> (bytes \<times> bytes) stated" where
  "IntermediateRoot K db ranges aorder sorder deleteEmptyObjects self =
    rbind (IntermediateSpaceRoot K db sorder deleteEmptyObjects self) (\<lambda>(rootSpace, self).
    rbind (IntermediateAccountRoot K db ranges aorder deleteEmptyObjects self) (\<lambda>(rootAccount, self).
      Some (Ok ((rootSpace, rootAccount), self))))"

text \<open>
  \<open>CommitTo\<close> returns the error of the second trie only. The order of ranging over the key caches of the tries is the parameter
  \<open>kranges\<close>.
\<close>

definition commit_result :: "(string, bytes) outcome \<Rightarrow> (unit, bytes \<times> state_error option) outcome" where
  "commit_result r = (case r of Ok h \<Rightarrow> Ok (h, None) | Err e \<Rightarrow> Ok (replicate 32 0, Some (CommitErr e)) | Panic \<Rightarrow> Panic)"

definition state_CommitTo :: "(bytes \<Rightarrow> bytes) \<Rightarrow> reader option \<Rightarrow> ((bytes \<rightharpoonup> bytes) \<Rightarrow> bytes list) \<Rightarrow> (bytes set \<Rightarrow> bytes list) \<Rightarrow>
    (u64 set \<Rightarrow> u64 list) \<Rightarrow> ((bytes \<rightharpoonup> bytes) \<Rightarrow> (bytes \<times> bytes) list) \<Rightarrow> 'd writer \<Rightarrow> StateDB \<Rightarrow> 'd \<Rightarrow>
    (unit, 'd \<times> (bytes \<times> bytes \<times> state_error option) \<times> StateDB) run" where
  "state_CommitTo K db ranges aorder sorder kranges put s d =
    rbind (SpaceFinalise K db sorder True s) (\<lambda>s.
    case Secure_CommitTo K kranges put (trieSpace s) d of
      (d, r, tr) \<Rightarrow>
        rbind (Some (commit_result r)) (\<lambda>(rootSpace, _).
        rbind (AccountFinalise K db ranges aorder True (s\<lparr>trieSpace := tr\<rparr>)) (\<lambda>s.
        case Secure_CommitTo K kranges put (trieAccount s) d of
          (d, r, tr) \<Rightarrow>
            rbind (Some (commit_result r)) (\<lambda>(rootAccount, err).
              Some (Ok (d, (rootSpace, rootAccount, err), s\<lparr>trieAccount := tr\<rparr>))))))"

end
