(* ===== verification/StateSpec.thy ===== *)
theory StateSpec
  imports StateDB
begin

text \<open>
  What the state of accounts keeps and loses: accounts are read back from their encoding, a change after finalising is lost, a negative balance
  makes finalising panic, and the encoding of attributes depends on the order of ranging over a map.
\<close>

section \<open>Encoding of accounts\<close>

definition account_wf :: "Account \<Rightarrow> bool" where
  "account_wf a \<longleftrightarrow> BindSpaceId a \<ge> 0 \<and> acc_Balance a \<ge> 0"

definition account_enc :: "Account \<Rightarrow> bytes" where
  "account_enc a = rlp_list (rlp_nat (nat (BindSpaceId a)) @ rlp_nat (nat (acc_Balance a)) @ rlp_nat (unat (WalletID a)) @ rlp_str (CodeHash a) @
    rlp_list (concat (map rlp_str (Accountkey a))) @ rlp_list (concat (map rlp_str (AccountValue a))))"

lemma Account_decodable: "decodable True Account_type"
  by (simp add: Account_type_def tag_eval)

lemma rlp_elems_strings: "rlp_elems TString addr (map VBytes bs) = Ok (concat (map rlp_str bs))"
  by (induction bs) (simp_all add: rlp_of.simps obytes_def)

lemma enc_Account: "account_wf a \<Longrightarrow> enc Account_type no_tags (Account_val a) (account_enc a)"
  using unat_u64_less [of "WalletID a"]
  by (auto simp: Account_type_def Account_val_def enc_def account_wf_def account_enc_def rlp_of.simps structFields_def tag_eval
      rlp_big_def isStructOrArray_def obytes_def rlp_elems_strings)

lemma EncodeToBytes_Ok:
  assumes "rlp_top t v = Ok b" "length b < 2 ^ 64"
  shows "EncodeToBytes t v = Ok b"
proof -
  obtain w where "encbuf_encode t v encbuf_reset = Ok w" "holds w b" using assms by (rule encbuf_encode_holds)
  then show ?thesis by (simp add: EncodeToBytes_def holds_def toBytes_render)
qed

lemma rlp_top_Account: "rlp_top (TEnc False Account_type) (VEnc (Account_val a)) = rlp_of Account_type no_tags False (Account_val a)"
  using genTypeInfo_decodable(1) [OF Account_decodable] by (simp add: rlp_top.simps rlp_of.simps [of "TEnc _ _"] genTypeInfo.simps)

lemma EncodeToBytes_Account:
  assumes "account_wf a" "length (account_enc a) < 2 ^ 64"
  shows "EncodeToBytes (TEnc False Account_type) (VEnc (Account_val a)) = Ok (account_enc a)"
  using enc_Account [OF assms(1)] rlp_of_addr(1) [OF Account_decodable, of no_tags False "Account_val a" True] assms(2)
  by (intro EncodeToBytes_Ok) (simp_all add: rlp_top_Account enc_def)

lemma EncodeToBytes_negative:
  assumes "BindSpaceId a \<ge> 0" "acc_Balance a < 0"
  shows "EncodeToBytes (TEnc False Account_type) (VEnc (Account_val a)) = Err ErrNegativeBigInt"
proof -
  have "rlp_top (TEnc False Account_type) (VEnc (Account_val a)) = Err ErrNegativeBigInt"
    unfolding rlp_top_Account using assms by (simp add: Account_type_def Account_val_def rlp_of.simps structFields_def tag_eval rlp_big_def)
  then show ?thesis using writes_encoders(1) [of "TEnc False Account_type" "VEnc (Account_val a)" encbuf_reset]
    by (simp add: EncodeToBytes_def writes_def)
qed

lemma DecodeBytes_Account:
  assumes "account_wf a" "length (account_enc a) < 2 ^ 64"
  shows "DecodeBytes (account_enc a) Account_type = Ok (Account_val a)"
proof -
  obtain s' where s': "decoder Account_type no_tags (byte_stream (account_enc a)) = (Ok (Account_val a), s')" "reads (account_enc a) (byte_stream (account_enc a)) s'"
    using acceptsD [OF goodD(1) [OF good_decoder(1) [OF Account_decodable field_tags_no_tags]] byte_stream(1,2) [OF assms(2)] enc_Account [OF assms(1)], of "[]"]
      byte_stream [OF assms(2)] by auto
  then have "inp s' = []" using byte_stream(3) [OF assms(2)] by (simp add: reads_def same_def adv_def)
  then show ?thesis using s'(1) DecodeBytes_Ok [OF Account_decodable] by blast
qed

lemma rlp_top_enc: "account_wf a \<Longrightarrow> rlp_top Account_type (Account_val a) = Ok (account_enc a)"
  using enc_Account [of a] rlp_of_addr(1) [OF Account_decodable, of no_tags False "Account_val a" True] genTypeInfo_decodable(1) [OF Account_decodable]
  by (simp add: rlp_top.simps enc_def)

lemma Encode_buffer: "rlp_top t v = Ok b \<Longrightarrow> length b < 2 ^ 64 \<Longrightarrow> Encode buffer_Write out t v = (out @ b, Ok ())"
  by (rule encbuf_encode_holds [of t v b]) (simp_all add: Encode_def toWriter_def toWriter_loop_render holds_def)

lemma Account_of_val: "Account_of (Account_val a) = a"
  by (simp add: Account_of_def Account_val_def val_big_def val_bytes_def val_uint_def val_list_def o_def)

section \<open>Finalising\<close>

definition keyed :: "StateDB \<Rightarrow> bool" where
  "keyed st \<longleftrightarrow> (\<forall>a obj. accountObjects st a = Some obj \<longrightarrow> ao_address obj = a)"

lemma setError_simps [simp]:
  "trieAccount (setError e st) = trieAccount st" "accountObjects (setError e st) = accountObjects st"
  "accountObjectsDirty (setError e st) = accountObjectsDirty st" "keyed (setError e st) = keyed st"
  by (simp_all add: setError_def keyed_def)

lemma rbind_OkE:
  assumes "rbind r f = Some (Ok y)"
  obtains x where "r = Some (Ok x)" "f x = Some (Ok y)"
proof (cases r)
  case (Some x)
  then show ?thesis using assms that by (cases x) auto
qed (use assms in simp)

lemma finalise_step:
  assumes "keyed st" "accountObjects st addr = Some obj"
    and "(if del \<and> account_empty obj then deleteAccountObject K db obj st else updateAccountObject K db ranges obj st) = Some (Ok st')"
  shows "keyed st' \<and> accountObjectsDirty st' = accountObjectsDirty st \<and>
    (\<forall>a. map_option ao_onDirty (accountObjects st' a) = map_option ao_onDirty (accountObjects st a))"
  using assms
  by (auto simp: deleteAccountObject_def updateAccountObject_def Let_def setAccountObject_def keyed_def collect_attributes_def
      split: if_splits option.splits outcome.splits)

lemma finalise_loop:
  "keyed st \<Longrightarrow> AccountFinalise_loop K db ranges del addrs st = Some (Ok st') \<Longrightarrow>
    keyed st' \<and> accountObjectsDirty st' = accountObjectsDirty st - set addrs \<and>
    (\<forall>a. map_option ao_onDirty (accountObjects st' a) = map_option ao_onDirty (accountObjects st a))"
proof (induction addrs arbitrary: st)
  case (Cons addr addrs)
  then obtain obj where o: "accountObjects st addr = Some obj" by (auto split: option.splits)
  let ?step = "if del \<and> account_empty obj then deleteAccountObject K db obj st else updateAccountObject K db ranges obj st"
  have "rbind ?step (\<lambda>self. AccountFinalise_loop K db ranges del addrs (self\<lparr>accountObjectsDirty := accountObjectsDirty self - {addr}\<rparr>)) = Some (Ok st')"
    using Cons.prems(2) o by simp
  then obtain st1 where st1: "?step = Some (Ok st1)"
    "AccountFinalise_loop K db ranges del addrs (st1\<lparr>accountObjectsDirty := accountObjectsDirty st1 - {addr}\<rparr>) = Some (Ok st')"
    by (rule rbind_OkE)
  from finalise_step [OF Cons.prems(1) o st1(1)] Cons.IH [OF _ st1(2)] show ?case by (auto simp: keyed_def)
qed simp

text \<open>
  C36. The second update of an account is lost when a computation of the root lies between: after the balance of a cached account was set and the
  state finalised (as by \<open>IntermediateRoot\<close>), a second change of the balance of the same account is seen by \<open>GetBalance\<close>, but finalising again changes nothing and the trie
  keeps the first balance, since the callback that marks the account was dropped at the first change.
\<close>
theorem SetBalance_lost:
  assumes "order {} = []" "set (order (accountObjectsDirty st1)) = accountObjectsDirty st1" "keyed st" "accountObjects st addr = Some obj"
    and "state_SetBalance K db addr a st = Some (Ok (e1, st1))" "AccountFinalise K db ranges order del st1 = Some (Ok st2)"
  shows "\<exists>st3. state_SetBalance K db addr b st2 = Some (Ok (None, st3)) \<and> state_GetBalance K db addr st3 = Some (Ok ((b, None), st3)) \<and>
    trieAccount st3 = trieAccount st2 \<and> AccountFinalise K db ranges order del st3 = Some (Ok st3)"
proof -
  have ad: "ao_address obj = addr" using assms(3,4) by (simp add: keyed_def)
  define obj1 where "obj1 = fst (SetBalance_gas a obj)"
  have o1: "ao_onDirty obj1 = False" "ao_address obj1 = addr"
    by (simp_all add: obj1_def SetBalance_gas_def setBalance_gas_def account_mark_def ad)
  have s1: "st1 = store_account (SetBalance_gas a obj) st"
    using assms(4,5) by (simp add: state_SetBalance_def getAccountObject_def)
  then have st1: "accountObjects st1 = (accountObjects st)(addr \<mapsto> obj1)" "keyed st1"
    using assms(3) o1 by (simp_all add: store_account_def setAccountObject_def MarkAccountObjectsDirty_def obj1_def split_beta keyed_def Let_def)
  have st2: "keyed st2" "accountObjectsDirty st2 = {}" "map_option ao_onDirty (accountObjects st2 addr) = Some False"
    using finalise_loop [OF st1(2) assms(6) [unfolded AccountFinalise_def]] assms(2) st1(1) o1 by auto
  then obtain obj2 where o2: "accountObjects st2 addr = Some obj2" "ao_onDirty obj2 = False" "ao_address obj2 = addr"
    by (auto simp: keyed_def)
  let ?st3 = "store_account (SetBalance_gas b obj2) st2"
  show ?thesis using o2 st2(2) assms(1)
    by (intro exI [of _ ?st3]) (simp add: state_SetBalance_def state_GetBalance_def getAccountObject_def SetBalance_gas_def setBalance_gas_def account_mark_def
        store_account_def setAccountObject_def AccountFinalise_def)
qed

lemma update_negative:
  assumes "BindSpaceId (ao_data obj) \<ge> 0" "acc_Balance (ao_data obj) < 0"
  shows "(if del \<and> account_empty obj then deleteAccountObject K db obj st else updateAccountObject K db ranges obj st) = Some Panic"
  using EncodeToBytes_negative [of "ao_data (collect_attributes ranges obj)"] assms
  by (simp add: updateAccountObject_def Let_def collect_attributes_def account_empty_def sgn_if)

lemma finalise_other:
  assumes "keyed st" "accountObjects st b = Some ob" "b \<noteq> a"
    and "(if del \<and> account_empty ob then deleteAccountObject K db ob st else updateAccountObject K db ranges ob st) = Some (Ok st')"
  shows "accountObjects st' a = accountObjects st a"
  using assms
  by (auto simp: deleteAccountObject_def updateAccountObject_def Let_def setAccountObject_def keyed_def collect_attributes_def
      split: if_splits option.splits outcome.splits)

lemma finalise_no_Err:
  "(if del \<and> account_empty obj then deleteAccountObject K db obj st else updateAccountObject K db ranges obj st) \<noteq> Some (Err e)"
  by (auto simp: deleteAccountObject_def updateAccountObject_def Let_def split: option.splits outcome.splits)

lemma finalise_negative:
  assumes "BindSpaceId (ao_data obj) \<ge> 0" "acc_Balance (ao_data obj) < 0"
  shows "keyed st \<Longrightarrow> accountObjects st a = Some obj \<Longrightarrow> a \<in> set addrs \<Longrightarrow>
    AccountFinalise_loop K db ranges del addrs st \<in> {None, Some Panic}"
proof (induction addrs arbitrary: st)
  case (Cons b addrs)
  show ?case
  proof (cases "b = a \<or> accountObjects st b = None")
    case True
    then show ?thesis using Cons.prems(2) update_negative [OF assms] by auto
  next
    case False
    then obtain ob where ob: "accountObjects st b = Some ob" "b \<noteq> a" by auto
    let ?step = "if del \<and> account_empty ob then deleteAccountObject K db ob st else updateAccountObject K db ranges ob st"
    have loop: "AccountFinalise_loop K db ranges del (b # addrs) st =
        rbind ?step (\<lambda>self. AccountFinalise_loop K db ranges del addrs (self\<lparr>accountObjectsDirty := accountObjectsDirty self - {b}\<rparr>))"
      using ob(1) by simp
    consider "?step = None" | "?step = Some Panic" | st' where "?step = Some (Ok st')"
      using finalise_no_Err [of del ob K db st ranges] by (metis not_None_eq outcome.exhaust)
    then show ?thesis
    proof cases
      case 1
      show ?thesis unfolding loop 1 by simp
    next
      case 2
      show ?thesis unfolding loop 2 by simp
    next
      case (3 st')
      let ?st = "st'\<lparr>accountObjectsDirty := accountObjectsDirty st' - {b}\<rparr>"
      have "keyed ?st" "accountObjects ?st a = Some obj" "a \<in> set addrs"
        using finalise_step [OF Cons.prems(1) ob(1) 3] finalise_other [OF Cons.prems(1) ob 3] Cons.prems(2,3) ob(2) by (auto simp: keyed_def)
      from Cons.IH [OF this] show ?thesis unfolding loop 3 by simp
    qed
  qed
qed simp

text \<open>
  C37. Taking more from a cached account than it has is accepted and keeps the state from being finalised, since a negative balance cannot be
  encoded: when the account still marks itself as changed at its first change or is marked already, finalising never returns, whatever other accounts
  are marked and in whatever order they are visited, and it panics when no other account is marked.
\<close>
theorem SubBalance_negative_panics:
  assumes "keyed st" "accountObjects st addr = Some obj" "ao_onDirty obj \<or> addr \<in> accountObjectsDirty st"
    and "set (order (insert addr (accountObjectsDirty st))) = insert addr (accountObjectsDirty st)"
    and "BindSpaceId (ao_data obj) \<ge> 0" "0 \<le> acc_Balance (ao_data obj)" "acc_Balance (ao_data obj) < amount"
  shows "\<exists>st1. state_SubBalance K db addr amount st = Some (Ok (None, st1)) \<and> AccountFinalise K db ranges order del st1 \<in> {None, Some Panic} \<and>
    (accountObjectsDirty st \<subseteq> {addr} \<longrightarrow> AccountFinalise K db ranges order del st1 = Some Panic)"
proof -
  have ad: "ao_address obj = addr" using assms(1,2) by (simp add: keyed_def)
  define obj1 where "obj1 = fst (SubBalance_gas amount obj)"
  let ?st1 = "store_account (SubBalance_gas amount obj) st"
  have o1: "SubBalance_gas amount obj = (obj1, ao_onDirty obj)" "ao_address obj1 = addr" "BindSpaceId (ao_data obj1) \<ge> 0" "acc_Balance (ao_data obj1) < 0"
    using ad assms(5-7) by (simp_all add: obj1_def SubBalance_gas_def SetBalance_gas_def setBalance_gas_def account_mark_def sgn_if)
  have st1: "keyed ?st1" "accountObjects ?st1 addr = Some obj1" "accountObjectsDirty ?st1 = insert addr (accountObjectsDirty st)"
    using assms(1,3) o1(2) unfolding o1(1) by (auto simp: store_account_def setAccountObject_def MarkAccountObjectsDirty_def keyed_def Let_def split: if_splits)
  let ?l = "order (insert addr (accountObjectsDirty st))"
  have f: "AccountFinalise K db ranges order del ?st1 = AccountFinalise_loop K db ranges del ?l ?st1"
    by (simp add: AccountFinalise_def st1(3))
  have "AccountFinalise_loop K db ranges del ?l ?st1 = Some Panic" if "accountObjectsDirty st \<subseteq> {addr}"
  proof -
    have "set ?l = {addr}" using assms(4) that by auto
    then obtain l where "?l = addr # l" by (cases ?l) auto
    then show ?thesis using st1(2) update_negative [OF o1(3,4)] by simp
  qed
  moreover have "AccountFinalise_loop K db ranges del ?l ?st1 \<in> {None, Some Panic}"
    using finalise_negative [OF o1(3,4) st1(1,2)] assms(4) by simp
  moreover have "state_SubBalance K db addr amount st = Some (Ok (None, ?st1))" using assms(2) by (simp add: state_SubBalance_def getAccountObject_def)
  ultimately show ?thesis unfolding f [symmetric] by blast
qed

text \<open>
  C38. The encoding of an account with two attributes depends on the order in which Go ranges over its map of attributes, which is random: the
  two orders are encoded differently, so that two nodes compute different roots for the same state.
\<close>
theorem account_order_matters:
  assumes "k1 \<noteq> k2" "accountAttribute obj = [k1 \<mapsto> v1, k2 \<mapsto> v2]" "account_wf (ao_data obj)"
    and "length (account_enc (ao_data (collect_attributes (\<lambda>_. [k1, k2]) obj))) < 2 ^ 64"
    and "length (account_enc (ao_data (collect_attributes (\<lambda>_. [k2, k1]) obj))) < 2 ^ 64"
  shows "\<exists>e1 e2 obj1 obj2. account_EncodeRLP (\<lambda>_. [k1, k2]) buffer_Write [] obj = ((e1, Ok ()), obj1) \<and>
    account_EncodeRLP (\<lambda>_. [k2, k1]) buffer_Write [] obj = ((e2, Ok ()), obj2) \<and> e1 \<noteq> e2"
proof -
  let ?a = "ao_data (collect_attributes (\<lambda>_. [k1, k2]) obj)" and ?b = "ao_data (collect_attributes (\<lambda>_. [k2, k1]) obj)"
  have wf: "account_wf ?a" "account_wf ?b" using assms(3) by (simp_all add: account_wf_def collect_attributes_def Let_def)
  have "Accountkey ?a \<noteq> Accountkey ?b" using assms(1) by (simp add: collect_attributes_def Let_def)
  then have "Account_val ?a \<noteq> Account_val ?b" by (metis Account_of_val)
  then have "account_enc ?a \<noteq> account_enc ?b"
    using DecodeBytes_Account [OF wf(1) assms(4)] DecodeBytes_Account [OF wf(2) assms(5)] by force
  moreover have "Encode buffer_Write [] Account_type (Account_val ?a) = (account_enc ?a, Ok ())"
    "Encode buffer_Write [] Account_type (Account_val ?b) = (account_enc ?b, Ok ())"
    using Encode_buffer [OF rlp_top_enc [OF wf(1)] assms(4), of "[]"] Encode_buffer [OF rlp_top_enc [OF wf(2)] assms(5), of "[]"] by simp_all
  ultimately show ?thesis by (simp add: account_EncodeRLP_def Let_def)
qed

section \<open>Instances\<close>

definition sample_object :: accountObject where
  "sample_object = newAccountObject [7] \<lparr>BindSpaceId = 0, acc_Balance = 5, WalletID = 1, CodeHash = [], Accountkey = [[1], [2]], AccountValue = [[3], [4]]\<rparr>"

definition sample_state :: StateDB where
  "sample_state = \<lparr>trieSpace = \<lparr>strie = empty_trie, secKeyCache = Map.empty, owned = False\<rparr>,
    trieAccount = \<lparr>strie = empty_trie, secKeyCache = Map.empty, owned = False\<rparr>, spaceObjects = Map.empty,
    accountObjects = [[7] \<mapsto> sample_object], spaceObjectsDirty = {}, accountObjectsDirty = {}, dbErr = None\<rparr>"

lemma SubBalance_negative_panics_witness:
  "\<exists>st1. state_SubBalance id None [7] 6 sample_state = Some (Ok (None, st1)) \<and> AccountFinalise id None (\<lambda>_. []) (\<lambda>_. [[7]]) True st1 = Some Panic"
proof -
  have s: "keyed sample_state" "accountObjects sample_state [7] = Some sample_object" "accountObjectsDirty sample_state = {}"
    by (simp_all add: keyed_def sample_state_def sample_object_def newAccountObject_def)
  have o: "ao_onDirty sample_object" "BindSpaceId (ao_data sample_object) = 0" "acc_Balance (ao_data sample_object) = 5"
    by (simp_all add: sample_object_def newAccountObject_def)
  show ?thesis using SubBalance_negative_panics [OF s(1,2), of "\<lambda>_. [[7]]" 6 id None "\<lambda>_. []" True] s(3) o by auto
qed

lemma account_order_matters_witness:
  "\<exists>e1 e2 obj1 obj2. account_EncodeRLP (\<lambda>_. [[1], [2]]) buffer_Write [] sample_object = ((e1, Ok ()), obj1) \<and>
    account_EncodeRLP (\<lambda>_. [[2], [1]]) buffer_Write [] sample_object = ((e2, Ok ()), obj2) \<and> e1 \<noteq> e2"
  by (rule account_order_matters [of _ _ _ "[3]" "[4]"])
    (simp_all add: sample_object_def newAccountObject_def account_wf_def account_enc_def collect_attributes_def Let_def
      rlp_list_def rlp_str_def rlp_head_def big_Bytes.simps)

lemma sample_finalise:
  "\<exists>st1 st2. state_SetBalance id (Some Map.empty) [7] 8 sample_state = Some (Ok (None, st1)) \<and> accountObjectsDirty st1 = {[7]} \<and>
    AccountFinalise id (Some Map.empty) (\<lambda>_. []) (\<lambda>D. if [7] \<in> D then [[7]] else []) True st1 = Some (Ok st2)"
proof -
  let ?t = "\<lparr>strie = empty_trie, secKeyCache = Map.empty, owned = False\<rparr>"
  let ?st = "store_account (SetBalance_gas 8 sample_object) sample_state"
  define obj where "obj = fst (SetBalance_gas 8 sample_object)"
  define d where "d = ao_data (collect_attributes (\<lambda>_. []) obj)"
  have o: "SetBalance_gas 8 sample_object = (obj, True)" "ao_address obj = [7]" "\<not> account_empty obj"
    by (simp_all add: obj_def SetBalance_gas_def setBalance_gas_def account_mark_def sample_object_def newAccountObject_def account_empty_def sgn_if)
  have "account_wf d" "length (account_enc d) < 2 ^ 64"
    by (simp_all add: d_def obj_def collect_attributes_def SetBalance_gas_def setBalance_gas_def account_mark_def sample_object_def newAccountObject_def Let_def
        account_wf_def account_enc_def rlp_list_def rlp_str_def rlp_head_def big_Bytes.simps)
  note e = EncodeToBytes_Account [OF this]
  have "Secure_repr id UNIV (cached_ok id Map.empty) Map.empty ?t Map.empty" by (rule Secure_reprI [of _ _ _ Map.empty]) (simp_all add: empty_repr)
  then obtain tr where tr: "Secure_TryUpdate id (Some Map.empty) [7] (account_enc d) ?t = Some (Ok tr)"
    using Secure_TryUpdate_repr [of id UNIV "[7]" "cached_ok id Map.empty" Map.empty ?t Map.empty "account_enc d"] by auto
  have st: "accountObjects ?st [7] = Some obj" "accountObjectsDirty ?st = {[7]}" "trieAccount ?st = ?t"
    using o(2) unfolding o(1) by (simp_all add: store_account_def setAccountObject_def MarkAccountObjectsDirty_def sample_state_def)
  have "updateAccountObject id (Some Map.empty) (\<lambda>_. []) obj ?st =
      Some (Ok (setError None (setAccountObject (collect_attributes (\<lambda>_. []) obj) ?st\<lparr>trieAccount := tr\<rparr>)))" (is "_ = Some (Ok ?st2)")
    using tr st(3) e by (simp add: updateAccountObject_def Let_def o(2) d_def setAccountObject_def)
  then have fin: "AccountFinalise id (Some Map.empty) (\<lambda>_. []) (\<lambda>D. if [7] \<in> D then [[7]] else []) True ?st =
      Some (Ok (?st2\<lparr>accountObjectsDirty := accountObjectsDirty ?st2 - {[7]}\<rparr>))"
    using o(3) st(1,2) by (simp add: AccountFinalise_def)
  have "accountObjects sample_state [7] = Some sample_object" by (simp add: sample_state_def)
  then have "state_SetBalance id (Some Map.empty) [7] 8 sample_state = Some (Ok (None, ?st))"
    by (simp add: state_SetBalance_def getAccountObject_def)
  with fin st(2) show ?thesis by blast
qed

lemma SetBalance_lost_witness:
  "\<exists>st2 st3. state_SetBalance id (Some Map.empty) [7] 9 st2 = Some (Ok (None, st3)) \<and>
    state_GetBalance id (Some Map.empty) [7] st3 = Some (Ok ((9, None), st3)) \<and> trieAccount st3 = trieAccount st2 \<and>
    AccountFinalise id (Some Map.empty) (\<lambda>_. []) (\<lambda>D. if [7] \<in> D then [[7]] else []) True st3 = Some (Ok st3)"
proof -
  obtain st1 st2 where s: "state_SetBalance id (Some Map.empty) [7] 8 sample_state = Some (Ok (None, st1))" "accountObjectsDirty st1 = {[7]}"
    "AccountFinalise id (Some Map.empty) (\<lambda>_. []) (\<lambda>D. if [7] \<in> D then [[7]] else []) True st1 = Some (Ok st2)"
    using sample_finalise by blast
  have "keyed sample_state" "accountObjects sample_state [7] = Some sample_object"
    by (simp_all add: keyed_def sample_state_def sample_object_def newAccountObject_def)
  from SetBalance_lost [OF _ _ this s(1,3), of 9] s(2) show ?thesis by auto
qed

end
