(* ===== verification/StateMap.thy ===== *)
theory StateMap
  imports StateSpec
begin

text \<open>
  The state as a map of accounts. The abstract account is the record without the two lists that hold the attributes in the encoding, together
  with the map of attributes. As long as the state is not finalised in between, the operations on balances are those of
  the map, and finalising writes the accounts to the trie.
\<close>

type_synonym account_abs = "Account \<times> (bytes \<rightharpoonup> bytes)"

definition abs_obj :: "accountObject \<Rightarrow> account_abs" where
  "abs_obj obj = ((ao_data obj)\<lparr>Accountkey := [], AccountValue := []\<rparr>, accountAttribute obj)"

definition stored_account :: "bytes \<Rightarrow> account_abs \<Rightarrow> bool" where
  "stored_account b x \<longleftrightarrow> b \<noteq> [] \<and> (\<exists>a. DecodeBytes b Account_type = Ok (Account_val a) \<and> abs_obj (newAccountObject [] a) = x)"

definition addr_ok :: "StateDB \<Rightarrow> (bytes \<rightharpoonup> bytes) \<Rightarrow> (bytes \<rightharpoonup> account_abs) \<Rightarrow> bytes \<Rightarrow> bool" where
  "addr_ok st m A addr \<longleftrightarrow>
    (case accountObjects st addr of
       None \<Rightarrow> rel_option stored_account (m addr) (A addr)
     | Some obj \<Rightarrow> A addr = Some (abs_obj obj) \<and>
         (addr \<in> accountObjectsDirty st \<or> ao_onDirty obj \<and> rel_option stored_account (m addr) (A addr)))"

definition state_repr :: "(bytes \<Rightarrow> bytes) \<Rightarrow> bytes set \<Rightarrow> (bool \<Rightarrow> bytes option \<Rightarrow> bool \<Rightarrow> node \<Rightarrow> bool) \<Rightarrow> reader \<Rightarrow> (bytes \<rightharpoonup> bytes) \<Rightarrow>
    StateDB \<Rightarrow> (bytes \<rightharpoonup> account_abs) \<Rightarrow> bool" where
  "state_repr K S H G m st A \<longleftrightarrow> keyed st \<and> accountObjectsDirty st \<subseteq> S \<and> accountObjectsDirty st \<subseteq> dom (accountObjects st) \<and>
    Secure_repr K S H G (trieAccount st) m \<and> (\<forall>addr \<in> S. addr_ok st m A addr)"

lemma state_reprE:
  assumes "state_repr K S H G m st A"
  obtains "Secure_repr K S H G (trieAccount st) m" "\<And>addr. addr \<in> S \<Longrightarrow> addr_ok st m A addr"
    "keyed st" "accountObjectsDirty st \<subseteq> S" "accountObjectsDirty st \<subseteq> dom (accountObjects st)"
  using assms unfolding state_repr_def by blast

lemma state_reprI:
  "Secure_repr K S H G (trieAccount st) m \<Longrightarrow> (\<And>addr. addr \<in> S \<Longrightarrow> addr_ok st m A addr) \<Longrightarrow> keyed st \<Longrightarrow>
    accountObjectsDirty st \<subseteq> S \<Longrightarrow> accountObjectsDirty st \<subseteq> dom (accountObjects st) \<Longrightarrow> state_repr K S H G m st A"
  unfolding state_repr_def by blast

lemma abs_newAccountObject: "abs_obj (newAccountObject addr a) = abs_obj (newAccountObject [] a)"
  by (simp add: abs_obj_def newAccountObject_def)

lemma getAccountObject_repr:
  assumes "addr \<in> S" "state_repr K S H G m st A"
  obtains st' where "getAccountObject K (Some G) addr st = Some (Ok ((accountObjects st' addr, None), st'))" "state_repr K S H G m st' A"
    "accountObjectsDirty st' = accountObjectsDirty st" "map_option abs_obj (accountObjects st' addr) = A addr"
proof -
  have m: "Secure_repr K S H G (trieAccount st) m" and r: "\<And>addr. addr \<in> S \<Longrightarrow> addr_ok st m A addr"
    and k: "keyed st" "accountObjectsDirty st \<subseteq> S" "accountObjectsDirty st \<subseteq> dom (accountObjects st)" using state_reprE [OF assms(2)] by blast+
  show thesis
  proof (cases "accountObjects st addr")
    case (Some obj)
    then show ?thesis using that [of st] assms(2) r [OF assms(1)] by (simp add: getAccountObject_def addr_ok_def)
  next
    case None
  obtain tr where tr: "Secure_TryGet K (Some G) addr (trieAccount st) = Some (Ok (m addr, tr))" "Secure_repr K S H G tr m"
    using Secure_TryGet_repr [OF assms(1) m] by blast
  have rm: "rel_option stored_account (m addr) (A addr)" using r [OF assms(1)] None by (simp add: addr_ok_def)
  show ?thesis
  proof (cases "m addr")
    case None
    let ?st = "setError None (st\<lparr>trieAccount := tr\<rparr>)"
    have "state_repr K S H G m ?st A"
      by (rule state_reprI) (use k tr(2) r in \<open>simp_all add: keyed_def addr_ok_def cong: option.case_cong\<close>)
    then show ?thesis using that [of ?st] tr(1) None rm \<open>accountObjects st addr = None\<close> by (simp add: getAccountObject_def)
  next
    case (Some b)
    then obtain x a where x: "A addr = Some x" "b \<noteq> []" "DecodeBytes b Account_type = Ok (Account_val a)" "abs_obj (newAccountObject [] a) = x"
      using rm by (auto simp: stored_account_def option_rel_Some1)
    let ?obj = "newAccountObject addr a"
    let ?st = "setAccountObject ?obj (st\<lparr>trieAccount := tr\<rparr>)"
    have ob: "ao_address ?obj = addr" "ao_onDirty ?obj" "abs_obj ?obj = x"
      using x(4) abs_newAccountObject [of addr a] by (simp_all add: newAccountObject_def)
    have "addr_ok ?st m A a'" if "a' \<in> S" for a'
      using r [OF that] ob rm x(1) by (cases "a' = addr") (auto simp: setAccountObject_def addr_ok_def cong: option.case_cong)
    then have "state_repr K S H G m ?st A"
      by (intro state_reprI) (use k tr(2) ob in \<open>auto simp: keyed_def setAccountObject_def\<close>)
    then show ?thesis using that [of ?st] tr(1) Some x ob \<open>accountObjects st addr = None\<close>
      by (simp add: getAccountObject_def Account_of_val setAccountObject_def Let_def)
  qed
qed
qed

lemma store_repr:
  assumes "state_repr K S H G m st A" "addr \<in> S" "accountObjects st addr = Some obj" "ao_address obj' = addr" "ao_onDirty obj' = ao_onDirty obj"
  shows "state_repr K S H G m (store_account (account_mark obj') st) (A(addr \<mapsto> abs_obj obj'))"
    "accountObjectsDirty (store_account (account_mark obj') st) = insert addr (accountObjectsDirty st)"
proof -
  let ?st = "store_account (account_mark obj') st" and ?o = "fst (account_mark obj')"
  have m: "Secure_repr K S H G (trieAccount st) m" and r: "\<And>addr. addr \<in> S \<Longrightarrow> addr_ok st m A addr"
    and k: "keyed st" "accountObjectsDirty st \<subseteq> S" "accountObjectsDirty st \<subseteq> dom (accountObjects st)" using state_reprE [OF assms(1)] by blast+
  have st: "trieAccount ?st = trieAccount st" "accountObjects ?st = (accountObjects st)(addr \<mapsto> ?o)"
    "accountObjectsDirty ?st = (if ao_onDirty obj' then insert addr (accountObjectsDirty st) else accountObjectsDirty st)"
    using assms(4) by (simp_all add: store_account_def setAccountObject_def MarkAccountObjectsDirty_def account_mark_def)
  have ob: "abs_obj ?o = abs_obj obj'" "ao_address ?o = addr" using assms(4) by (simp_all add: abs_obj_def account_mark_def)
  have d: "addr \<in> accountObjectsDirty ?st" using r [OF assms(2)] assms(3,5) by (auto simp: st(3) addr_ok_def)
  have "addr_ok ?st m (A(addr \<mapsto> abs_obj obj')) a" if "a \<in> S" for a
    using r [OF that] ob d by (cases "a = addr") (auto simp: st(2,3) addr_ok_def split: option.splits)
  then show "state_repr K S H G m ?st (A(addr \<mapsto> abs_obj obj'))"
    by (intro state_reprI) (use k assms(2) m ob in \<open>auto simp: keyed_def st\<close>)
  show "accountObjectsDirty ?st = insert addr (accountObjectsDirty st)" using d by (auto simp: st(3))
qed

section \<open>Sequences of operations on balances\<close>

datatype bal_op = GetB bytes | SetB bytes int | AddB bytes int | SubB bytes int

fun bal_addr :: "bal_op \<Rightarrow> bytes" where
  "bal_addr (GetB a) = a" | "bal_addr (SetB a x) = a" | "bal_addr (AddB a x) = a" | "bal_addr (SubB a x) = a"

fun bal_marks :: "bal_op \<Rightarrow> bool" where
  "bal_marks (GetB a) \<longleftrightarrow> False" | "bal_marks (SetB a x) \<longleftrightarrow> True" | "bal_marks (AddB a x) \<longleftrightarrow> x \<noteq> 0" | "bal_marks (SubB a x) \<longleftrightarrow> x \<noteq> 0"

text \<open>The accounts that a sequence of operations sets: those that exist and whose balance is set, or has a nonzero amount added or taken.\<close>

definition changed :: "bal_op list \<Rightarrow> (bytes \<rightharpoonup> account_abs) \<Rightarrow> bytes set" where
  "changed ops A = {a. A a \<noteq> None \<and> (\<exists>oper \<in> set ops. bal_addr oper = a \<and> bal_marks oper)}"

text \<open>The operations of the state; the result of a lookup is the balance, that of a change is nothing.\<close>

definition exec_bal :: "(bytes \<Rightarrow> bytes) \<Rightarrow> reader option \<Rightarrow> bal_op \<Rightarrow> StateDB \<Rightarrow> (int option \<times> state_error option) stated" where
  "exec_bal K db oper st =
    (case oper of
       GetB a \<Rightarrow> rbind (state_GetBalance K db a st) (\<lambda>((b, e), st). Some (Ok ((Some b, e), st)))
     | SetB a x \<Rightarrow> rbind (state_SetBalance K db a x st) (\<lambda>(e, st). Some (Ok ((None, e), st)))
     | AddB a x \<Rightarrow> rbind (state_AddBalance K db a x st) (\<lambda>(e, st). Some (Ok ((None, e), st)))
     | SubB a x \<Rightarrow> rbind (state_SubBalance K db a x st) (\<lambda>(e, st). Some (Ok ((None, e), st))))"

primrec exec_bals :: "(bytes \<Rightarrow> bytes) \<Rightarrow> reader option \<Rightarrow> bal_op list \<Rightarrow> StateDB \<Rightarrow> (int option \<times> state_error option) list stated" where
  "exec_bals K db [] st = Some (Ok ([], st))"
| "exec_bals K db (oper # ops) st =
    rbind (exec_bal K db oper st) (\<lambda>(r, st). rbind (exec_bals K db ops st) (\<lambda>(rs, st). Some (Ok (r # rs, st))))"

text \<open>The same on the map.\<close>

definition balance_in :: "(bytes \<rightharpoonup> account_abs) \<Rightarrow> bytes \<Rightarrow> int" where
  "balance_in A a = (case A a of None \<Rightarrow> 0 | Some x \<Rightarrow> acc_Balance (fst x))"

definition with_balance :: "(bytes \<rightharpoonup> account_abs) \<Rightarrow> bytes \<Rightarrow> int \<Rightarrow> (bytes \<rightharpoonup> account_abs)" where
  "with_balance A a x = A(a := map_option (\<lambda>(acc, at). (acc\<lparr>acc_Balance := x\<rparr>, at)) (A a))"

fun spec_bal :: "bal_op \<Rightarrow> (bytes \<rightharpoonup> account_abs) \<Rightarrow> int option \<times> (bytes \<rightharpoonup> account_abs)" where
  "spec_bal (GetB a) A = (Some (balance_in A a), A)"
| "spec_bal (SetB a x) A = (None, with_balance A a x)"
| "spec_bal (AddB a x) A = (None, with_balance A a (balance_in A a + x))"
| "spec_bal (SubB a x) A = (None, with_balance A a (balance_in A a - x))"

primrec spec_bals :: "bal_op list \<Rightarrow> (bytes \<rightharpoonup> account_abs) \<Rightarrow> int option list \<times> (bytes \<rightharpoonup> account_abs)" where
  "spec_bals [] A = ([], A)"
| "spec_bals (oper # ops) A = (case spec_bal oper A of (r, A) \<Rightarrow> (case spec_bals ops A of (rs, A) \<Rightarrow> (r # rs, A)))"

lemma SetBalance_gas_mark: "SetBalance_gas x obj = account_mark (obj\<lparr>ao_data := (ao_data obj)\<lparr>acc_Balance := x\<rparr>\<rparr>)"
  by (simp add: SetBalance_gas_def setBalance_gas_def)

lemma change_repr:
  assumes "state_repr K S H G m st A" "a \<in> S" "accountObjects st a = Some obj"
  shows "state_repr K S H G m (store_account (SetBalance_gas x obj) st) (with_balance A a x)"
    "accountObjectsDirty (store_account (SetBalance_gas x obj) st) = insert a (accountObjectsDirty st)"
proof -
  have A: "A a = Some (abs_obj obj)" and ad: "ao_address obj = a" using assms by (auto elim!: state_reprE simp: addr_ok_def keyed_def)
  have "with_balance A a x = A(a \<mapsto> abs_obj (obj\<lparr>ao_data := (ao_data obj)\<lparr>acc_Balance := x\<rparr>\<rparr>))" by (cases "ao_data obj") (simp add: with_balance_def A abs_obj_def)
  then show "state_repr K S H G m (store_account (SetBalance_gas x obj) st) (with_balance A a x)"
    "accountObjectsDirty (store_account (SetBalance_gas x obj) st) = insert a (accountObjectsDirty st)"
    using store_repr [OF assms, of "obj\<lparr>ao_data := (ao_data obj)\<lparr>acc_Balance := x\<rparr>\<rparr>"] ad by (simp_all add: SetBalance_gas_mark)
qed

lemma with_balance_same: "with_balance A a (balance_in A a) = A"
  by (auto simp: with_balance_def balance_in_def fun_eq_iff split: option.splits)

lemma with_balance_dom: "with_balance A a x b = None \<longleftrightarrow> A b = None"
  by (simp add: with_balance_def)

lemma spec_bal_dom: "snd (spec_bal oper A) b = None \<longleftrightarrow> A b = None"
  by (cases oper) (simp_all add: with_balance_dom)

lemma spec_bal_other: "b \<notin> changed [oper] A \<Longrightarrow> snd (spec_bal oper A) b = A b"
  by (cases oper; cases "A b") (auto simp: changed_def with_balance_def balance_in_def)

lemma changed_Cons: "changed (oper # ops) A = changed [oper] A \<union> changed ops (snd (spec_bal oper A))"
  by (auto simp: changed_def spec_bal_dom)

lemma spec_bals_other: "b \<notin> changed ops A \<Longrightarrow> snd (spec_bals ops A) b = A b"
proof (induction ops arbitrary: A)
  case (Cons oper ops)
  then have "b \<notin> changed [oper] A" "b \<notin> changed ops (snd (spec_bal oper A))" by (auto simp: changed_Cons [of oper ops])
  then show ?case using Cons.IH spec_bal_other by (simp add: split_beta)
qed simp

lemma exec_bal_repr:
  assumes "state_repr K S H G m st A" "bal_addr oper \<in> S"
  shows "\<exists>st'. exec_bal K (Some G) oper st = Some (Ok ((fst (spec_bal oper A), None), st')) \<and> state_repr K S H G m st' (snd (spec_bal oper A)) \<and>
    accountObjectsDirty st' = changed [oper] A \<union> accountObjectsDirty st"
proof -
  obtain st1 where g: "getAccountObject K (Some G) (bal_addr oper) st = Some (Ok ((accountObjects st1 (bal_addr oper), None), st1))"
    and st1: "state_repr K S H G m st1 A" "accountObjectsDirty st1 = accountObjectsDirty st"
    and ab: "map_option abs_obj (accountObjects st1 (bal_addr oper)) = A (bal_addr oper)"
    by (rule getAccountObject_repr [OF assms(2,1)])
  show ?thesis
  proof (cases "accountObjects st1 (bal_addr oper)")
    case None
    then have "with_balance A (bal_addr oper) x = A" "balance_in A (bal_addr oper) = 0" "changed [oper] A = {}" for x
      using ab by (auto simp: with_balance_def balance_in_def changed_def)
    then show ?thesis using g None st1
      by (intro exI [of _ st1])
        (cases oper; simp add: exec_bal_def state_GetBalance_def state_SetBalance_def state_AddBalance_def state_SubBalance_def)
  next
    case (Some obj)
    then have A: "A (bal_addr oper) = Some (abs_obj obj)" using ab by simp
    then have bal: "balance_in A (bal_addr oper) = acc_Balance (ao_data obj)" by (simp add: balance_in_def abs_obj_def)
    have chg: "changed [oper] A = (if bal_marks oper then {bal_addr oper} else {})" using A by (auto simp: changed_def)
    note ch = change_repr [OF st1(1) assms(2) Some]
    have same: "store_account (obj, False) st1 = st1"
      using Some st1(1) by (simp add: store_account_def setAccountObject_def state_repr_def keyed_def fun_upd_idem)
    show ?thesis
    proof (cases oper)
      case (GetB a)
      then show ?thesis using g Some st1 bal chg by (simp add: exec_bal_def state_GetBalance_def)
    next
      case (SetB a x)
      then show ?thesis using g Some ch [of x] st1(2) chg by (simp add: exec_bal_def state_SetBalance_def)
    next
      case (AddB a x)
      then show ?thesis using g Some ch [of "acc_Balance (ao_data obj) + x"] st1 chg same bal with_balance_same [of A a]
        by (cases "x = 0") (simp_all add: exec_bal_def state_AddBalance_def AddBalance_gas_def sgn_if)
    next
      case (SubB a x)
      then show ?thesis using g Some ch [of "acc_Balance (ao_data obj) - x"] st1 chg same bal with_balance_same [of A a]
        by (cases "x = 0") (simp_all add: exec_bal_def state_SubBalance_def SubBalance_gas_def sgn_if)
    qed
  qed
qed

lemma exec_bals_repr:
  "state_repr K S H G m st A \<Longrightarrow> bal_addr ` set ops \<subseteq> S \<Longrightarrow>
    \<exists>st'. exec_bals K (Some G) ops st = Some (Ok (map (\<lambda>r. (r, None)) (fst (spec_bals ops A)), st')) \<and>
      state_repr K S H G m st' (snd (spec_bals ops A)) \<and> accountObjectsDirty st' = changed ops A \<union> accountObjectsDirty st"
proof (induction ops arbitrary: st A)
  case (Cons oper ops)
  obtain st1 where s1: "exec_bal K (Some G) oper st = Some (Ok ((fst (spec_bal oper A), None), st1))"
    "state_repr K S H G m st1 (snd (spec_bal oper A))" "accountObjectsDirty st1 = changed [oper] A \<union> accountObjectsDirty st"
    using exec_bal_repr [OF Cons.prems(1), of oper] Cons.prems(2) by auto
  from Cons.IH [OF s1(2)] Cons.prems(2) obtain st2 where s2: "exec_bals K (Some G) ops st1 = Some (Ok (map (\<lambda>r. (r, None)) (fst (spec_bals ops (snd (spec_bal oper A)))), st2))"
    "state_repr K S H G m st2 (snd (spec_bals ops (snd (spec_bal oper A))))" "accountObjectsDirty st2 = changed ops (snd (spec_bal oper A)) \<union> accountObjectsDirty st1"
    by auto
  then show ?case using s1 by (simp add: split_beta changed_Cons [of oper ops] Un_ac)
qed (simp add: changed_def)

section \<open>Finalising writes the accounts\<close>

definition abs_empty :: "account_abs \<Rightarrow> bool" where
  "abs_empty x \<longleftrightarrow> BindSpaceId (fst x) = 0 \<and> acc_Balance (fst x) = 0 \<and> snd x = Map.empty"

text \<open>What the trie holds for an account after finalising: its encoding, or nothing when it is empty and empty accounts are deleted.\<close>

definition written :: "bool \<Rightarrow> bytes option \<Rightarrow> account_abs option \<Rightarrow> bool" where
  "written del v x \<longleftrightarrow>
    (case x of
       None \<Rightarrow> v = None
     | Some y \<Rightarrow> if del \<and> abs_empty y then v = None else \<exists>b. v = Some b \<and> stored_account b y)"

definition account_fits :: "((bytes \<rightharpoonup> bytes) \<Rightarrow> bytes list) \<Rightarrow> account_abs \<Rightarrow> bool" where
  "account_fits ranges x \<longleftrightarrow>
    (case x of (a, at) \<Rightarrow>
       (let a' = a\<lparr>Accountkey := ranges at, AccountValue := map (\<lambda>k. the (at k)) (ranges at)\<rparr>
        in account_wf a' \<and> length (account_enc a') < 2 ^ 64 \<and> set (ranges at) = dom at))"

lemma attributes_back: "fold (\<lambda>(k, v) m. m(k \<mapsto> v)) (zip ks (map (\<lambda>k. the (f k)) ks)) m x = (if x \<in> set ks then Some (the (f x)) else m x)"
  by (induction ks arbitrary: m) auto

lemma abs_collect:
  assumes "set (ranges (accountAttribute obj)) = dom (accountAttribute obj)"
  shows "abs_obj (newAccountObject [] (ao_data (collect_attributes ranges obj))) = abs_obj obj"
proof -
  have "fold (\<lambda>(k, v) m. m(k \<mapsto> v)) (zip (ranges (accountAttribute obj)) (map (\<lambda>k. the (accountAttribute obj k)) (ranges (accountAttribute obj)))) Map.empty
      = accountAttribute obj"
    using assms by (auto simp: fun_eq_iff attributes_back domIff)
  then show ?thesis by (simp add: abs_obj_def newAccountObject_def collect_attributes_def Let_def)
qed

lemma stored_update:
  assumes "account_fits ranges (abs_obj obj)"
  obtains b where "EncodeToBytes (TEnc False Account_type) (VEnc (Account_val (ao_data (collect_attributes ranges obj)))) = Ok b"
    "stored_account b (abs_obj obj)"
proof -
  let ?d = "ao_data (collect_attributes ranges obj)"
  have "?d = (fst (abs_obj obj))\<lparr>Accountkey := ranges (accountAttribute obj), AccountValue := map (\<lambda>k. the (accountAttribute obj k)) (ranges (accountAttribute obj))\<rparr>"
    by (cases "ao_data obj") (simp add: collect_attributes_def abs_obj_def Let_def)
  then have d: "account_wf ?d" "length (account_enc ?d) < 2 ^ 64" "set (ranges (accountAttribute obj)) = dom (accountAttribute obj)"
    using assms by (simp_all add: account_fits_def abs_obj_def Let_def)
  have "account_enc ?d \<noteq> []" by (simp add: account_enc_def rlp_list_nonempty)
  then have "stored_account (account_enc ?d) (abs_obj obj)"
    using DecodeBytes_Account [OF d(1,2)] abs_collect [of ranges obj, OF d(3)] by (auto simp: stored_account_def)
  then show thesis using EncodeToBytes_Account [OF d(1,2)] that by blast
qed

definition loop_ok :: "bytes set \<Rightarrow> bytes list \<Rightarrow> StateDB \<Rightarrow> (bytes \<rightharpoonup> account_abs) \<Rightarrow> bool" where
  "loop_ok S addrs st A \<longleftrightarrow> keyed st \<and> set addrs \<subseteq> S \<and> distinct addrs \<and>
    (\<forall>a \<in> set addrs. \<exists>obj. accountObjects st a = Some obj \<and> A a = Some (abs_obj obj))"

lemma finalise_one:
  assumes "inj_on K S" "Secure_repr K S H G (trieAccount st) m" "loop_ok S (addr # addrs) st A" "accountObjects st addr = Some obj"
    and "account_fits ranges (abs_obj obj)"
  shows "\<exists>st' m'. (if del \<and> account_empty obj then deleteAccountObject K (Some G) obj st else updateAccountObject K (Some G) ranges obj st) = Some (Ok st') \<and>
    Secure_repr K S H G (trieAccount st') m' \<and> loop_ok S addrs st' A \<and> written del (m' addr) (A addr) \<and> (\<forall>a. a \<noteq> addr \<longrightarrow> m' a = m a)"
proof -
  have ob: "ao_address obj = addr" "addr \<in> S" "A addr = Some (abs_obj obj)" using assms(3,4) by (auto simp: loop_ok_def keyed_def)
  have em: "account_empty obj \<longleftrightarrow> abs_empty (abs_obj obj)" by (auto simp: abs_empty_def abs_obj_def account_empty_def sgn_if)
  show ?thesis
  proof (cases "del \<and> account_empty obj")
    case True
    obtain tr where tr: "Secure_TryDelete K (Some G) addr (trieAccount st) = Some (Ok tr)" "Secure_repr K S H G tr (m(addr := None))"
      using Secure_TryDelete_repr [OF assms(1) ob(2) assms(2)] by blast
    let ?st = "setError None (st\<lparr>trieAccount := tr\<rparr>)"
    have "written del None (A addr)" using True em ob(3) by (simp add: written_def)
    moreover have "loop_ok S addrs ?st A" using assms(3) by (auto simp: loop_ok_def keyed_def)
    ultimately show ?thesis using True tr ob(1)
      by (intro exI [of _ ?st] exI [of _ "m(addr := None)"]) (simp add: deleteAccountObject_def)
  next
    case False
    obtain b where b: "EncodeToBytes (TEnc False Account_type) (VEnc (Account_val (ao_data (collect_attributes ranges obj)))) = Ok b"
      "stored_account b (abs_obj obj)" using stored_update [OF assms(5)] .
    obtain tr where tr: "Secure_TryUpdate K (Some G) addr b (trieAccount st) = Some (Ok tr)" "Secure_repr K S H G tr (m(addr := stored_bytes b))"
      using Secure_TryUpdate_repr [OF assms(1) ob(2) assms(2)] by blast
    let ?st = "setError None ((setAccountObject (collect_attributes ranges obj) st)\<lparr>trieAccount := tr\<rparr>)"
    have "written del (stored_bytes b) (A addr)" using b(2) ob(3) False em by (auto simp: written_def stored_bytes_def stored_account_def)
    moreover have "loop_ok S addrs ?st A"
      using assms(3) ob(1) by (auto simp: loop_ok_def keyed_def setAccountObject_def collect_attributes_def Let_def)
    ultimately show ?thesis using False tr ob(1) b(1)
      by (intro exI [of _ ?st] exI [of _ "m(addr := stored_bytes b)"]) (auto simp: updateAccountObject_def Let_def setAccountObject_def)
  qed
qed

lemma finalise_written:
  assumes "inj_on K S" "\<And>a x. a \<in> D \<Longrightarrow> A a = Some x \<Longrightarrow> account_fits ranges x"
  shows "Secure_repr K S H G (trieAccount st) m \<Longrightarrow> loop_ok S addrs st A \<Longrightarrow> set addrs \<subseteq> D \<Longrightarrow>
    \<exists>st' m'. AccountFinalise_loop K (Some G) ranges del addrs st = Some (Ok st') \<and> Secure_repr K S H G (trieAccount st') m' \<and>
      (\<forall>a. if a \<in> set addrs then written del (m' a) (A a) else m' a = m a)"
proof (induction addrs arbitrary: st m)
  case (Cons addr addrs)
  then obtain obj where o: "accountObjects st addr = Some obj" "A addr = Some (abs_obj obj)" "addr \<in> D" by (auto simp: loop_ok_def)
  obtain st1 m1 where s1: "(if del \<and> account_empty obj then deleteAccountObject K (Some G) obj st else updateAccountObject K (Some G) ranges obj st) = Some (Ok st1)"
    "Secure_repr K S H G (trieAccount st1) m1" "loop_ok S addrs st1 A" "written del (m1 addr) (A addr)" "\<forall>a. a \<noteq> addr \<longrightarrow> m1 a = m a"
    using finalise_one [OF assms(1) Cons.prems(1,2) o(1) assms(2) [OF o(3,2)]] by blast
  let ?st = "st1\<lparr>accountObjectsDirty := accountObjectsDirty st1 - {addr}\<rparr>"
  have "Secure_repr K S H G (trieAccount ?st) m1" "loop_ok S addrs ?st A" "set addrs \<subseteq> D"
    using s1(2,3) Cons.prems(3) by (simp_all add: loop_ok_def keyed_def)
  from Cons.IH [OF this] obtain st2 m2 where s2: "AccountFinalise_loop K (Some G) ranges del addrs ?st = Some (Ok st2)"
    "Secure_repr K S H G (trieAccount st2) m2" "\<forall>a. if a \<in> set addrs then written del (m2 a) (A a) else m2 a = m1 a" by blast
  have "addr \<notin> set addrs" using Cons.prems(2) by (simp add: loop_ok_def)
  then have "\<forall>a. if a \<in> set (addr # addrs) then written del (m2 a) (A a) else m2 a = m a" using s1(4,5) s2(3) by (metis set_ConsD list.set_intros)
  then show ?case using s1(1) o(1) s2(1,2) by auto
qed auto

text \<open>
  C35. The state is a map of accounts: on a state that was just opened on a trie holding the accounts \<open>A\<close>, every sequence of lookups and changes
  of balances returns without error and with the balances of the map. Finalising then writes the changed accounts, those that exist and
  whose balance was set or had a nonzero amount added or taken, provided each of them can be encoded in the end: its balance and the number of its
  space are not negative, which \<open>SubBalance\<close> does not ensure, and its encoding has less than 2 to the 64 bytes. For a changed account the trie then holds an
  encoding from which it is read back, or nothing when the account is empty and empty accounts are deleted; the entry of every other account is
  the one from before. The order of ranging over the maps does not matter for this.
\<close>
theorem State_balances_written:
  assumes "inj_on K S" "bal_addr ` set ops \<subseteq> S" "accountObjects st = Map.empty" "accountObjectsDirty st = {}"
    and "Secure_repr K S H G (trieAccount st) m" "\<forall>a \<in> S. rel_option stored_account (m a) (A a)"
    and "\<forall>a \<in> changed ops A. \<forall>x. snd (spec_bals ops A) a = Some x \<longrightarrow> account_fits ranges x"
    and "set (order (changed ops A)) = changed ops A" "distinct (order (changed ops A))"
  shows "\<exists>st1 st2 m'. exec_bals K (Some G) ops st = Some (Ok (map (\<lambda>r. (r, None)) (fst (spec_bals ops A)), st1)) \<and>
    AccountFinalise K (Some G) ranges order del st1 = Some (Ok st2) \<and> Secure_repr K S H G (trieAccount st2) m' \<and>
    (\<forall>a. if a \<in> changed ops A then written del (m' a) (snd (spec_bals ops A) a) else m' a = m a \<and> snd (spec_bals ops A) a = A a)"
proof -
  let ?A = "snd (spec_bals ops A)"
  have "state_repr K S H G m st A"
    by (rule state_reprI [OF assms(5)]) (use assms(3,4,6) in \<open>simp_all add: addr_ok_def keyed_def\<close>)
  then obtain st1 where st1: "exec_bals K (Some G) ops st = Some (Ok (map (\<lambda>r. (r, None)) (fst (spec_bals ops A)), st1))"
    "state_repr K S H G m st1 ?A" "accountObjectsDirty st1 = changed ops A"
    using exec_bals_repr [OF _ assms(2)] assms(4) by force
  have m1: "Secure_repr K S H G (trieAccount st1) m" "\<And>addr. addr \<in> S \<Longrightarrow> addr_ok st1 m ?A addr"
    "keyed st1" "accountObjectsDirty st1 \<subseteq> S" "accountObjectsDirty st1 \<subseteq> dom (accountObjects st1)" using state_reprE [OF st1(2)] by blast+
  have "\<exists>obj. accountObjects st1 a = Some obj \<and> ?A a = Some (abs_obj obj)" if d: "a \<in> accountObjectsDirty st1" for a
  proof -
    have "a \<in> S" using m1(4) d by blast
    moreover obtain obj where "accountObjects st1 a = Some obj" using m1(5) d by blast
    ultimately show ?thesis using m1(2) [of a] by (simp add: addr_ok_def)
  qed
  then have "loop_ok S (order (changed ops A)) st1 ?A" using m1(3,4) assms(8,9) st1(3) by (simp add: loop_ok_def)
  from finalise_written [OF assms(1) _ m1(1) this, of "changed ops A" ranges del] assms(7,8) obtain st2 m'
    where "AccountFinalise K (Some G) ranges order del st1 = Some (Ok st2)" "Secure_repr K S H G (trieAccount st2) m'"
      "\<forall>a. if a \<in> changed ops A then written del (m' a) (?A a) else m' a = m a"
    unfolding AccountFinalise_def st1(3) by auto
  then show ?thesis using st1(1) spec_bals_other [of _ ops A] by (intro exI conjI) auto
qed

definition sample_account :: Account where
  "sample_account = \<lparr>BindSpaceId = 0, acc_Balance = 5, WalletID = 1, CodeHash = [], Accountkey = [], AccountValue = []\<rparr>"

lemma State_balances_written_witness:
  "\<exists>st st1 st2 m'. exec_bals id (Some Map.empty) [AddB [7] 3, GetB [7]] st = Some (Ok ([(None, None), (Some 8, None)], st1)) \<and>
    AccountFinalise id (Some Map.empty) (\<lambda>_. []) (\<lambda>D. if [7] \<in> D then [[7]] else []) True st1 = Some (Ok st2) \<and>
    Secure_repr id UNIV (cached_ok id Map.empty) Map.empty (trieAccount st2) m' \<and>
    (\<exists>b. m' [7] = Some b \<and> stored_account b (sample_account\<lparr>acc_Balance := 8\<rparr>, Map.empty)) \<and> m' [8] = None"
proof -
  let ?H = "cached_ok id Map.empty" and ?t = "\<lparr>strie = empty_trie, secKeyCache = Map.empty, owned = False\<rparr>" and ?b = "account_enc sample_account"
  let ?A = "[[7] \<mapsto> (sample_account, Map.empty)] :: bytes \<rightharpoonup> account_abs"
  have "Secure_repr id UNIV ?H Map.empty ?t Map.empty" by (rule Secure_reprI [of _ _ _ Map.empty]) (simp_all add: empty_repr)
  then obtain tr where tr: "Secure_repr id UNIV ?H Map.empty tr (Map.empty([7] := stored_bytes ?b))"
    using Secure_TryUpdate_repr [of id UNIV "[7]" ?H Map.empty ?t Map.empty ?b] by auto
  define st where "st = sample_state\<lparr>accountObjects := Map.empty, trieAccount := tr\<rparr>"
  have tr': "Secure_repr id UNIV ?H Map.empty (trieAccount st) (Map.empty([7] := stored_bytes ?b))" using tr by (simp add: st_def)
  have wf: "account_wf sample_account" "length ?b < 2 ^ 64"
    by (simp_all add: sample_account_def account_wf_def account_enc_def rlp_list_def rlp_str_def rlp_head_def big_Bytes.simps)
  have "?b \<noteq> []" by (simp add: account_enc_def rlp_list_nonempty)
  then have b: "stored_bytes ?b = Some ?b" "stored_account ?b (sample_account, Map.empty)"
    using DecodeBytes_Account [OF wf] by (auto simp: stored_bytes_def stored_account_def abs_obj_def newAccountObject_def sample_account_def)
  have sp: "spec_bals [AddB [7] 3, GetB [7]] ?A = ([None, Some 8], [[7] \<mapsto> (sample_account\<lparr>acc_Balance := 8\<rparr>, Map.empty)])"
    by (simp add: with_balance_def balance_in_def sample_account_def)
  have f: "account_fits (\<lambda>_. []) (sample_account\<lparr>acc_Balance := 8\<rparr>, Map.empty)"
    by (simp add: account_fits_def sample_account_def account_wf_def account_enc_def rlp_list_def rlp_str_def rlp_head_def big_Bytes.simps Let_def)
  have c: "changed [AddB [7] 3, GetB [7]] ?A = {[7]}" by (auto simp: changed_def)
  have f': "\<forall>a \<in> changed [AddB [7] 3, GetB [7]] ?A. \<forall>x. snd (spec_bals [AddB [7] 3, GetB [7]] ?A) a = Some x \<longrightarrow> account_fits (\<lambda>_. []) x"
    unfolding sp c using f by simp
  have "\<exists>st1 st2 m'. exec_bals id (Some Map.empty) [AddB [7] 3, GetB [7]] st = Some (Ok (map (\<lambda>r. (r, None)) (fst (spec_bals [AddB [7] 3, GetB [7]] ?A)), st1)) \<and>
    AccountFinalise id (Some Map.empty) (\<lambda>_. []) (\<lambda>D. if [7] \<in> D then [[7]] else []) True st1 = Some (Ok st2) \<and>
    Secure_repr id UNIV ?H Map.empty (trieAccount st2) m' \<and>
    (\<forall>a. if a \<in> changed [AddB [7] 3, GetB [7]] ?A then written True (m' a) (snd (spec_bals [AddB [7] 3, GetB [7]] ?A) a)
      else m' a = (Map.empty([7] := stored_bytes ?b)) a \<and> snd (spec_bals [AddB [7] 3, GetB [7]] ?A) a = ?A a)"
    by (rule State_balances_written [OF _ _ _ _ tr' _ f']) (use b c in \<open>auto simp: st_def sample_state_def\<close>)
  then obtain st1 st2 m' where w: "exec_bals id (Some Map.empty) [AddB [7] 3, GetB [7]] st = Some (Ok ([(None, None), (Some 8, None)], st1))"
    "AccountFinalise id (Some Map.empty) (\<lambda>_. []) (\<lambda>D. if [7] \<in> D then [[7]] else []) True st1 = Some (Ok st2)"
    "Secure_repr id UNIV ?H Map.empty (trieAccount st2) m'"
    "\<forall>a. if a \<in> {[7]} then written True (m' a) ([[7] \<mapsto> (sample_account\<lparr>acc_Balance := 8\<rparr>, Map.empty)] a)
      else m' a = (Map.empty([7] := stored_bytes ?b)) a \<and> [[7] \<mapsto> (sample_account\<lparr>acc_Balance := 8\<rparr>, Map.empty)] a = ?A a"
    unfolding sp c fst_conv snd_conv list.map by blast
  have "\<not> abs_empty (sample_account\<lparr>acc_Balance := 8\<rparr>, Map.empty)" by (simp add: abs_empty_def)
  then have "\<exists>b. m' [7] = Some b \<and> stored_account b (sample_account\<lparr>acc_Balance := 8\<rparr>, Map.empty)"
    using spec [OF w(4), of "[7]"] by (simp add: written_def)
  moreover have "m' [8] = None" using spec [OF w(4), of "[8]"] by simp
  ultimately show ?thesis using w(1-3) by blast
qed

end
