(* ===== verification/Spec2Isabelle.thy ===== *)
theory Spec2Isabelle
  imports RlpTermination TrieProof Blocks StateMap
begin

text \<open>
  Verification of the gocoin blockchain node (the Go sources under \<open>src/libraries/\<close>).

  The program stores the state of its spaces (chains) in Merkle-Patricia tries over a key/value
  database; nodes of the trie, blocks and transactions are serialised with RLP.

  Theories and what they model:

  \<^item> \<open>GoPrelude\<close>: results of Go functions (\<open>Ok\<close>, \<open>Err\<close>, \<open>Panic\<close>), slicing and indexing with Go's
    bounds checks, big-endian integers.
  \<^item> \<open>RlpRaw\<close>: \<open>rlp/raw.go\<close> and the size helpers of \<open>rlp/encode.go\<close>. The reading of a value's header
    accepts exactly the canonical encodings.
  \<^item> \<open>RlpEncode\<close>, \<open>RlpEncodeSpec\<close>: \<open>rlp/encode.go\<close> and \<open>rlp/typecache.go\<close>. Go types and values as seen
    through reflection are the datatypes \<open>rtype\<close> and \<open>rval\<close>; the buffer with its list headers is the
    record \<open>encbuf\<close>. The three ways of delivering the output are the recursive definition of RLP.
  \<^item> \<open>RlpDecode\<close>, \<open>RlpDecodeSpec\<close>, \<open>RlpDecodeTypes\<close>, \<open>RlpRoundtrip\<close>: \<open>rlp/decode.go\<close>. The \<open>Stream\<close> is a
    record over the input left, passed from operation to operation. Decoding inverts encoding, and
    only canonical input is accepted, for the types without the tag \<open>nil\<close> and without arrays of one byte.
  \<^item> \<open>RlpTermination\<close>: the loop of \<open>decodeSliceElems\<close> has two rounds more than there are input bytes, and
    \<open>decodeInterface\<close> as many levels; a run that exceeds them has the result \<open>Diverges\<close>, which no error of the source
    is. The bound is enough: a run that reaches it does not end with any bound, and this happens only for slices
    of elements that can consume nothing, such as arrays of one byte, for which it does happen.
  \<^item> \<open>TrieEncoding\<close>: \<open>chain/space/trie/encoding.go\<close>, the key encodings of the trie and their
    bijections.
  \<^item> \<open>TrieNode\<close>: \<open>chain/space/trie/node.go\<close>. The nesting of embedded nodes is bounded by the length of the
    input, which is enough. Every node that is stored is parsed back.
  \<^item> \<open>TrieOps\<close>, \<open>TrieMap\<close>, \<open>TrieDelete\<close>, \<open>TrieSpec\<close>: \<open>chain/space/trie/trie.go\<close>. The operations follow the
    hashes of nodes that are not loaded through the database and are partial functions; on a trie that
    stands for a map (relation \<open>Trie_repr\<close>) they return and are the operations of the map. \<open>kv_map\<close> is the
    contract, with the trie as its instance.
  \<^item> \<open>TrieHasher\<close>, \<open>TrieCommit\<close>: \<open>chain/space/trie/hasher.go\<close> and \<open>Hash\<close> and \<open>Commit\<close> of \<open>trie.go\<close>. The hash function is a
    parameter. The root hash is a function of the contents, injective when the hash function does not
    collide, and a committed trie can be opened again.
  \<^item> \<open>Keccak\<close>: \<open>crypto/sha3/keccakf.go\<close>. The unrolled in-place rounds are compared with the standard.
  \<^item> \<open>Sha3\<close>, \<open>Sha3Spec\<close>: the sponge of \<open>crypto/sha3\<close> and the hash functions of \<open>crypto/crypto.go\<close>. The loops of \<open>Write\<close>
    and \<open>Read\<close> are partial functions and are proved to return. \<open>hash_writer\<close> is the contract of a hash that is
    written to.
  \<^item> \<open>Merkle\<close>: \<open>common/merkle.go\<close>. Roots and proofs over the modelled Keccak256: completeness, soundness up to
    collisions, and the size of proofs.
  \<^item> \<open>SecureTrie\<close>: \<open>chain/space/trie/secure_trie.go\<close>, a second instance of \<open>kv_map\<close>, for the keys on which the hash
    function does not collide.
  \<^item> \<open>TrieProof\<close>: \<open>chain/space/trie/proof.go\<close>. Proofs are complete on every nonempty trie, and empty for the empty one; \<open>VerifyProof\<close> itself does not hash the
    elements of a proof, and need not end on a cyclic one.
  \<^item> \<open>Curve\<close>: \<open>crypto/secp256k1/curve.go\<close> and \<open>common/math/big.go\<close>. The addition and doubling in Jacobian coordinates are the
    chord and tangent law and stay on the curve; points and integers are written with full length.
  \<^item> \<open>CommonTypes\<close>: \<open>common/types.go\<close> and \<open>common/bytes.go\<close>. Hexadecimal strings are read back, also addresses whose letters
    carry a checksum.
  \<^item> \<open>Signature\<close>: \<open>crypto/secp256k1/secp256.go\<close>, \<open>crypto/signature_cgo.go\<close> and the keys and addresses of \<open>crypto/crypto.go\<close>. The C
    library is a parameter, the record \<open>libsecp256k1\<close>; what it documents of signing and recovery is the predicate
    \<open>ecdsa_ok\<close>.
  \<^item> \<open>Transaction\<close>, \<open>TransactionSpec\<close>: \<open>chain/space/protocol/tx.go\<close> and \<open>tx_signing.go\<close>. The record \<open>Tx\<close> has the caches of the
    source. Transactions survive encoding, their caches agree with their data as long as only constructors,
    decoding into transactions without cached hash and sender, and signing are used, and the sender of a signed transaction is the address of its key. \<open>append_writer\<close>
    is the contract of the writers that the encoder writes to.
  \<^item> \<open>Blocks\<close>: \<open>chain/space/protocol/block.go\<close> and \<open>derive_sha.go\<close>. The hash of a list of transactions is the root of a trie over their indexes,
    without a database; it determines the transactions, and the hash of a block determines its header and its transactions, up to
    collisions.
  \<^item> \<open>StateDB\<close>, \<open>StateSpec\<close>, \<open>StateMap\<close>: \<open>chain/space/state\<close>, the accounts and spaces over two tries with hashed keys. The records
    \<open>accountObject\<close>, \<open>spaceObject\<close> and \<open>StateDB\<close> have the caches and dirty sets of the source; the callback \<open>onDirty\<close> is a flag, the
    order of ranging over a Go map a parameter. Between opening and finalising the balances are a map of accounts, which
    finalising writes to the trie where it was changed; a second change of an account after finalising is lost, negative balances panic, and the encoding of
    attributes depends on the order.

  Not modelled:

  \<^item> The pool of transactions, the production and validation of blocks, the validator groups and the events: goroutines, locks,
    channels and timers around the network. Their results depend on schedules and on peers, and their sequential parts are
    calls of the components above.
  \<^item> Bindings of C libraries that are not part of the sources (group signatures, zero-knowledge proofs), and the verifiable
    random function, which draws random nonces. The library \<open>secp256k1\<close> is a parameter.
  \<^item> The keys and entries of the block database, iteration over tries and their synchronisation, which no modelled operation uses.
  \<^item> JSON, logging, configuration, the console, the commands, sockets and the chaincode containers: input and output, and
    generated code.
\<close>

end
